(* ===== verification/Zing_Prelude.thy ===== *)
theory Zing_Prelude
  imports Main "HOL-Library.Word" "HOL-Library.Signed_Division" "HOL-Library.Product_Lexorder"
begin

text \<open>
  Shared notions of the development: the ways an execution of the library can stop, the
  sequencing of fallible steps, \<open>size_t\<close> arithmetic, and generic lemmas on lists.

  The default build type of the repository is Debug (CMakeLists.txt), so every
  \<open>assert\<close> is compiled in: a failed assertion is the error \<open>AssertFail\<close>.
\<close>

section \<open>Errors and sequencing\<close>

text \<open>
  \<open>AssertFail\<close>: a failed \<open>assert\<close>. \<open>LengthError\<close>: \<open>std::length_error\<close> of a
  container. \<open>BadAlloc\<close>: \<open>std::bad_alloc\<close> of \<open>new\<close>. \<open>Fatal\<close>: \<open>LOG_FATAL\<close> or \<open>LOG_SYSFATAL\<close>, whose logger aborts
  the process. \<open>LogicError\<close>: the \<open>std::logic_error\<close> thrown by the time-zone
  reader. \<open>Undefined\<close>: undefined behaviour of C++ (a deleted object is used, an index
  is out of range).
\<close>

datatype error = AssertFail | LengthError | BadAlloc | Fatal | LogicError string | Undefined

type_synonym 'a result = "error + 'a"

definition rbind :: "'a result \<Rightarrow> ('a \<Rightarrow> 'b result) \<Rightarrow> 'b result" where
  "rbind r f = (case r of Inl e \<Rightarrow> Inl e | Inr x \<Rightarrow> f x)"

lemma rbind_Inl [simp]: "rbind (Inl e) f = Inl e"
  by (simp add: rbind_def)

lemma rbind_Inr [simp]: "rbind (Inr x) f = f x"
  by (simp add: rbind_def)

lemma rbind_eq_Inr_iff: "rbind r f = Inr y \<longleftrightarrow> (\<exists>x. r = Inr x \<and> f x = Inr y)"
  by (cases r) auto

lemma rbind_InrE:
  assumes "rbind r f = Inr y"
  obtains x where "r = Inr x" "f x = Inr y"
  using assms by (auto simp: rbind_eq_Inr_iff)

lemma rbind_assoc: "rbind (rbind r f) g = rbind r (\<lambda>x. rbind (f x) g)"
  by (cases r) auto

lemma rbind_cong [fundef_cong]:
  "r = r' \<Longrightarrow> (\<And>x. r' = Inr x \<Longrightarrow> f x = g x) \<Longrightarrow> rbind r f = rbind r' g"
  by (cases r') auto

lemma rbind_Inr_right [simp]: "rbind r Inr = r"
  by (cases r) auto

definition is_ok :: "'a result \<Rightarrow> bool" where
  "is_ok r = (case r of Inl e \<Rightarrow> False | Inr x \<Rightarrow> True)"

lemma is_okD: "is_ok r \<Longrightarrow> \<exists>x. r = Inr x"
  by (cases r) (simp_all add: is_ok_def)

text \<open>A step applied to each element in turn, as a range-based \<open>for\<close> does.\<close>

fun rfold :: "('a \<Rightarrow> 's \<Rightarrow> 's result) \<Rightarrow> 'a list \<Rightarrow> 's \<Rightarrow> 's result" where
  "rfold f [] s = Inr s"
| "rfold f (x # xs) s = rbind (f x s) (rfold f xs)"

lemma rbind_rfold_Nil [simp]: "rbind r (rfold f []) = r"
  by (cases r) simp_all

lemma rfold_append [simp]: "rfold f (xs @ ys) s = rbind (rfold f xs s) (rfold f ys)"
proof (induction xs arbitrary: s)
  case Nil
  then show ?case by simp
next
  case (Cons x xs)
  then show ?case by (cases "f x s") simp_all
qed

lemma rfold_invariant:
  assumes "rfold f xs s = Inr t" and "P s"
    and "\<And>x s t. x \<in> set xs \<Longrightarrow> P s \<Longrightarrow> f x s = Inr t \<Longrightarrow> P t"
  shows "P t"
  using assms
proof (induction xs arbitrary: s)
  case Nil
  then show ?case by simp
next
  case (Cons x xs)
  from Cons.prems(1) obtain u where u: "f x s = Inr u" "rfold f xs u = Inr t"
    by (auto simp: rbind_eq_Inr_iff)
  moreover have "P u"
    using Cons.prems(2,3) u(1) by auto
  ultimately show ?case
    using Cons.IH Cons.prems(3) by auto
qed

subsection \<open>Outcomes of a step\<close>

text \<open>
  \<open>rpost E P r\<close>: the step either returned a value with property \<open>P\<close> or stopped with one of the
  errors in \<open>E\<close>. With \<open>E = {}\<close> this is total correctness. The rules mirror the sequencing.
\<close>

definition rpost :: "error set \<Rightarrow> ('a \<Rightarrow> bool) \<Rightarrow> 'a result \<Rightarrow> bool" where
  "rpost E P r = (case r of Inl e \<Rightarrow> e \<in> E | Inr x \<Rightarrow> P x)"

lemma rpost_Inr [simp]: "rpost E P (Inr x) = P x"
  by (simp add: rpost_def)

lemma rpost_Inl [simp]: "rpost E P (Inl e) = (e \<in> E)"
  by (simp add: rpost_def)

lemma rpost_rbind:
  assumes "rpost E P r" and "\<And>x. r = Inr x \<Longrightarrow> P x \<Longrightarrow> rpost E Q (f x)"
  shows "rpost E Q (rbind r f)"
  using assms by (cases r) auto

lemma rpost_mono:
  assumes "rpost E P r" and "\<And>x. r = Inr x \<Longrightarrow> P x \<Longrightarrow> Q x"
  shows "rpost E Q r"
  using assms by (cases r) auto

lemma rpost_weaken: "rpost {} P r \<Longrightarrow> rpost E P r"
  by (cases r) simp_all

lemma rpost_InrD: "rpost E P r \<Longrightarrow> r = Inr x \<Longrightarrow> P x"
  by simp

lemma rpost_total: "rpost {} P r \<longleftrightarrow> (\<exists>x. r = Inr x \<and> P x)"
  by (cases r) auto

lemma rpost_rfold:
  assumes "P s" and "\<And>x s. x \<in> set xs \<Longrightarrow> P s \<Longrightarrow> rpost E P (f x s)"
  shows "rpost E P (rfold f xs s)"
  using assms
proof (induction xs arbitrary: s)
  case Nil
  then show ?case by simp
next
  case (Cons x xs)
  then have "rpost E P (f x s)" by simp
  then show ?case
    unfolding rfold.simps by (rule rpost_rbind) (use Cons in auto)
qed

section \<open>Addresses\<close>

text \<open>The address of an object; \<open>nullptr\<close> is 0.\<close>

type_synonym ptr = nat

section \<open>Arithmetic of \<open>size_t\<close>\<close>

text \<open>
  \<open>size_t\<close> is 64 bits wide on the supported platform (\<open>_FILE_OFFSET_BITS=64\<close>, x86-64
  Linux). Its values are kept as \<open>nat\<close> below \<open>2 ^ 64\<close> and every sum and difference the
  code forms wraps around as the machine does. A vector of bytes never holds more than
  \<open>max_vec = 2 ^ 63 - 1\<close> elements: \<open>resize\<close> beyond it throws \<open>length_error\<close>.
\<close>

definition sz_add :: "nat \<Rightarrow> nat \<Rightarrow> nat" where
  "sz_add a b = (a + b) mod 2 ^ 64"

definition sz_sub :: "nat \<Rightarrow> nat \<Rightarrow> nat" where
  "sz_sub a b = (a + (2 ^ 64 - b)) mod 2 ^ 64"

definition max_vec :: nat where
  "max_vec = 2 ^ 63 - 1"

lemma sz_add_exact [simp]: "a + b < 2 ^ 64 \<Longrightarrow> sz_add a b = a + b"
  by (simp add: sz_add_def)

lemma sz_sub_exact [simp]: "b \<le> a \<Longrightarrow> a < 2 ^ 64 \<Longrightarrow> sz_sub a b = a - b"
proof -
  assume "b \<le> a" "a < 2 ^ 64"
  then have "a + (2 ^ 64 - b) = (a - b) + 2 ^ 64" by simp
  moreover have "a - b < 2 ^ 64" using \<open>a < 2 ^ 64\<close> by simp
  ultimately show ?thesis by (simp add: sz_sub_def)
qed

lemma sz_add_bound: "sz_add a b < 2 ^ 64"
  by (simp add: sz_add_def)

lemma sz_sub_bound: "sz_sub a b < 2 ^ 64"
  by (simp add: sz_sub_def)

section \<open>Writing a run of elements into a list\<close>

text \<open>\<open>overwrite i xs ys\<close> copies \<open>xs\<close> over \<open>ys\<close> from position \<open>i\<close> on, as
  \<open>std::copy\<close> and \<open>memcpy\<close> do inside an array that has room for it.\<close>

definition overwrite :: "nat \<Rightarrow> 'a list \<Rightarrow> 'a list \<Rightarrow> 'a list" where
  "overwrite i xs ys = take i ys @ xs @ drop (i + length xs) ys"

lemma length_overwrite [simp]:
  "i + length xs \<le> length ys \<Longrightarrow> length (overwrite i xs ys) = length ys"
  by (simp add: overwrite_def)

lemma take_overwrite [simp]: "i \<le> length ys \<Longrightarrow> take i (overwrite i xs ys) = take i ys"
  by (simp add: overwrite_def)

lemma drop_overwrite_self:
  "i \<le> length ys \<Longrightarrow> drop i (overwrite i xs ys) = xs @ drop (i + length xs) ys"
  by (simp add: overwrite_def)

lemma drop_overwrite_before:
  "r \<le> i \<Longrightarrow> i \<le> length ys \<Longrightarrow>
   drop r (overwrite i xs ys) = drop r (take i ys) @ xs @ drop (i + length xs) ys"
  by (simp add: overwrite_def)

section \<open>Association of an option-valued map with its updates\<close>

lemma fun_upd_None_dom: "dom (m(k := None)) = dom m - {k}"
  by auto

lemmas result_simps = rbind_eq_Inr_iff rbind_assoc

end
