(* ===== verification/Text.thy ===== *)
theory Text
  imports Zing_Prelude
begin

text \<open>
  The part of \<open>snprintf\<close> that the code uses: decimal conversion with a field width, and the
  truncation to the size of the array. Numbers read back from their digits are used to show
  that distinct numbers have distinct texts.
\<close>

section \<open>Decimal digits\<close>

definition digit_char :: "nat \<Rightarrow> char" where
  "digit_char d = char_of (48 + d)"

fun nat_dec :: "nat \<Rightarrow> string" where
  "nat_dec n = (if n < 10 then [digit_char n] else nat_dec (n div 10) @ [digit_char (n mod 10)])"

declare nat_dec.simps [simp del]

definition int_dec :: "int \<Rightarrow> string" where
  "int_dec i = (if i < 0 then CHR ''-'' # nat_dec (nat (- i)) else nat_dec (nat i))"

text \<open>\<open>%<w>d\<close> pads with spaces on the left, \<open>%0<w>d\<close> with zeros after the sign.\<close>

definition fmt_d :: "nat \<Rightarrow> int \<Rightarrow> string" where
  "fmt_d w i = replicate (w - length (int_dec i)) (CHR '' '') @ int_dec i"

definition fmt_0d :: "nat \<Rightarrow> int \<Rightarrow> string" where
  "fmt_0d w i =
     (let ds = nat_dec (nat \<bar>i\<bar>); sg = (if i < 0 then ''-'' else [])
      in sg @ replicate (w - length sg - length ds) (CHR ''0'') @ ds)"

text \<open>What an array of \<open>size\<close> characters holds after \<open>snprintf\<close>: one place is the NUL's.\<close>

definition snprintf_to :: "nat \<Rightarrow> string \<Rightarrow> string" where
  "snprintf_to n s = take (n - 1) s"

section \<open>Reading digits back\<close>

definition digit_val :: "char \<Rightarrow> nat" where
  "digit_val c = of_char c - 48"

definition dec_val :: "string \<Rightarrow> nat" where
  "dec_val s = foldl (\<lambda>a c. 10 * a + digit_val c) 0 s"

lemma digit_val_char [simp]: "d < 10 \<Longrightarrow> digit_val (digit_char d) = d"
  by (simp add: digit_val_def digit_char_def)

lemma dec_val_snoc: "dec_val (s @ [c]) = 10 * dec_val s + digit_val c"
  by (simp add: dec_val_def)

lemma dec_val_nat_dec [simp]: "dec_val (nat_dec n) = n"
proof (induction n rule: nat_dec.induct)
  case (1 n)
  show ?case
  proof (cases "n < 10")
    case True
    then show ?thesis by (simp add: nat_dec.simps dec_val_def)
  next
    case False
    with 1 show ?thesis by (subst nat_dec.simps) (simp add: dec_val_snoc)
  qed
qed

lemma nat_dec_inject [simp]: "nat_dec m = nat_dec n \<longleftrightarrow> m = n"
  by (metis dec_val_nat_dec)

lemma nat_dec_nonempty [simp]: "nat_dec n \<noteq> []"
  by (subst nat_dec.simps) simp

lemma length_nat_dec_le: "n < 10 ^ k \<Longrightarrow> 0 < k \<Longrightarrow> length (nat_dec n) \<le> k"
proof (induction n arbitrary: k rule: nat_dec.induct)
  case (1 n)
  show ?case
  proof (cases "n < 10")
    case True
    with "1.prems" show ?thesis by (subst nat_dec.simps) simp
  next
    case False
    then obtain j where j: "k = Suc j" "0 < j"
      using "1.prems" by (cases k; cases "k - 1") auto
    with "1.prems" have "n div 10 < 10 ^ j" by (simp add: less_mult_imp_div_less mult.commute)
    with 1 False j have "length (nat_dec (n div 10)) \<le> j" by blast
    with False j show ?thesis by (subst nat_dec.simps) simp
  qed
qed

lemma digit_char_range: "d < 10 \<Longrightarrow> of_char (digit_char d) = 48 + d"
  by (simp add: digit_char_def)

lemma nat_dec_chars: "c \<in> set (nat_dec n) \<Longrightarrow> \<exists>d < 10. c = digit_char d"
proof (induction n rule: nat_dec.induct)
  case (1 n)
  show ?case
  proof (cases "n < 10")
    case True
    with "1.prems" have "c = digit_char n" by (simp add: nat_dec.simps[of n])
    with True show ?thesis by blast
  next
    case False
    with "1.prems" have "c \<in> set (nat_dec (n div 10)) \<or> c = digit_char (n mod 10)"
      by (auto simp: nat_dec.simps[of n])
    moreover have "n mod 10 < 10" by simp
    ultimately show ?thesis using False "1.IH" by blast
  qed
qed

lemma minus_not_digit: "CHR ''-'' \<notin> set (nat_dec n)"
proof
  assume "CHR ''-'' \<in> set (nat_dec n)"
  then obtain d where d: "d < 10" "CHR ''-'' = digit_char d" by (auto dest: nat_dec_chars)
  then have "of_char (CHR ''-'') = (48 + d :: nat)" by (simp add: digit_char_range)
  then show False by simp
qed

lemma int_dec_inject [simp]: "int_dec i = int_dec j \<longleftrightarrow> i = j"
proof
  assume "int_dec i = int_dec j"
  then show "i = j"
    using minus_not_digit[of "nat i"] minus_not_digit[of "nat j"]
    by (auto simp: int_dec_def split: if_splits) (metis list.set_intros(1))+
qed simp

section \<open>Single digits\<close>

definition is_digit :: "char \<Rightarrow> bool" where
  "is_digit c = (48 \<le> (of_char c :: nat) \<and> (of_char c :: nat) \<le> 57)"

lemma digit_chars:
  "digit_char 0 = CHR ''0''" "digit_char 1 = CHR ''1''" "digit_char 2 = CHR ''2''" "digit_char 3 = CHR ''3''"
  "digit_char 4 = CHR ''4''" "digit_char 5 = CHR ''5''" "digit_char 6 = CHR ''6''" "digit_char 7 = CHR ''7''"
  "digit_char 8 = CHR ''8''" "digit_char 9 = CHR ''9''" "digit_char (Suc 0) = CHR ''1''"
  by code_simp+

lemma is_digit_char [simp]: "d < 10 \<Longrightarrow> is_digit (digit_char d)"
  by (simp add: is_digit_def digit_char_range)

section \<open>Padded numbers\<close>

lemma fmt_0d_2: "0 \<le> i \<Longrightarrow> i < 100 \<Longrightarrow> length (fmt_0d 2 i) = 2"
  using length_nat_dec_le[of "nat i" 2] by (simp add: fmt_0d_def Let_def)

lemma dec_val_zeros [simp]: "dec_val (replicate k CHR ''0'' @ s) = dec_val s"
proof (induction k)
  case (Suc k)
  then show ?case by (simp add: dec_val_def digit_val_def)
qed simp

lemma zeros_no_minus: "replicate k CHR ''0'' @ nat_dec n \<noteq> CHR ''-'' # s"
  using minus_not_digit[of n] by (cases k) auto

lemma fmt_0d_inject: "fmt_0d w i = fmt_0d w j \<longleftrightarrow> i = j"
proof
  assume e: "fmt_0d w i = fmt_0d w j"
  then have "i < 0 \<longleftrightarrow> j < 0"
    using zeros_no_minus zeros_no_minus[symmetric]
    by (auto simp: fmt_0d_def Let_def split: if_splits)
  moreover have "dec_val (fmt_0d w i) = dec_val (fmt_0d w j)" "dec_val (tl (fmt_0d w i)) = dec_val (tl (fmt_0d w j))"
    using e by simp_all
  ultimately show "i = j" by (cases "i < 0") (auto simp: fmt_0d_def Let_def)
qed simp

lemma length_fmt_0d_exact: "0 \<le> i \<Longrightarrow> i < 10 ^ w \<Longrightarrow> 0 < w \<Longrightarrow> length (fmt_0d w i) = w"
  using length_nat_dec_le[of "nat i" w] by (simp add: fmt_0d_def Let_def nat_less_iff)

end
