(* ===== verification/Timestamp.thy ===== *)
theory Timestamp
  imports Text
begin

text \<open>
  Points in time (src/zing/base/Timestamp.h and Timestamp.cpp) and the atomic counters
  (src/zing/base/Atomic.h). A \<open>Timestamp\<close> holds an \<open>int64_t\<close>; the model computes with
  unbounded integers, which agrees with the code on every execution without signed overflow
  (overflow is undefined in C++).
\<close>

section \<open>Timestamps and their order\<close>

datatype timestamp = Timestamp (microSecondsSinceEpoch: int)

definition ts_less :: "timestamp \<Rightarrow> timestamp \<Rightarrow> bool" where
  "ts_less lhs rhs = (microSecondsSinceEpoch lhs < microSecondsSinceEpoch rhs)"

definition ts_equal :: "timestamp \<Rightarrow> timestamp \<Rightarrow> bool" where
  "ts_equal lhs rhs = (microSecondsSinceEpoch lhs = microSecondsSinceEpoch rhs)"

definition ts_less_eq :: "timestamp \<Rightarrow> timestamp \<Rightarrow> bool" where
  "ts_less_eq lhs rhs = (microSecondsSinceEpoch lhs \<le> microSecondsSinceEpoch rhs)"

text \<open>The comparison operators are a linear order, whose equality is that of the objects.\<close>

lemma ts_equal_iff: "ts_equal lhs rhs \<longleftrightarrow> lhs = rhs"
  by (auto simp: ts_equal_def intro: timestamp.expand)

instantiation timestamp :: linorder
begin

definition less_timestamp :: "timestamp \<Rightarrow> timestamp \<Rightarrow> bool" where
  "less_timestamp = ts_less"

definition less_eq_timestamp :: "timestamp \<Rightarrow> timestamp \<Rightarrow> bool" where
  "less_eq_timestamp = ts_less_eq"

instance
  by standard (auto simp: less_timestamp_def less_eq_timestamp_def ts_less_def ts_less_eq_def
      intro: timestamp.expand)

end

definition kMicroSecondsPerSecond :: int where
  "kMicroSecondsPerSecond = 1000 * 1000"

definition ts_invalid :: timestamp where
  "ts_invalid = Timestamp 0"

definition ts_valid :: "timestamp \<Rightarrow> bool" where
  "ts_valid t = (0 < microSecondsSinceEpoch t)"

definition secondsSinceEpoch :: "timestamp \<Rightarrow> int" where
  "secondsSinceEpoch t = microSecondsSinceEpoch t sdiv kMicroSecondsPerSecond"

definition fromUnixTime :: "int \<Rightarrow> int \<Rightarrow> timestamp" where
  "fromUnixTime t microseconds = Timestamp (t * kMicroSecondsPerSecond + microseconds)"

text \<open>\<open>Timestamp::now()\<close> combines the two fields that \<open>gettimeofday\<close> filled in.\<close>

definition ts_now :: "int \<Rightarrow> int \<Rightarrow> timestamp" where
  "ts_now tv_sec tv_usec = Timestamp (tv_sec * kMicroSecondsPerSecond + tv_usec)"

definition ts_toString :: "timestamp \<Rightarrow> string" where
  "ts_toString t =
    (let seconds = microSecondsSinceEpoch t sdiv kMicroSecondsPerSecond;
         microseconds = microSecondsSinceEpoch t smod kMicroSecondsPerSecond
     in snprintf_to 32 (int_dec seconds @ ''.'' @ fmt_0d 6 microseconds))"

text \<open>
  A \<open>double\<close> number of seconds is only ever looked at in two ways: whether it is greater than
  \<open>0.0\<close>, and its truncation to microseconds, \<open>static_cast<int64_t>(seconds * 1000000)\<close>. These
  two observations stand for it.
\<close>

datatype seconds = Seconds (sec_positive: bool) (sec_micros: int)

definition addTime :: "timestamp \<Rightarrow> seconds \<Rightarrow> timestamp" where
  "addTime t s = (let delta = sec_micros s in Timestamp (microSecondsSinceEpoch t + delta))"

lemma less_timestamp_iff [simp]: "Timestamp a < Timestamp b \<longleftrightarrow> a < b"
  by (simp add: less_timestamp_def ts_less_def)

lemma less_eq_timestamp_iff [simp]: "Timestamp a \<le> Timestamp b \<longleftrightarrow> a \<le> b"
  by (simp add: less_eq_timestamp_def ts_less_eq_def)

section \<open>Atomic counters\<close>

text \<open>
  Each operation is one atomic read-modify-write; arithmetic wraps around at the width of the
  type, as \<open>fetch_add\<close> does. The results are pairs of the returned value and the new value.
\<close>

definition at_getAndAdd :: "'a::len word \<Rightarrow> 'a word \<Rightarrow> 'a word \<times> 'a word" where
  "at_getAndAdd v x = (v, v + x)"

definition at_addAndGet :: "'a::len word \<Rightarrow> 'a word \<Rightarrow> 'a word \<times> 'a word" where
  "at_addAndGet v x = (let old = v in (old + x, v + x))"

definition at_incrementAndGet :: "'a::len word \<Rightarrow> 'a word \<times> 'a word" where
  "at_incrementAndGet v = at_addAndGet v 1"

definition at_decrementAndGet :: "'a::len word \<Rightarrow> 'a word \<times> 'a word" where
  "at_decrementAndGet v = at_addAndGet v (- 1)"

text \<open>The operations without a result give the new value only.\<close>

definition at_new :: "'a::len word" where
  "at_new = 0"

definition at_get :: "'a::len word \<Rightarrow> 'a word" where
  "at_get v = v"

definition at_add :: "'a::len word \<Rightarrow> 'a word \<Rightarrow> 'a word" where
  "at_add v x = v + x"

definition at_increment :: "'a::len word \<Rightarrow> 'a word" where
  "at_increment v = snd (at_incrementAndGet v)"

definition at_decrement :: "'a::len word \<Rightarrow> 'a word" where
  "at_decrement v = snd (at_decrementAndGet v)"

definition at_set :: "'a::len word \<Rightarrow> 'a word \<Rightarrow> 'a word" where
  "at_set v newValue = newValue"

lemmas atomic_defs = at_getAndAdd_def at_addAndGet_def at_incrementAndGet_def at_decrementAndGet_def
  at_increment_def at_decrement_def at_add_def at_set_def at_get_def at_new_def

text \<open>What \<open>addAndGet\<close> returns is what it stored, and a decrement undoes an increment.\<close>

lemma addAndGet_result: "fst (at_addAndGet v x) = snd (at_addAndGet v x)"
  by (simp add: at_addAndGet_def)

lemma decrement_increment [simp]: "at_decrement (at_increment v) = v"
  by (simp add: atomic_defs)

end
