(* ===== verification/Channel.thy ===== *)
theory Channel
  imports Timestamp
begin

text \<open>
  Channels (src/zing/net/Channel.h and Channel.cpp): the events a descriptor is watched for, the
  state that the poller keeps in a channel, and the dispatch of the events that occurred to the
  callbacks. Callbacks may do anything to the program's state \<open>'w\<close>, of which the channel is a
  part, so the dispatch reads the channel again before every test, as the code does.
\<close>

unbundle bit_operations_syntax

section \<open>Event masks\<close>

text \<open>The values of \<open>poll.h\<close> on Linux; EPollPoller.cpp asserts that \<open>epoll\<close> uses the same.\<close>

definition POLLIN :: "32 word" where "POLLIN = 0x001"
definition POLLPRI :: "32 word" where "POLLPRI = 0x002"
definition POLLOUT :: "32 word" where "POLLOUT = 0x004"
definition POLLERR :: "32 word" where "POLLERR = 0x008"
definition POLLHUP :: "32 word" where "POLLHUP = 0x010"
definition POLLNVAL :: "32 word" where "POLLNVAL = 0x020"
definition POLLRDHUP :: "32 word" where "POLLRDHUP = 0x2000"

definition kNoneEvent :: "32 word" where "kNoneEvent = 0"
definition kReadEvent :: "32 word" where "kReadEvent = POLLIN OR POLLPRI"
definition kWriteEvent :: "32 word" where "kWriteEvent = POLLOUT"

lemmas event_defs = POLLIN_def POLLPRI_def POLLOUT_def POLLERR_def POLLHUP_def POLLNVAL_def
  POLLRDHUP_def kNoneEvent_def kReadEvent_def kWriteEvent_def

text \<open>\<open>if (revents & msk)\<close>\<close>

definition has_event :: "32 word \<Rightarrow> 32 word \<Rightarrow> bool" where
  "has_event ev msk = (ev AND msk \<noteq> 0)"

section \<open>The channel\<close>

text \<open>\<open>ch_tie\<close> is the object that \<open>tie_\<close> observes; the callbacks are kept beside the channel.\<close>

record channel =
  ch_loop :: ptr
  ch_fd :: int
  ch_events :: "32 word"
  ch_revents :: "32 word"
  ch_index :: int
  ch_logHup :: bool
  ch_tie :: "nat option"
  ch_tied :: bool
  ch_eventHandling :: bool
  ch_addedToLoop :: bool

definition new_channel :: "ptr \<Rightarrow> int \<Rightarrow> channel" where
  "new_channel loop fd =
     \<lparr>ch_loop = loop, ch_fd = fd, ch_events = 0, ch_revents = 0, ch_index = - 1, ch_logHup = True,
      ch_tie = None, ch_tied = False, ch_eventHandling = False, ch_addedToLoop = False\<rparr>"

definition ch_tie_to :: "nat \<Rightarrow> channel \<Rightarrow> channel" where
  "ch_tie_to obj c = c\<lparr>ch_tie := Some obj, ch_tied := True\<rparr>"

definition isNoneEvent :: "channel \<Rightarrow> bool" where
  "isNoneEvent c = (ch_events c = kNoneEvent)"

definition isWriting :: "channel \<Rightarrow> bool" where
  "isWriting c = has_event (ch_events c) kWriteEvent"

definition isReading :: "channel \<Rightarrow> bool" where
  "isReading c = has_event (ch_events c) kReadEvent"

text \<open>What each of the five mask operations makes of \<open>events_\<close>.\<close>

datatype mask_op = EnableReading | DisableReading | EnableWriting | DisableWriting | DisableAll

fun mask_events :: "mask_op \<Rightarrow> 32 word \<Rightarrow> 32 word" where
  "mask_events EnableReading ev = ev OR kReadEvent"
| "mask_events DisableReading ev = ev AND NOT kReadEvent"
| "mask_events EnableWriting ev = ev OR kWriteEvent"
| "mask_events DisableWriting ev = ev AND NOT kWriteEvent"
| "mask_events DisableAll ev = kNoneEvent"

text \<open>The mask operation followed by the first statement of \<open>update()\<close>.\<close>

definition ch_mask :: "mask_op \<Rightarrow> channel \<Rightarrow> channel" where
  "ch_mask m c = c\<lparr>ch_events := mask_events m (ch_events c), ch_addedToLoop := True\<rparr>"

text \<open>The assertions of the destructor; \<open>hasChannel\<close> is asked in the loop's thread only.\<close>

definition destroy_channel :: "bool \<Rightarrow> bool \<Rightarrow> channel \<Rightarrow> unit result" where
  "destroy_channel isInLoopThread hasChannel c =
    (if ch_eventHandling c \<or> ch_addedToLoop c then Inl AssertFail
     else if isInLoopThread \<and> hasChannel then Inl AssertFail
     else Inr ())"

section \<open>Dispatch\<close>

record 'w callbacks =
  readCallback :: "(timestamp \<Rightarrow> 'w \<Rightarrow> 'w result) option"
  writeCallback :: "('w \<Rightarrow> 'w result) option"
  closeCallback :: "('w \<Rightarrow> 'w result) option"
  errorCallback :: "('w \<Rightarrow> 'w result) option"

text \<open>
  How the program's state holds the channel (\<open>None\<close> once it is destroyed), its callbacks, and the
  strong references to tied objects: \<open>w_lock\<close> is \<open>weak_ptr::lock\<close>, \<open>w_unlock\<close> the end of the
  guard's scope.
\<close>

record 'w channel_in =
  w_get :: "'w \<Rightarrow> channel option"
  w_put :: "channel \<Rightarrow> 'w \<Rightarrow> 'w"
  w_callbacks :: "'w \<Rightarrow> 'w callbacks"
  w_lock :: "nat \<Rightarrow> 'w \<Rightarrow> 'w option"
  w_unlock :: "nat \<Rightarrow> 'w \<Rightarrow> 'w result"

definition ch_modify :: "'w channel_in \<Rightarrow> (channel \<Rightarrow> channel) \<Rightarrow> 'w \<Rightarrow> 'w result" where
  "ch_modify L f w = (case w_get L w of None \<Rightarrow> Inl Undefined | Some c \<Rightarrow> Inr (w_put L (f c) w))"

definition ch_when :: "'w channel_in \<Rightarrow> (32 word \<Rightarrow> bool) \<Rightarrow> ('w callbacks \<Rightarrow> ('w \<Rightarrow> 'w result) option) \<Rightarrow>
    'w \<Rightarrow> 'w result" where
  "ch_when L cond callback w =
    (case w_get L w of
       None \<Rightarrow> Inl Undefined
     | Some c \<Rightarrow> if cond (ch_revents c)
                 then (case callback (w_callbacks L w) of None \<Rightarrow> Inr w | Some f \<Rightarrow> f w)
                 else Inr w)"

definition handleEventWithGuard :: "'w channel_in \<Rightarrow> timestamp \<Rightarrow> 'w \<Rightarrow> 'w result" where
  "handleEventWithGuard L receiveTime w0 =
    rbind (ch_modify L (\<lambda>c. c\<lparr>ch_eventHandling := True\<rparr>) w0) (\<lambda>w1.
    rbind (ch_when L (\<lambda>revt. has_event revt POLLHUP \<and> \<not> has_event revt POLLIN) closeCallback w1) (\<lambda>w2.
    rbind (ch_when L (\<lambda>revt. has_event revt (POLLERR OR POLLNVAL)) errorCallback w2) (\<lambda>w3.
    rbind (ch_when L (\<lambda>revt. has_event revt (POLLIN OR POLLPRI OR POLLRDHUP))
             (\<lambda>cbs. map_option (\<lambda>f. f receiveTime) (readCallback cbs)) w3) (\<lambda>w4.
    rbind (ch_when L (\<lambda>revt. has_event revt POLLOUT) writeCallback w4) (\<lambda>w5.
    ch_modify L (\<lambda>c. c\<lparr>ch_eventHandling := False\<rparr>) w5)))))"

definition handleEvent :: "'w channel_in \<Rightarrow> timestamp \<Rightarrow> 'w \<Rightarrow> 'w result" where
  "handleEvent L receiveTime w =
    (case w_get L w of
       None \<Rightarrow> Inl Undefined
     | Some c \<Rightarrow>
       if ch_tied c
       then (case ch_tie c of
               None \<Rightarrow> Inr w
             | Some obj \<Rightarrow>
               (case w_lock L obj w of
                  None \<Rightarrow> Inr w
                | Some w' \<Rightarrow> rbind (handleEventWithGuard L receiveTime w') (w_unlock L obj)))
       else handleEventWithGuard L receiveTime w)"

section \<open>Printing\<close>

definition eventsToString :: "int \<Rightarrow> 32 word \<Rightarrow> string" where
  "eventsToString fd ev =
     int_dec fd @ '': ''
     @ (if has_event ev POLLIN then ''IN '' else [])
     @ (if has_event ev POLLPRI then ''PRI '' else [])
     @ (if has_event ev POLLOUT then ''OUT '' else [])
     @ (if has_event ev POLLHUP then ''HUP '' else [])
     @ (if has_event ev POLLRDHUP then ''RDHUP '' else [])
     @ (if has_event ev POLLERR then ''ERR '' else [])
     @ (if has_event ev POLLNVAL then ''NVAL '' else [])"

section \<open>Masks\<close>

lemma mask_bits:
  "has_event (ev OR kReadEvent) kReadEvent" "\<not> has_event (ev AND NOT kReadEvent) kReadEvent"
  "has_event (ev OR kWriteEvent) kWriteEvent" "\<not> has_event (ev AND NOT kWriteEvent) kWriteEvent"
  "has_event (ev OR kReadEvent) kWriteEvent = has_event ev kWriteEvent"
  "has_event (ev AND NOT kReadEvent) kWriteEvent = has_event ev kWriteEvent"
  "has_event (ev OR kWriteEvent) kReadEvent = has_event ev kReadEvent"
  "has_event (ev AND NOT kWriteEvent) kReadEvent = has_event ev kReadEvent"
proof -
  have d: "kReadEvent AND kWriteEvent = 0" by (simp add: event_defs)
  have nz: "kReadEvent \<noteq> 0" "kWriteEvent \<noteq> 0" by (simp_all add: event_defs)
  have "(ev OR a) AND a = a" "(ev AND NOT a) AND a = 0" for a :: "32 word"
    by (auto intro!: bit_word_eqI simp: bit_and_iff bit_or_iff bit_not_iff)
  with nz show "has_event (ev OR kReadEvent) kReadEvent" "\<not> has_event (ev AND NOT kReadEvent) kReadEvent"
    "has_event (ev OR kWriteEvent) kWriteEvent" "\<not> has_event (ev AND NOT kWriteEvent) kWriteEvent"
    by (simp_all add: has_event_def)
  have "(ev OR a) AND b = ev AND b" "(ev AND NOT a) AND b = ev AND b" if "a AND b = 0" for a b :: "32 word"
  proof -
    show "(ev OR a) AND b = ev AND b" using that by (simp add: word_ao_dist)
    have "\<not> (bit a n \<and> bit b n)" for n using that by (metis bit_and_iff bit_0_eq bot_fun_def bot_bool_def)
    then show "(ev AND NOT a) AND b = ev AND b"
      by (intro bit_word_eqI) (auto simp: bit_and_iff bit_not_iff)
  qed
  note this[of kReadEvent kWriteEvent, OF d] this[of kWriteEvent kReadEvent]
  with d show "has_event (ev OR kReadEvent) kWriteEvent = has_event ev kWriteEvent"
    "has_event (ev AND NOT kReadEvent) kWriteEvent = has_event ev kWriteEvent"
    "has_event (ev OR kWriteEvent) kReadEvent = has_event ev kReadEvent"
    "has_event (ev AND NOT kWriteEvent) kReadEvent = has_event ev kReadEvent"
    by (simp_all add: has_event_def ac_simps)
qed

lemma ch_mask_flags [simp]:
  "isReading (ch_mask EnableReading c)" "isWriting (ch_mask EnableReading c) = isWriting c"
  "\<not> isReading (ch_mask DisableReading c)" "isWriting (ch_mask DisableReading c) = isWriting c"
  "isWriting (ch_mask EnableWriting c)" "isReading (ch_mask EnableWriting c) = isReading c"
  "\<not> isWriting (ch_mask DisableWriting c)" "isReading (ch_mask DisableWriting c) = isReading c"
  "isNoneEvent (ch_mask DisableAll c)"
  by (simp_all add: ch_mask_def isReading_def isWriting_def isNoneEvent_def mask_bits)

section \<open>Which callbacks an event set reaches\<close>

datatype handler = OnClose | OnError | OnRead | OnWrite

definition dispatch :: "32 word \<Rightarrow> handler list" where
  "dispatch revt =
     (if has_event revt POLLHUP \<and> \<not> has_event revt POLLIN then [OnClose] else [])
     @ (if has_event revt (POLLERR OR POLLNVAL) then [OnError] else [])
     @ (if has_event revt (POLLIN OR POLLPRI OR POLLRDHUP) then [OnRead] else [])
     @ (if has_event revt POLLOUT then [OnWrite] else [])"

fun handler_fun :: "timestamp \<Rightarrow> 'w callbacks \<Rightarrow> handler \<Rightarrow> ('w \<Rightarrow> 'w result) option" where
  "handler_fun t cbs OnClose = closeCallback cbs"
| "handler_fun t cbs OnError = errorCallback cbs"
| "handler_fun t cbs OnRead = map_option (\<lambda>f. f t) (readCallback cbs)"
| "handler_fun t cbs OnWrite = writeCallback cbs"

definition call_handler :: "timestamp \<Rightarrow> 'w callbacks \<Rightarrow> handler \<Rightarrow> 'w \<Rightarrow> 'w result" where
  "call_handler t cbs h w = (case handler_fun t cbs h of None \<Rightarrow> Inr w | Some f \<Rightarrow> f w)"

lemma ch_when_rfold:
  assumes "\<And>h w w'. call_handler t cbs h w = Inr w' \<Longrightarrow>
      map_option ch_revents (w_get L w') = map_option ch_revents (w_get L w)"
    and "\<And>w. w_callbacks L w = cbs" and "handler_fun t cbs h = callback cbs"
    and "map_option ch_revents (w_get L w) = Some revt"
    and "\<And>w'. map_option ch_revents (w_get L w') = Some revt \<Longrightarrow> K w' = rbind (rfold (call_handler t cbs) hs w') M"
  shows "rbind (ch_when L cond callback w) K
       = rbind (rfold (call_handler t cbs) ((if cond revt then [h] else []) @ hs) w) M"
proof -
  obtain c where c: "w_get L w = Some c" "ch_revents c = revt" using assms(4) by auto
  have wh: "ch_when L cond callback w = (if cond revt then call_handler t cbs h w else Inr w)"
    using c assms(2,3) by (simp add: ch_when_def call_handler_def)
  show ?thesis
  proof (cases "cond revt")
    case True
    show ?thesis
    proof (cases "call_handler t cbs h w")
      case (Inr w')
      have "map_option ch_revents (w_get L w') = Some revt"
        using assms(1)[OF Inr] assms(4) by simp
      then show ?thesis using True wh Inr assms(5) by simp
    qed (use True wh in simp)
  next
    case False
    then show ?thesis using wh assms(4,5) by simp
  qed
qed

text \<open>
  A channel that is not tied hands an event set to exactly the callbacks it calls for, each at
  most once and in the order close, error, read, write (a hang-up with data still to be read
  counts as data), inside one eventHandling bracket, as long as the callbacks keep the channel and
  the events it reports.
\<close>

theorem handleEvent_dispatch:
  assumes get_put: "\<And>c w. w_get L (w_put L c w) = Some c"
    and stays: "\<And>h w w'. call_handler t cbs h w = Inr w' \<Longrightarrow>
      map_option ch_revents (w_get L w') = map_option ch_revents (w_get L w)"
    and cbs: "\<And>w. w_callbacks L w = cbs"
    and c: "w_get L w = Some c" "\<not> ch_tied c"
  shows "handleEvent L t w =
    rbind (rfold (call_handler t cbs) (dispatch (ch_revents c)) (w_put L (c\<lparr>ch_eventHandling := True\<rparr>) w))
      (ch_modify L (\<lambda>c. c\<lparr>ch_eventHandling := False\<rparr>))"
proof -
  let ?M = "ch_modify L (\<lambda>c. c\<lparr>ch_eventHandling := False\<rparr>)"
  let ?revt = "ch_revents c" and ?w1 = "w_put L (c\<lparr>ch_eventHandling := True\<rparr>) w"
  have w1: "map_option ch_revents (w_get L ?w1) = Some ?revt" by (simp add: get_put)
  have "handleEvent L t w = handleEventWithGuard L t w" using c by (simp add: handleEvent_def)
  also have "\<dots> = rbind (rfold (call_handler t cbs) (dispatch ?revt @ []) ?w1) ?M"
    unfolding handleEventWithGuard_def dispatch_def append_assoc
    apply (simp only: ch_modify_def[of L _ w] c option.case rbind_Inr)
    apply (rule ch_when_rfold[OF stays cbs _ w1], assumption, simp)
    apply (rule ch_when_rfold[OF stays cbs], assumption, simp, assumption)
    apply (rule ch_when_rfold[OF stays cbs], assumption, simp, assumption)
    apply (rule ch_when_rfold[OF stays cbs], assumption, simp, assumption)
    apply simp
    done
  finally show ?thesis by simp
qed

definition log_callbacks :: "(channel \<times> string) callbacks" where
  "log_callbacks =
     \<lparr>readCallback = Some (\<lambda>t (c, l). Inr (c, l @ ''r'')),
      writeCallback = Some (\<lambda>(c, l). Inr (c, l @ ''w'')),
      closeCallback = Some (\<lambda>(c, l). Inr (c, l @ ''c'')), errorCallback = None\<rparr>"

definition log_world :: "(channel \<times> string) channel_in" where
  "log_world =
     \<lparr>w_get = (\<lambda>(c, l). Some c), w_put = (\<lambda>c (_, l). (c, l)), w_callbacks = (\<lambda>_. log_callbacks),
      w_lock = (\<lambda>_ w. Some w), w_unlock = (\<lambda>_ w. Inr w)\<rparr>"

lemma log_stays:
  "call_handler t log_callbacks h w = Inr w' \<Longrightarrow>
   map_option ch_revents (w_get log_world w') = map_option ch_revents (w_get log_world w)"
  by (cases h) (auto simp: call_handler_def log_callbacks_def log_world_def split: prod.splits)

lemma handleEvent_dispatch_witness:
  "handleEvent log_world (Timestamp 9) ((new_channel 1 5)\<lparr>ch_revents := 0x1D\<rparr>, [])
   = Inr ((new_channel 1 5)\<lparr>ch_revents := 0x1D\<rparr>, ''rw'')"
proof -
  let ?c = "(new_channel 1 5)\<lparr>ch_revents := 0x1D\<rparr>"
  have d: "dispatch (ch_revents ?c) = [OnError, OnRead, OnWrite]"
    by (simp add: dispatch_def has_event_def event_defs)
  have l: "w_get log_world (?c, []) = Some ?c" "\<not> ch_tied ?c"
    "w_callbacks log_world w = log_callbacks" "w_get log_world (w_put log_world c w) = Some c" for c w
    by (simp_all add: log_world_def new_channel_def split: prod.splits)
  show ?thesis
    using handleEvent_dispatch[OF l(4) log_stays l(3) l(1,2), of "Timestamp 9"] unfolding d
    by (simp add: call_handler_def log_callbacks_def log_world_def ch_modify_def new_channel_def)
qed

end
