(* ===== verification/Poller.thy ===== *)
theory Poller
  imports Channel
begin

text \<open>
  What the two pollers share (src/zing/net/Poller.h, Poller.cpp, DefaultPoller.cpp) and the
  contract that event loops rely on: a poller is asked to update and to remove channels, and what
  it watches is always the mask of every registered channel. Channels live in a heap, because the
  poller and the channel's owner both change them.
\<close>

section \<open>The base class\<close>

record poller =
  po_heap :: "ptr \<Rightarrow> channel option"
  po_channels :: "int \<Rightarrow> ptr option"
  po_threadId :: int

definition po_assertInLoopThread :: "int \<Rightarrow> 'a poller_scheme \<Rightarrow> unit result" where
  "po_assertInLoopThread me q = (if me = po_threadId q then Inr () else Inl Fatal)"

definition hasChannel :: "int \<Rightarrow> ptr \<Rightarrow> 'a poller_scheme \<Rightarrow> bool result" where
  "hasChannel me p q =
    rbind (po_assertInLoopThread me q) (\<lambda>_.
      case po_heap q p of
        None \<Rightarrow> Inl Undefined
      | Some c \<Rightarrow> Inr (po_channels q (ch_fd c) = Some p))"

text \<open>\<open>channel->set_index(idx)\<close> and \<open>channel->set_revents(revt)\<close> through a pointer.\<close>

definition po_set :: "ptr \<Rightarrow> channel \<Rightarrow> 'a poller_scheme \<Rightarrow> 'a poller_scheme" where
  "po_set p c q = q\<lparr>po_heap := (po_heap q)(p \<mapsto> c)\<rparr>"

definition set_index :: "ptr \<Rightarrow> int \<Rightarrow> 'a poller_scheme \<Rightarrow> 'a poller_scheme result" where
  "set_index p idx q =
    (case po_heap q p of None \<Rightarrow> Inl Undefined | Some c \<Rightarrow> Inr (po_set p (c\<lparr>ch_index := idx\<rparr>) q))"

definition set_revents :: "ptr \<Rightarrow> 32 word \<Rightarrow> 'a poller_scheme \<Rightarrow> 'a poller_scheme result" where
  "set_revents p revt q =
    (case po_heap q p of None \<Rightarrow> Inl Undefined | Some c \<Rightarrow> Inr (po_set p (c\<lparr>ch_revents := revt\<rparr>) q))"

section \<open>Channels ask their poller\<close>

text \<open>
  The five mask operations of a channel end in \<open>update()\<close>, which reaches the poller's virtual
  \<open>updateChannel\<close>; \<open>remove()\<close> reaches \<open>removeChannel\<close>. The two functions are parameters here,
  as the calls are dispatched at run time.
\<close>

definition ch_update ::
  "(int \<Rightarrow> ptr \<Rightarrow> 'a poller_scheme \<Rightarrow> 'a poller_scheme result) \<Rightarrow>
   int \<Rightarrow> mask_op \<Rightarrow> ptr \<Rightarrow> 'a poller_scheme \<Rightarrow> 'a poller_scheme result" where
  "ch_update upd me m p q =
    (case po_heap q p of
       None \<Rightarrow> Inl Undefined
     | Some c \<Rightarrow> upd me p (po_set p (ch_mask m c) q))"

definition ch_remove ::
  "(int \<Rightarrow> ptr \<Rightarrow> 'a poller_scheme \<Rightarrow> 'a poller_scheme result) \<Rightarrow>
   int \<Rightarrow> ptr \<Rightarrow> 'a poller_scheme \<Rightarrow> 'a poller_scheme result" where
  "ch_remove rem me p q =
    (case po_heap q p of
       None \<Rightarrow> Inl Undefined
     | Some c \<Rightarrow> if \<not> isNoneEvent c then Inl AssertFail
                 else rem me p (po_set p (c\<lparr>ch_addedToLoop := False\<rparr>) q))"

text \<open>What owners do with channels: mask operations, and \<open>disableAll(); remove();\<close> at the end.\<close>

datatype chan_req = Mask mask_op ptr | Close ptr

fun run_req ::
  "(int \<Rightarrow> ptr \<Rightarrow> 'a poller_scheme \<Rightarrow> 'a poller_scheme result) \<Rightarrow>
   (int \<Rightarrow> ptr \<Rightarrow> 'a poller_scheme \<Rightarrow> 'a poller_scheme result) \<Rightarrow>
   int \<Rightarrow> chan_req \<Rightarrow> 'a poller_scheme \<Rightarrow> 'a poller_scheme result" where
  "run_req upd rem me (Mask m p) q = ch_update upd me m p q"
| "run_req upd rem me (Close p) q =
     rbind (ch_update upd me DisableAll p q) (ch_remove rem me p)"

section \<open>The specification: a registry of masks\<close>

text \<open>A registry says for each descriptor which channel is registered for it, with which mask.\<close>

type_synonym registry = "int \<Rightarrow> (ptr \<times> 32 word) option"

definition po_abs :: "'a poller_scheme \<Rightarrow> registry" where
  "po_abs q fd =
    (case po_channels q fd of None \<Rightarrow> None
     | Some p \<Rightarrow> map_option (\<lambda>c. (p, ch_events c)) (po_heap q p))"

definition reg_mask :: "registry \<Rightarrow> int \<Rightarrow> 32 word" where
  "reg_mask r fd = (case r fd of None \<Rightarrow> 0 | Some (p, ev) \<Rightarrow> ev)"

text \<open>The events to be reported for a descriptor; an empty mask is not watched.\<close>

definition reg_watch :: "registry \<Rightarrow> int \<Rightarrow> 32 word option" where
  "reg_watch r fd = (if reg_mask r fd = 0 then None else Some (reg_mask r fd))"

fun spec_req :: "(ptr \<Rightarrow> int) \<Rightarrow> chan_req \<Rightarrow> registry \<Rightarrow> registry" where
  "spec_req fdof (Mask m p) r = r(fdof p \<mapsto> (p, mask_events m (reg_mask r (fdof p))))"
| "spec_req fdof (Close p) r = r(fdof p := None)"

text \<open>
  Requests that keep the rules of the interface: a channel is new (in \<open>fresh\<close>) and its
  descriptor free when it is first used, and it is not used again after it was closed.
\<close>

fun legal :: "(ptr \<Rightarrow> int) \<Rightarrow> ptr list \<Rightarrow> registry \<Rightarrow> chan_req list \<Rightarrow> bool" where
  "legal fdof fresh r [] = True"
| "legal fdof fresh r (Mask m p # rs) =
     ((case r (fdof p) of None \<Rightarrow> p \<in> set fresh | Some (p', _) \<Rightarrow> p' = p)
      \<and> legal fdof (removeAll p fresh) (spec_req fdof (Mask m p) r) rs)"
| "legal fdof fresh r (Close p # rs) =
     ((case r (fdof p) of None \<Rightarrow> False | Some (p', _) \<Rightarrow> p' = p)
      \<and> legal fdof (removeAll p fresh) (spec_req fdof (Close p) r) rs)"

text \<open>A channel that was never used.\<close>

definition is_fresh :: "channel \<Rightarrow> bool" where
  "is_fresh c \<longleftrightarrow> ch_index c = - 1 \<and> ch_events c = 0"

definition same_but_index :: "channel \<Rightarrow> channel \<Rightarrow> bool" where
  "same_but_index c c' \<longleftrightarrow> c\<lparr>ch_index := 0\<rparr> = c'\<lparr>ch_index := 0\<rparr>"

lemma same_but_index_refl [simp]: "same_but_index c c" "same_but_index (c\<lparr>ch_index := i\<rparr>) c"
  "same_but_index c (c\<lparr>ch_index := i\<rparr>)"
  by (simp_all add: same_but_index_def)

lemma same_but_indexD:
  "same_but_index c c' \<Longrightarrow> ch_fd c = ch_fd c' \<and> ch_events c = ch_events c' \<and> ch_loop c = ch_loop c'
     \<and> ch_revents c = ch_revents c' \<and> ch_addedToLoop c = ch_addedToLoop c'"
  unfolding same_but_index_def by (cases c; cases c') simp

text \<open>
  The effect of a request on the heap: channel \<open>p\<close> becomes \<open>c\<close>, up to the index, every other
  registered channel changes in its index at most, and an unregistered one not at all.
\<close>

definition po_step :: "'a poller_scheme \<Rightarrow> 'a poller_scheme \<Rightarrow> ptr \<Rightarrow> channel \<Rightarrow> bool" where
  "po_step q q' p c \<longleftrightarrow> po_threadId q' = po_threadId q
     \<and> rel_option same_but_index (po_heap q' p) (Some c)
     \<and> (\<forall>p'. p' \<noteq> p \<longrightarrow> rel_option same_but_index (po_heap q' p') (po_heap q p'))
     \<and> (\<forall>p' c'. p' \<noteq> p \<longrightarrow> po_heap q p' = Some c' \<longrightarrow> po_channels q (ch_fd c') \<noteq> Some p' \<longrightarrow>
          po_heap q' p' = Some c')"

definition usable :: "'a poller_scheme \<Rightarrow> ptr \<Rightarrow> channel \<Rightarrow> bool" where
  "usable q p c \<longleftrightarrow> po_channels q (ch_fd c) = Some p
     \<or> (po_channels q (ch_fd c) = None \<and> is_fresh c)"

lemma po_step_trans:
  assumes a: "po_step q q1 p c" and h: "po_heap q1 p = Some c1"
    and b: "po_step q1 q2 p (c1\<lparr>ch_addedToLoop := False\<rparr>)"
    and chans: "po_channels q1 = (po_channels q)(fd \<mapsto> p)"
  shows "po_step q q2 p (c\<lparr>ch_addedToLoop := False\<rparr>)"
proof -
  have s: "same_but_index x y \<Longrightarrow> same_but_index y z \<Longrightarrow> same_but_index x z" for x y z
    by (simp add: same_but_index_def)
  have t: "rel_option same_but_index x z"
    if xy: "rel_option same_but_index x y" and yz: "rel_option same_but_index y z" for x y z
  proof (cases x)
    case None
    then show ?thesis using xy yz by (cases y; cases z) auto
  next
    case (Some u)
    then obtain v where v: "y = Some v" "same_but_index u v" using xy by (auto simp: option_rel_Some1)
    then obtain w where "z = Some w" "same_but_index v w"
      using yz by (auto simp: option_rel_Some1)
    then show ?thesis using Some s[OF v(2)] by simp
  qed
  have "same_but_index c1 c" using a h by (simp add: po_step_def)
  then have "same_but_index (c1\<lparr>ch_addedToLoop := False\<rparr>) (c\<lparr>ch_addedToLoop := False\<rparr>)"
    unfolding same_but_index_def by (cases c; cases c1) simp
  then have "rel_option same_but_index (po_heap q2 p) (Some (c\<lparr>ch_addedToLoop := False\<rparr>))"
    using b t[of "po_heap q2 p" "Some (c1\<lparr>ch_addedToLoop := False\<rparr>)"] by (simp add: po_step_def)
  moreover have "rel_option same_but_index (po_heap q2 p') (po_heap q p')" if "p' \<noteq> p" for p'
    using a b that t[of "po_heap q2 p'" "po_heap q1 p'"] by (simp add: po_step_def)
  moreover have "po_heap q2 p' = Some c'"
    if "p' \<noteq> p" "po_heap q p' = Some c'" "po_channels q (ch_fd c') \<noteq> Some p'" for p' c'
  proof -
    have "po_heap q1 p' = Some c'" using a that by (simp add: po_step_def)
    moreover have "po_channels q1 (ch_fd c') \<noteq> Some p'" using chans that by auto
    ultimately show ?thesis using b that(1) by (simp add: po_step_def)
  qed
  ultimately show ?thesis using a b by (simp add: po_step_def)
qed

text \<open>Closing a channel is disabling it and then removing it.\<close>

lemma close_from_remove:
  assumes upd: "rpost E (\<lambda>q'. ok q' \<and> po_step q q' p (ch_mask DisableAll c)
        \<and> po_channels q' = (po_channels q)(ch_fd c \<mapsto> p) \<and> X q') (ch_update upd me DisableAll p q)"
    and rem: "\<And>q1 c1. ok q1 \<Longrightarrow> po_heap q1 p = Some c1 \<Longrightarrow> po_channels q1 (ch_fd c1) = Some p \<Longrightarrow>
        ch_events c1 = 0 \<Longrightarrow> me = po_threadId q1 \<Longrightarrow> X q1 \<Longrightarrow>
        rpost E (\<lambda>q2. ok q2 \<and> po_step q1 q2 p (c1\<lparr>ch_addedToLoop := False\<rparr>)
                \<and> po_channels q2 = (po_channels q1)(ch_fd c1 := None)) (ch_remove rem me p q1)"
    and me: "me = po_threadId q"
  shows "rpost E (\<lambda>q'. ok q' \<and> po_step q q' p ((ch_mask DisableAll c)\<lparr>ch_addedToLoop := False\<rparr>)
                 \<and> po_channels q' = (po_channels q)(ch_fd c := None))
       (run_req upd rem me (Close p) q)"
  unfolding run_req.simps
proof (rule rpost_rbind[OF upd])
  fix q1 assume q1: "ok q1 \<and> po_step q q1 p (ch_mask DisableAll c)
        \<and> po_channels q1 = (po_channels q)(ch_fd c \<mapsto> p) \<and> X q1"
  then obtain c1 where c1: "po_heap q1 p = Some c1" "same_but_index c1 (ch_mask DisableAll c)"
    by (auto simp: po_step_def option_rel_Some2)
  then have f: "ch_fd c1 = ch_fd c" "ch_events c1 = 0"
    using same_but_indexD[OF c1(2)] by (simp_all add: ch_mask_def kNoneEvent_def)
  have "rpost E (\<lambda>q2. ok q2 \<and> po_step q1 q2 p (c1\<lparr>ch_addedToLoop := False\<rparr>)
                \<and> po_channels q2 = (po_channels q1)(ch_fd c1 := None)) (ch_remove rem me p q1)"
    using q1 c1(1) f me by (intro rem) (auto simp: po_step_def)
  then show "rpost E (\<lambda>q'. ok q' \<and> po_step q q' p ((ch_mask DisableAll c)\<lparr>ch_addedToLoop := False\<rparr>)
                 \<and> po_channels q' = (po_channels q)(ch_fd c := None)) (ch_remove rem me p q1)"
  proof (rule rpost_mono)
    fix q2 assume q2: "ok q2 \<and> po_step q1 q2 p (c1\<lparr>ch_addedToLoop := False\<rparr>)
                \<and> po_channels q2 = (po_channels q1)(ch_fd c1 := None)"
    then have "po_step q q2 p ((ch_mask DisableAll c)\<lparr>ch_addedToLoop := False\<rparr>)"
      using q1 c1(1) po_step_trans by blast
    then show "ok q2 \<and> po_step q q2 p ((ch_mask DisableAll c)\<lparr>ch_addedToLoop := False\<rparr>)
                 \<and> po_channels q2 = (po_channels q)(ch_fd c := None)"
      using q1 q2 f by simp
  qed
qed

section \<open>The contract\<close>

locale poller_contract =
  fixes upd rem :: "int \<Rightarrow> ptr \<Rightarrow> 'a poller_scheme \<Rightarrow> 'a poller_scheme result"
    and ok :: "'a poller_scheme \<Rightarrow> bool"
    and E :: "error set"
    and watch :: "'a poller_scheme \<Rightarrow> int \<Rightarrow> 32 word option"
  assumes update_law:
    "ok q \<Longrightarrow> po_heap q p = Some c \<Longrightarrow> me = po_threadId q \<Longrightarrow> usable q p c \<Longrightarrow> 0 \<le> ch_fd c \<Longrightarrow>
     rpost E (\<lambda>q'. ok q' \<and> po_step q q' p (ch_mask m c)
                 \<and> po_channels q' = (po_channels q)(ch_fd c \<mapsto> p))
       (ch_update upd me m p q)"
    and close_law:
    "ok q \<Longrightarrow> po_heap q p = Some c \<Longrightarrow> me = po_threadId q \<Longrightarrow> po_channels q (ch_fd c) = Some p \<Longrightarrow>
     rpost E (\<lambda>q'. ok q' \<and> po_step q q' p ((ch_mask DisableAll c)\<lparr>ch_addedToLoop := False\<rparr>)
                 \<and> po_channels q' = (po_channels q)(ch_fd c := None))
       (run_req upd rem me (Close p) q)"
    and watch_law: "ok q \<Longrightarrow> watch q fd = reg_watch (po_abs q) fd"
    and heap_law: "ok q \<Longrightarrow> po_channels q fd = Some p \<Longrightarrow> \<exists>c. po_heap q p = Some c \<and> ch_fd c = fd"
begin

text \<open>The relation between a poller and its specification while requests are served.\<close>

definition sim :: "(ptr \<Rightarrow> int) \<Rightarrow> ptr list \<Rightarrow> registry \<Rightarrow> 'a poller_scheme \<Rightarrow> bool" where
  "sim fdof fresh r q \<longleftrightarrow> ok q \<and> po_abs q = r
     \<and> (\<forall>p c. po_heap q p = Some c \<longrightarrow> ch_fd c = fdof p \<and> 0 \<le> fdof p)
     \<and> (\<forall>p \<in> set fresh. \<exists>c. po_heap q p = Some c \<and> is_fresh c \<and> po_channels q (ch_fd c) \<noteq> Some p)"

lemma sim_step:
  assumes sim: "sim fdof fresh r q" and ok': "ok q'" and step: "po_step q q' p c"
    and fd: "ch_fd c = fdof p" and p: "p \<in> dom (po_heap q)"
    and chans: "po_channels q' = (po_channels q)(fdof p := x)"
    and x: "x = None \<or> x = Some p" and free: "po_channels q (fdof p) \<in> {None, Some p}"
  shows "sim fdof (removeAll p fresh) (r(fdof p := map_option (\<lambda>_. (p, ch_events c)) x)) q'"
  unfolding sim_def
proof (intro conjI allI impI ballI)
  have hp: "\<exists>c'. po_heap q' p = Some c' \<and> same_but_index c' c"
    using step by (auto simp: po_step_def option_rel_Some2)
  have other: "rel_option same_but_index (po_heap q' p') (po_heap q p')" if "p' \<noteq> p" for p'
    using step that by (simp add: po_step_def)
  show "ok q'" by (rule ok')
  show "ch_fd c' = fdof p'" "0 \<le> fdof p'" if "po_heap q' p' = Some c'" for p' c'
  proof -
    have "ch_fd c' = fdof p' \<and> 0 \<le> fdof p'"
    proof (cases "p' = p")
      case True
      then show ?thesis using hp that fd sim p by (auto simp: sim_def dest: same_but_indexD)
    next
      case False
      have "rel_option same_but_index (Some c') (po_heap q p')" using other[OF False] that by simp
      then obtain c'' where "po_heap q p' = Some c''" "same_but_index c' c''"
        by (auto simp: option_rel_Some1)
      then show ?thesis using sim by (auto simp: sim_def dest: same_but_indexD)
    qed
    then show "ch_fd c' = fdof p'" "0 \<le> fdof p'" by simp_all
  qed
  show "po_abs q' = r(fdof p := map_option (\<lambda>_. (p, ch_events c)) x)"
  proof
    fix fd
    show "po_abs q' fd = (r(fdof p := map_option (\<lambda>_. (p, ch_events c)) x)) fd"
    proof (cases "fd = fdof p")
      case True
      then show ?thesis using chans x hp by (auto simp: po_abs_def dest: same_but_indexD)
    next
      case False
      have "po_abs q' fd = po_abs q fd"
      proof (cases "po_channels q fd")
        case None
        then show ?thesis using False chans by (simp add: po_abs_def)
      next
        case (Some p')
        have "ok q" using sim by (simp add: sim_def)
        from heap_law[OF this Some] obtain c' where c': "po_heap q p' = Some c'" "ch_fd c' = fd" by blast
        then have "fdof p' = fd" using sim by (auto simp: sim_def)
        then have "p' \<noteq> p" using False by auto
        from other[OF this] obtain c'' where "po_heap q' p' = Some c''" "same_but_index c'' c'"
          using c'(1) by (auto simp: option_rel_Some2)
        then show ?thesis
          using False chans c' Some by (auto simp: po_abs_def dest: same_but_indexD)
      qed
      then show ?thesis using False sim by (simp add: sim_def)
    qed
  qed
  fix p' assume "p' \<in> set (removeAll p fresh)"
  then have p': "p' \<noteq> p" "p' \<in> set fresh" by auto
  then obtain c' where c': "po_heap q p' = Some c'" "is_fresh c'" "po_channels q (ch_fd c') \<noteq> Some p'"
    using sim by (auto simp: sim_def)
  moreover have "po_heap q' p' = Some c'" using step p'(1) c' by (simp add: po_step_def)
  moreover have "po_channels q' (ch_fd c') \<noteq> Some p'"
    using c'(3) chans x p'(1) by auto
  ultimately show "\<exists>c. po_heap q' p' = Some c \<and> is_fresh c \<and> po_channels q' (ch_fd c) \<noteq> Some p'"
    by blast
qed

lemma request_refines:
  assumes sim: "sim fdof fresh r q" and leg: "legal fdof fresh r (req # rs)" and me: "me = po_threadId q"
  shows "rpost E (\<lambda>q'. \<exists>fresh'. sim fdof fresh' (spec_req fdof req r) q'
            \<and> legal fdof fresh' (spec_req fdof req r) rs \<and> po_threadId q' = po_threadId q)
          (run_req upd rem me req q)"
proof -
  have ok: "ok q" and r: "po_abs q = r" using sim by (simp_all add: sim_def)
  have registered: "\<exists>c. po_heap q p = Some c \<and> po_channels q (fdof p) = Some p \<and> ev = ch_events c"
    if "r (fdof p) = Some (p, ev)" for p ev
    using that unfolding r[symmetric] po_abs_def by (auto split: option.splits)
  show ?thesis
  proof (cases req)
    case (Mask m p)
    have "\<exists>c. po_heap q p = Some c \<and> usable q p c \<and> reg_mask r (fdof p) = ch_events c
        \<and> po_channels q (fdof p) \<in> {None, Some p}"
    proof (cases "r (fdof p)")
      case None
      then have "p \<in> set fresh" using leg Mask by simp
      then obtain c where c: "po_heap q p = Some c" "is_fresh c" using sim by (auto simp: sim_def)
      have "po_channels q (fdof p) = None"
      proof (rule ccontr)
        assume "po_channels q (fdof p) \<noteq> None"
        then obtain p' where p': "po_channels q (fdof p) = Some p'" by blast
        with heap_law[OF ok] obtain c' where "po_heap q p' = Some c'" by blast
        then show False using None p' unfolding r[symmetric] po_abs_def by simp
      qed
      moreover have "ch_fd c = fdof p" using sim c by (auto simp: sim_def)
      ultimately show ?thesis using c None by (auto simp: usable_def reg_mask_def is_fresh_def)
    next
      case (Some pe)
      then have "r (fdof p) = Some (p, snd pe)" using leg Mask by (auto split: prod.splits)
      with registered obtain c where "po_heap q p = Some c" "po_channels q (fdof p) = Some p"
        "snd pe = ch_events c" by blast
      moreover have "ch_fd c = fdof p" using sim calculation by (auto simp: sim_def)
      ultimately show ?thesis using Some \<open>r (fdof p) = Some (p, snd pe)\<close>
        by (auto simp: usable_def reg_mask_def)
    qed
    then obtain c where c: "po_heap q p = Some c" "usable q p c" "reg_mask r (fdof p) = ch_events c"
      "po_channels q (fdof p) \<in> {None, Some p}" by blast
    have fd: "ch_fd c = fdof p" "0 \<le> ch_fd c" using sim c(1) by (auto simp: sim_def)
    show ?thesis
      unfolding Mask run_req.simps
    proof (rule rpost_mono[OF update_law[OF ok c(1) me c(2) fd(2)]])
      fix q' assume q': "ok q' \<and> po_step q q' p (ch_mask m c) \<and> po_channels q' = (po_channels q)(ch_fd c \<mapsto> p)"
      have "sim fdof (removeAll p fresh) (r(fdof p := map_option (\<lambda>_. (p, ch_events (ch_mask m c))) (Some p))) q'"
        by (rule sim_step[OF sim]) (use q' c fd in \<open>auto simp: ch_mask_def\<close>)
      then show "\<exists>fresh'. sim fdof fresh' (spec_req fdof (Mask m p) r) q' \<and>
          legal fdof fresh' (spec_req fdof (Mask m p) r) rs \<and> po_threadId q' = po_threadId q"
        using leg Mask q' c(3) by (auto simp: ch_mask_def po_step_def)
    qed
  next
    case (Close p)
    obtain ev where "r (fdof p) = Some (p, ev)" using leg Close by (auto split: option.splits)
    with registered obtain c where c: "po_heap q p = Some c" "po_channels q (fdof p) = Some p" by blast
    have fd: "ch_fd c = fdof p" using sim c(1) by (auto simp: sim_def)
    show ?thesis
      unfolding Close
    proof (rule rpost_mono[OF close_law[OF ok c(1) me]])
      show "po_channels q (ch_fd c) = Some p" using c(2) fd by simp
      fix q' assume q': "ok q' \<and> po_step q q' p ((ch_mask DisableAll c)\<lparr>ch_addedToLoop := False\<rparr>)
          \<and> po_channels q' = (po_channels q)(ch_fd c := None)"
      have "sim fdof (removeAll p fresh) (r(fdof p := map_option
          (\<lambda>_. (p, ch_events ((ch_mask DisableAll c)\<lparr>ch_addedToLoop := False\<rparr>))) (None :: ptr option))) q'"
        by (rule sim_step[OF sim, where c = "(ch_mask DisableAll c)\<lparr>ch_addedToLoop := False\<rparr>"
              and x = None]) (use q' c fd in \<open>auto simp: ch_mask_def\<close>)
      then show "\<exists>fresh'. sim fdof fresh' (spec_req fdof (Close p) r) q' \<and>
          legal fdof fresh' (spec_req fdof (Close p) r) rs \<and> po_threadId q' = po_threadId q"
        using leg Close q' by (auto simp: po_step_def)
    qed
  qed
qed

lemma requests_refine:
  assumes "sim fdof fresh r q" and "legal fdof fresh r reqs" and "me = po_threadId q"
  shows "rpost E (\<lambda>q'. ok q' \<and> po_abs q' = fold (spec_req fdof) reqs r
                 \<and> watch q' = reg_watch (fold (spec_req fdof) reqs r))
          (rfold (run_req upd rem me) reqs q)"
  using assms
proof (induction reqs arbitrary: fresh r q)
  case Nil
  then show ?case by (auto simp: sim_def watch_law)
next
  case (Cons req rs)
  show ?case
    unfolding rfold.simps fold_Cons comp_def
  proof (rule rpost_rbind[OF request_refines[OF Cons.prems]])
    fix q' assume "\<exists>fresh'. sim fdof fresh' (spec_req fdof req r) q' \<and>
        legal fdof fresh' (spec_req fdof req r) rs \<and> po_threadId q' = po_threadId q"
    then obtain fresh' where "sim fdof fresh' (spec_req fdof req r) q'"
      "legal fdof fresh' (spec_req fdof req r) rs" "me = po_threadId q'"
      using Cons.prems(3) by auto
    then show "rpost E (\<lambda>q'. ok q' \<and> po_abs q' = fold (spec_req fdof) rs (spec_req fdof req r)
        \<and> watch q' = reg_watch (fold (spec_req fdof) rs (spec_req fdof req r)))
      (rfold (run_req upd rem me) rs q')"
      by (rule Cons.IH)
  qed
qed

end

end
