(* ===== verification/EPollPoller.thy ===== *)
theory EPollPoller
  imports Poller
begin

text \<open>
  The poller over \<open>epoll\<close> (src/zing/net/EPollPoller.h and EPollPoller.cpp). The kernel is a
  parameter: \<open>kctl\<close> is \<open>epoll_ctl\<close> on a kernel state of any type, and what the code relies on
  of it is \<open>epoll_kernel\<close>, stated through the interest list that the kernel keeps.
\<close>

section \<open>The kernel's side\<close>

definition EPOLL_CTL_ADD :: int where "EPOLL_CTL_ADD = 1"
definition EPOLL_CTL_DEL :: int where "EPOLL_CTL_DEL = 2"
definition EPOLL_CTL_MOD :: int where "EPOLL_CTL_MOD = 3"

lemmas ctl_defs = EPOLL_CTL_ADD_def EPOLL_CTL_DEL_def EPOLL_CTL_MOD_def

text \<open>\<open>struct epoll_event\<close>: the events and the pointer that comes back with them.\<close>

type_synonym epoll_event = "32 word \<times> ptr"

text \<open>\<open>kctl op fd event k\<close>: whether the call succeeded, and the kernel state after it.\<close>

type_synonym 'k epoll_ctl = "int \<Rightarrow> int \<Rightarrow> epoll_event \<Rightarrow> 'k \<Rightarrow> bool \<times> 'k"

text \<open>
  epoll_ctl(2): a descriptor not in the interest list can be added and one in the list modified,
  unless memory or the limit on watches runs out; a descriptor in the list can be removed.
\<close>

definition epoll_kernel :: "'k epoll_ctl \<Rightarrow> ('k \<Rightarrow> int \<Rightarrow> epoll_event option) \<Rightarrow> bool" where
  "epoll_kernel kctl interest \<longleftrightarrow> (\<forall>k fd e.
     (interest k fd = None \<longrightarrow>
        (case kctl EPOLL_CTL_ADD fd e k of (succ, k') \<Rightarrow>
           succ \<longrightarrow> interest k' = (interest k)(fd \<mapsto> e)))
     \<and> (interest k fd \<noteq> None \<longrightarrow>
        (case kctl EPOLL_CTL_MOD fd e k of (succ, k') \<Rightarrow>
           succ \<longrightarrow> interest k' = (interest k)(fd \<mapsto> e)))
     \<and> (interest k fd \<noteq> None \<longrightarrow>
        (case kctl EPOLL_CTL_DEL fd e k of (succ, k') \<Rightarrow>
           succ \<and> interest k' = (interest k)(fd := None))))"

section \<open>State and operations\<close>

record 'k epoll_poller = poller +
  ep_kernel :: 'k
  ep_events_size :: nat

definition kInitEventListSize :: nat where "kInitEventListSize = 16"

definition kNew :: int where "kNew = - 1"
definition kAdded :: int where "kAdded = 1"
definition kDeleted :: int where "kDeleted = 2"

lemmas index_defs = kNew_def kAdded_def kDeleted_def

definition new_epoll_poller :: "int \<Rightarrow> (ptr \<Rightarrow> channel option) \<Rightarrow> 'k \<Rightarrow> 'k epoll_poller" where
  "new_epoll_poller threadId heap k =
     \<lparr>po_heap = heap, po_channels = (\<lambda>_. None), po_threadId = threadId,
      ep_kernel = k, ep_events_size = kInitEventListSize\<rparr>"

definition operationToString :: "int \<Rightarrow> string result" where
  "operationToString op =
    (if op = EPOLL_CTL_ADD then Inr ''ADD''
     else if op = EPOLL_CTL_DEL then Inr ''DEL''
     else if op = EPOLL_CTL_MOD then Inr ''MOD''
     else Inl AssertFail)"

text \<open>A failed removal is only logged, any other failure is fatal.\<close>

definition ep_update :: "'k epoll_ctl \<Rightarrow> int \<Rightarrow> ptr \<Rightarrow> 'k epoll_poller \<Rightarrow> 'k epoll_poller result" where
  "ep_update kctl operation p q =
    (case po_heap q p of
       None \<Rightarrow> Inl Undefined
     | Some c \<Rightarrow>
       let (succ, k') = kctl operation (ch_fd c) (ch_events c, p) (ep_kernel q);
           q' = q\<lparr>ep_kernel := k'\<rparr>
       in if succ then Inr q'
          else if operation = EPOLL_CTL_DEL then Inr q'
          else Inl Fatal)"

definition ep_updateChannel ::
  "'k epoll_ctl \<Rightarrow> int \<Rightarrow> ptr \<Rightarrow> 'k epoll_poller \<Rightarrow> 'k epoll_poller result" where
  "ep_updateChannel kctl me p q =
    rbind (po_assertInLoopThread me q) (\<lambda>_.
    case po_heap q p of
      None \<Rightarrow> Inl Undefined
    | Some c \<Rightarrow>
      let index = ch_index c; fd = ch_fd c in
      if index = kNew \<or> index = kDeleted
      then rbind
        (if index = kNew
         then (if po_channels q fd \<noteq> None then Inl AssertFail
               else Inr (q\<lparr>po_channels := (po_channels q)(fd \<mapsto> p)\<rparr>))
         else (if po_channels q fd = None then Inl AssertFail
               else if po_channels q fd \<noteq> Some p then Inl AssertFail
               else Inr q))
        (\<lambda>q1. rbind (set_index p kAdded q1) (ep_update kctl EPOLL_CTL_ADD p))
      else if po_channels q fd = None then Inl AssertFail
      else if po_channels q fd \<noteq> Some p then Inl AssertFail
      else if index \<noteq> kAdded then Inl AssertFail
      else if isNoneEvent c
      then rbind (ep_update kctl EPOLL_CTL_DEL p q) (set_index p kDeleted)
      else ep_update kctl EPOLL_CTL_MOD p q)"

definition ep_removeChannel ::
  "'k epoll_ctl \<Rightarrow> int \<Rightarrow> ptr \<Rightarrow> 'k epoll_poller \<Rightarrow> 'k epoll_poller result" where
  "ep_removeChannel kctl me p q =
    rbind (po_assertInLoopThread me q) (\<lambda>_.
    case po_heap q p of
      None \<Rightarrow> Inl Undefined
    | Some c \<Rightarrow>
      let fd = ch_fd c; index = ch_index c in
      if po_channels q fd = None then Inl AssertFail
      else if po_channels q fd \<noteq> Some p then Inl AssertFail
      else if \<not> isNoneEvent c then Inl AssertFail
      else if \<not> (index = kAdded \<or> index = kDeleted) then Inl AssertFail
      else let q1 = q\<lparr>po_channels := (po_channels q)(fd := None)\<rparr>
           in rbind (if index = kAdded then ep_update kctl EPOLL_CTL_DEL p q1 else Inr q1)
                (set_index p kNew))"

text \<open>
  \<open>EPollPoller::poll\<close>; \<open>now\<close> is what the clock shows after the call, which is the result. The outcome of \<open>epoll_wait\<close> is \<open>Inl errno\<close> or the events it wrote to
  \<open>events_\<close>; the loop of \<open>fillActiveChannels\<close> handles them one by one (its assertions are compiled
  in whatever the build type, as the guard names the macro NDBUG).
\<close>

definition ep_fill_one ::
  "epoll_event \<Rightarrow> ptr list \<times> 'k epoll_poller \<Rightarrow> (ptr list \<times> 'k epoll_poller) result" where
  "ep_fill_one ev s =
    (case s of (activeChannels, q) \<Rightarrow>
     case po_heap q (snd ev) of
       None \<Rightarrow> Inl Undefined
     | Some c \<Rightarrow>
       if po_channels q (ch_fd c) = None then Inl AssertFail
       else if po_channels q (ch_fd c) \<noteq> Some (snd ev) then Inl AssertFail
       else rbind (set_revents (snd ev) (fst ev) q) (\<lambda>q'. Inr (activeChannels @ [snd ev], q')))"

definition ep_fillActiveChannels ::
  "epoll_event list \<Rightarrow> ptr list \<times> 'k epoll_poller \<Rightarrow> (ptr list \<times> 'k epoll_poller) result" where
  "ep_fillActiveChannels evs s =
    (if \<not> length evs \<le> ep_events_size (snd s) then Inl AssertFail
     else rfold ep_fill_one evs s)"

definition ep_poll ::
  "timestamp \<Rightarrow> int + epoll_event list \<Rightarrow> ptr list \<Rightarrow> 'k epoll_poller \<Rightarrow>
   (timestamp \<times> ptr list \<times> 'k epoll_poller) result" where
  "ep_poll now waited activeChannels q =
    (case waited of
       Inl savedErrno \<Rightarrow> Inr (now, activeChannels, q)
     | Inr evs \<Rightarrow>
       if 0 < length evs
       then rbind (ep_fillActiveChannels evs (activeChannels, q)) (\<lambda>(act, q').
              if length evs = ep_events_size q'
              then Inr (now, act, q'\<lparr>ep_events_size := ep_events_size q' * 2\<rparr>)
              else Inr (now, act, q'))
       else Inr (now, activeChannels, q))"

section \<open>The invariant\<close>

text \<open>
  Every registered channel is alive and filed under its descriptor; it is in the kernel's interest
  list with its current mask when its index says so, and else its mask is empty; and the kernel
  watches no other descriptor.
\<close>

definition ep_entry :: "('k \<Rightarrow> int \<Rightarrow> epoll_event option) \<Rightarrow> 'k epoll_poller \<Rightarrow> int \<Rightarrow> ptr \<Rightarrow> channel \<Rightarrow> bool" where
  "ep_entry interest q fd p c \<longleftrightarrow> ch_fd c = fd
     \<and> (ch_index c = kAdded \<and> interest (ep_kernel q) fd = Some (ch_events c, p)
        \<or> ch_index c = kDeleted \<and> interest (ep_kernel q) fd = None \<and> ch_events c = 0)"

definition ep_ok :: "('k \<Rightarrow> int \<Rightarrow> epoll_event option) \<Rightarrow> 'k epoll_poller \<Rightarrow> bool" where
  "ep_ok interest q \<longleftrightarrow>
     (\<forall>fd p. po_channels q fd = Some p \<longrightarrow> (\<exists>c. po_heap q p = Some c \<and> ep_entry interest q fd p c))
     \<and> (\<forall>fd. po_channels q fd = None \<longrightarrow> interest (ep_kernel q) fd = None)"

definition ep_watch :: "('k \<Rightarrow> int \<Rightarrow> epoll_event option) \<Rightarrow> 'k epoll_poller \<Rightarrow> int \<Rightarrow> 32 word option" where
  "ep_watch interest q fd =
    (case interest (ep_kernel q) fd of None \<Rightarrow> None
     | Some (ev, p) \<Rightarrow> if ev = 0 then None else Some ev)"

lemma ep_ok_entry:
  "ep_ok interest q \<Longrightarrow> po_channels q fd = Some p \<Longrightarrow> po_heap q p = Some c \<Longrightarrow> ep_entry interest q fd p c"
  by (force simp: ep_ok_def)

lemma ep_okE:
  assumes "ep_ok interest q" and "po_channels q fd = Some p"
  obtains c where "po_heap q p = Some c" "ep_entry interest q fd p c"
  using assms unfolding ep_ok_def by blast

lemma ep_watch_spec:
  assumes "ep_ok interest q"
  shows "ep_watch interest q fd = reg_watch (po_abs q) fd"
proof (cases "po_channels q fd")
  case None
  then show ?thesis
    using assms by (simp add: ep_watch_def reg_watch_def reg_mask_def po_abs_def ep_ok_def)
next
  case (Some p)
  with assms obtain c where "po_heap q p = Some c" "ep_entry interest q fd p c" by (rule ep_okE)
  then show ?thesis
    using Some by (auto simp: ep_watch_def reg_watch_def reg_mask_def po_abs_def ep_entry_def)
qed

text \<open>
  One channel and the kernel's entry for its descriptor change: what has to be checked for the
  invariant is only that entry.
\<close>

lemma ep_ok_change:
  assumes ok: "ep_ok interest q" and c: "po_heap q p = Some c" and fd: "ch_fd c' = ch_fd c"
    and usable: "po_channels q (ch_fd c) \<in> {None, Some p}"
    and heap: "po_heap q' = (po_heap q)(p \<mapsto> c')"
    and chans: "po_channels q' = (po_channels q)(ch_fd c := x)" and x: "x \<in> {None, Some p}"
    and kernel: "interest (ep_kernel q') = (interest (ep_kernel q))(ch_fd c := e)"
    and entry: "x = Some p \<Longrightarrow> ch_index c' = kAdded \<and> e = Some (ch_events c', p)
                  \<or> ch_index c' = kDeleted \<and> e = None \<and> ch_events c' = 0"
    and none: "x = None \<Longrightarrow> e = None"
  shows "ep_ok interest q'"
  unfolding ep_ok_def
proof (intro conjI allI impI)
  fix fd p' assume p': "po_channels q' fd = Some p'"
  show "\<exists>c. po_heap q' p' = Some c \<and> ep_entry interest q' fd p' c"
  proof (cases "fd = ch_fd c")
    case True
    then have "p' = p" "x = Some p" using p' chans x by auto
    then show ?thesis using True heap kernel entry \<open>ch_fd c' = ch_fd c\<close> by (auto simp: ep_entry_def)
  next
    case False
    then have "po_channels q fd = Some p'" using p' chans by simp
    with ok obtain d where d: "po_heap q p' = Some d" "ep_entry interest q fd p' d" by (rule ep_okE)
    then have "p' \<noteq> p" using False c by (auto simp: ep_entry_def)
    then show ?thesis using d False heap kernel by (auto simp: ep_entry_def)
  qed
next
  fix fd assume "po_channels q' fd = None"
  then show "interest (ep_kernel q') fd = None"
    using ok chans kernel x none by (auto simp: ep_ok_def split: if_splits)
qed

lemma po_step_change:
  assumes "po_heap q' = (po_heap q)(p \<mapsto> c\<lparr>ch_index := i\<rparr>)" "po_threadId q' = po_threadId q"
  shows "po_step q q' p c"
proof -
  have "rel_option same_but_index x x" for x by (cases x) simp_all
  then show ?thesis using assms by (simp add: po_step_def)
qed

section \<open>The operations keep it\<close>

lemma epoll_kernel_at:
  "epoll_kernel kctl interest \<Longrightarrow>
     (interest k fd = None \<longrightarrow>
        (case kctl EPOLL_CTL_ADD fd e k of (succ, k') \<Rightarrow>
           succ \<longrightarrow> interest k' = (interest k)(fd \<mapsto> e)))
     \<and> (interest k fd \<noteq> None \<longrightarrow>
        (case kctl EPOLL_CTL_MOD fd e k of (succ, k') \<Rightarrow>
           succ \<longrightarrow> interest k' = (interest k)(fd \<mapsto> e)))
     \<and> (interest k fd \<noteq> None \<longrightarrow>
        (case kctl EPOLL_CTL_DEL fd e k of (succ, k') \<Rightarrow>
           succ \<and> interest k' = (interest k)(fd := None)))"
  unfolding epoll_kernel_def by (drule spec[of _ k], drule spec[of _ fd], drule spec[of _ e])

lemma kernel_add:
  assumes "epoll_kernel kctl interest" "interest k fd = None" "kctl EPOLL_CTL_ADD fd e k = (True, k')"
  shows "interest k' = (interest k)(fd \<mapsto> e)"
  using epoll_kernel_at[OF assms(1), of k fd e, THEN conjunct1] assms(2,3) by simp

lemma kernel_mod:
  assumes "epoll_kernel kctl interest" "interest k fd = Some e'" "kctl EPOLL_CTL_MOD fd e k = (True, k')"
  shows "interest k' = (interest k)(fd \<mapsto> e)"
  using epoll_kernel_at[OF assms(1), of k fd e, THEN conjunct2, THEN conjunct1] assms(2,3) by simp

lemma kernel_del:
  assumes "epoll_kernel kctl interest" "interest k fd = Some e'" "kctl EPOLL_CTL_DEL fd e k = (succ, k')"
  shows "succ \<and> interest k' = (interest k)(fd := None)"
  using epoll_kernel_at[OF assms(1), of k fd e, THEN conjunct2, THEN conjunct2] assms(2,3) by simp

lemma ep_update_law:
  assumes kernel: "epoll_kernel kctl interest" and ok: "ep_ok interest q"
    and c: "po_heap q p = Some c" and me: "me = po_threadId q" and u: "usable q p c"
  shows "rpost {Fatal} (\<lambda>q'. ep_ok interest q' \<and> po_step q q' p (ch_mask m c)
           \<and> po_channels q' = (po_channels q)(ch_fd c \<mapsto> p))
         (ch_update (ep_updateChannel kctl) me m p q)"
proof -
  let ?c = "ch_mask m c" and ?fd = "ch_fd c"
  let ?q = "po_set p ?c q"
  have same: "ch_fd ?c = ?fd" "ch_index ?c = ch_index c" by (simp_all add: ch_mask_def)
  have run: "ch_update (ep_updateChannel kctl) me m p q = ep_updateChannel kctl me p ?q"
    using c by (simp add: ch_update_def)
  have chans: "po_channels q ?fd \<in> {None, Some p}" using u by (auto simp: usable_def)
  have finish: "ep_ok interest q' \<and> po_step q q' p ?c \<and> po_channels q' = (po_channels q)(?fd \<mapsto> p)"
    if "po_heap q' = (po_heap q)(p \<mapsto> ?c\<lparr>ch_index := i\<rparr>)" "po_threadId q' = po_threadId q"
       "po_channels q' = (po_channels q)(?fd \<mapsto> p)"
       "interest (ep_kernel q') = (interest (ep_kernel q))(?fd := e)"
       "i = kAdded \<and> e = Some (ch_events ?c, p) \<or> i = kDeleted \<and> e = None \<and> ch_events ?c = 0" for q' i e
    using that po_step_change[OF that(1,2)]
    by (auto intro!: ep_ok_change[OF ok c _ chans, where c' = "?c\<lparr>ch_index := i\<rparr>" and e = e and x = "Some p"]
             simp: same)
  have add: "rpost {Fatal} (\<lambda>q'. ep_ok interest q' \<and> po_step q q' p ?c
          \<and> po_channels q' = (po_channels q)(?fd \<mapsto> p))
        (ep_update kctl EPOLL_CTL_ADD p q1)"
    if "interest (ep_kernel q) ?fd = None" and q1: "q1 = po_set p (?c\<lparr>ch_index := kAdded\<rparr>)
           (q\<lparr>po_channels := (po_channels q)(?fd \<mapsto> p)\<rparr>)" for q1
  proof (cases "kctl EPOLL_CTL_ADD ?fd (ch_events ?c, p) (ep_kernel q)")
    case (Pair succ k')
    show ?thesis
    proof (cases "succ")
      case True
      then have "interest k' = (interest (ep_kernel q))(?fd \<mapsto> (ch_events ?c, p))"
        using kernel_add[OF kernel that(1)] Pair by simp
      then have "ep_ok interest (q1\<lparr>ep_kernel := k'\<rparr>) \<and> po_step q (q1\<lparr>ep_kernel := k'\<rparr>) p ?c
          \<and> po_channels (q1\<lparr>ep_kernel := k'\<rparr>) = (po_channels q)(?fd \<mapsto> p)"
        by (intro finish[where i = kAdded and e = "Some (ch_events ?c, p)"]) (simp_all add: q1 po_set_def)
      then show ?thesis using True Pair by (simp add: ep_update_def q1 po_set_def same)
    next
      case False
      then show ?thesis using Pair by (simp add: ep_update_def q1 po_set_def same ctl_defs)
    qed
  qed
  show ?thesis
  proof (cases "po_channels q ?fd")
    case None
    then have new: "ch_index c = kNew" using u by (simp add: usable_def is_fresh_def index_defs)
    have "interest (ep_kernel q) ?fd = None" using ok None by (simp add: ep_ok_def)
    note add = add[OF this refl]
    then show ?thesis
      unfolding run ep_updateChannel_def
      using me new None by (simp add: po_assertInLoopThread_def po_set_def set_index_def same)
  next
    case (Some p')
    then have reg: "po_channels q ?fd = Some p" using chans by simp
    then have upd: "(po_channels q)(?fd \<mapsto> p) = po_channels q" by auto
    have entry: "ep_entry interest q ?fd p c" using ep_ok_entry[OF ok reg c] .
    show ?thesis
    proof (cases "ch_index c = kDeleted")
      case True
      then have "interest (ep_kernel q) ?fd = None"
        using entry by (auto simp: ep_entry_def index_defs)
      note add = add[OF this refl]
      then show ?thesis
        unfolding run ep_updateChannel_def
        using me True reg upd
        by (simp add: po_assertInLoopThread_def po_set_def set_index_def same index_defs)
    next
      case False
      then have added: "ch_index c = kAdded" "interest (ep_kernel q) ?fd = Some (ch_events c, p)"
        using entry by (auto simp: ep_entry_def)
      have idx: "?c\<lparr>ch_index := kAdded\<rparr> = ?c" using added(1) by (simp add: ch_mask_def)
      show ?thesis
      proof (cases "isNoneEvent ?c")
        case True
        obtain dn k' where k': "kctl EPOLL_CTL_DEL ?fd (ch_events ?c, p) (ep_kernel q) = (dn, k')"
          by (cases "kctl EPOLL_CTL_DEL ?fd (ch_events ?c, p) (ep_kernel q)")
        note del = kernel_del[OF kernel added(2) k']
        let ?q' = "po_set p (?c\<lparr>ch_index := kDeleted\<rparr>) (?q\<lparr>ep_kernel := k'\<rparr>)"
        have "ep_ok interest ?q' \<and> po_step q ?q' p ?c \<and> po_channels ?q' = (po_channels q)(?fd \<mapsto> p)"
          by (rule finish[where i = kDeleted and e = None])
             (use del upd True in \<open>simp_all add: po_set_def isNoneEvent_def kNoneEvent_def\<close>)
        then show ?thesis
          unfolding run ep_updateChannel_def
          using me added reg True k' del
          by (simp add: po_assertInLoopThread_def po_set_def same index_defs ep_update_def set_index_def)
      next
        case nz: False
        obtain dn k' where k': "kctl EPOLL_CTL_MOD ?fd (ch_events ?c, p) (ep_kernel q) = (dn, k')"
          by (cases "kctl EPOLL_CTL_MOD ?fd (ch_events ?c, p) (ep_kernel q)")
        have "rpost {Fatal} (\<lambda>q'. ep_ok interest q' \<and> po_step q q' p ?c
          \<and> po_channels q' = (po_channels q)(?fd \<mapsto> p)) (ep_update kctl EPOLL_CTL_MOD p ?q)"
        proof (cases dn)
          case True
          then have "interest k' = (interest (ep_kernel q))(?fd \<mapsto> (ch_events ?c, p))"
            using kernel_mod[OF kernel added(2)] k' by simp
          then have "ep_ok interest (?q\<lparr>ep_kernel := k'\<rparr>) \<and> po_step q (?q\<lparr>ep_kernel := k'\<rparr>) p ?c
              \<and> po_channels (?q\<lparr>ep_kernel := k'\<rparr>) = (po_channels q)(?fd \<mapsto> p)"
            by (intro finish[where i = kAdded and e = "Some (ch_events ?c, p)"])
               (use upd idx in \<open>simp_all add: po_set_def\<close>)
          then show ?thesis using True k' by (simp add: ep_update_def po_set_def same)
        next
          case False
          then show ?thesis using k' by (simp add: ep_update_def po_set_def same ctl_defs)
        qed
        then show ?thesis
          unfolding run ep_updateChannel_def
          using me added reg nz by (simp add: po_assertInLoopThread_def po_set_def same index_defs)
      qed
    qed
  qed
qed

lemma ep_remove_law:
  assumes kernel: "epoll_kernel kctl interest" and ok: "ep_ok interest q"
    and c: "po_heap q p = Some c" and me: "me = po_threadId q"
    and reg: "po_channels q (ch_fd c) = Some p" and ev: "ch_events c = 0"
  shows "rpost {} (\<lambda>q'. ep_ok interest q' \<and> po_step q q' p (c\<lparr>ch_addedToLoop := False\<rparr>)
           \<and> po_channels q' = (po_channels q)(ch_fd c := None))
         (ch_remove (ep_removeChannel kctl) me p q)"
proof -
  let ?c = "c\<lparr>ch_addedToLoop := False\<rparr>" and ?fd = "ch_fd c"
  have entry: "ep_entry interest q ?fd p c" using ep_ok_entry[OF ok reg c] .
  have finish: "ep_ok interest q' \<and> po_step q q' p ?c \<and> po_channels q' = (po_channels q)(?fd := None)"
    if "po_heap q' = (po_heap q)(p \<mapsto> ?c\<lparr>ch_index := kNew\<rparr>)" "po_threadId q' = po_threadId q"
       "po_channels q' = (po_channels q)(?fd := None)"
       "interest (ep_kernel q') = (interest (ep_kernel q))(?fd := None)" for q'
    using that po_step_change[OF that(1,2)] reg
    by (auto intro!: ep_ok_change[OF ok c, where c' = "?c\<lparr>ch_index := kNew\<rparr>" and e = None and x = None])
  show ?thesis
  proof (cases "ch_index c = kAdded")
    case True
    then have "interest (ep_kernel q) ?fd = Some (ch_events c, p)"
      using entry by (auto simp: ep_entry_def index_defs)
    moreover obtain dn k' where k': "kctl EPOLL_CTL_DEL ?fd (ch_events c, p) (ep_kernel q) = (dn, k')"
      by (cases "kctl EPOLL_CTL_DEL ?fd (ch_events c, p) (ep_kernel q)")
    ultimately have del: "dn \<and> interest k' = (interest (ep_kernel q))(?fd := None)"
      using kernel_del[OF kernel] by blast
    let ?q' = "q\<lparr>po_channels := (po_channels q)(?fd := None), ep_kernel := k',
                po_heap := (po_heap q)(p \<mapsto> ?c\<lparr>ch_index := kNew\<rparr>)\<rparr>"
    have "ch_remove (ep_removeChannel kctl) me p q = Inr ?q'"
      using c me reg ev True k' del
      by (simp add: ch_remove_def ep_removeChannel_def po_assertInLoopThread_def po_set_def isNoneEvent_def
          kNoneEvent_def ep_update_def set_index_def)
    then show ?thesis using finish[of ?q'] del by simp
  next
    case False
    then have del: "ch_index c = kDeleted" "interest (ep_kernel q) ?fd = None"
      using entry by (auto simp: ep_entry_def)
    let ?q' = "q\<lparr>po_channels := (po_channels q)(?fd := None),
                po_heap := (po_heap q)(p \<mapsto> ?c\<lparr>ch_index := kNew\<rparr>)\<rparr>"
    have "ch_remove (ep_removeChannel kctl) me p q = Inr ?q'"
      using c me reg ev False del
      by (simp add: ch_remove_def ep_removeChannel_def po_assertInLoopThread_def po_set_def isNoneEvent_def
          kNoneEvent_def set_index_def)
    moreover have "(interest (ep_kernel q))(?fd := None) = interest (ep_kernel q)"
      using del(2) by (simp add: fun_upd_idem)
    ultimately show ?thesis using finish[of ?q'] by simp
  qed
qed

lemma ep_contract:
  assumes kernel: "epoll_kernel kctl interest"
  shows "poller_contract (ep_updateChannel kctl) (ep_removeChannel kctl) (ep_ok interest) {Fatal}
           (ep_watch interest)"
proof
  fix q :: "'a epoll_poller" and p c me m
  assume a: "ep_ok interest q" "po_heap q p = Some c" "me = po_threadId q"
  {
    assume "usable q p c"
    with kernel a show "rpost {Fatal} (\<lambda>q'. ep_ok interest q' \<and> po_step q q' p (ch_mask m c)
        \<and> po_channels q' = (po_channels q)(ch_fd c \<mapsto> p)) (ch_update (ep_updateChannel kctl) me m p q)"
      by (rule ep_update_law)
  }
  assume reg: "po_channels q (ch_fd c) = Some p"
  then have "usable q p c" by (simp add: usable_def)
  with kernel a have "rpost {Fatal} (\<lambda>q'. ep_ok interest q' \<and> po_step q q' p (ch_mask DisableAll c)
        \<and> po_channels q' = (po_channels q)(ch_fd c \<mapsto> p) \<and> True)
      (ch_update (ep_updateChannel kctl) me DisableAll p q)"
    using ep_update_law by fastforce
  then show "rpost {Fatal} (\<lambda>q'. ep_ok interest q' \<and>
        po_step q q' p ((ch_mask DisableAll c)\<lparr>ch_addedToLoop := False\<rparr>) \<and>
        po_channels q' = (po_channels q)(ch_fd c := None))
      (run_req (ep_updateChannel kctl) (ep_removeChannel kctl) me (Close p) q)"
  proof (rule close_from_remove[OF _ _ a(3)])
    fix q1 :: "'a epoll_poller" and c1
    assume "ep_ok interest q1" "po_heap q1 p = Some c1" "po_channels q1 (ch_fd c1) = Some p"
      "ch_events c1 = 0" "me = po_threadId q1"
    then have "rpost {} (\<lambda>q2. ep_ok interest q2 \<and> po_step q1 q2 p (c1\<lparr>ch_addedToLoop := False\<rparr>)
        \<and> po_channels q2 = (po_channels q1)(ch_fd c1 := None)) (ch_remove (ep_removeChannel kctl) me p q1)"
      using ep_remove_law[OF kernel] by blast
    then show "rpost {Fatal} (\<lambda>q2. ep_ok interest q2 \<and> po_step q1 q2 p (c1\<lparr>ch_addedToLoop := False\<rparr>)
        \<and> po_channels q2 = (po_channels q1)(ch_fd c1 := None)) (ch_remove (ep_removeChannel kctl) me p q1)"
      by (auto simp: rpost_total)
  qed
next
  fix q :: "'a epoll_poller" and fd
  assume "ep_ok interest q"
  then show "ep_watch interest q fd = reg_watch (po_abs q) fd" by (rule ep_watch_spec)
next
  fix q :: "'a epoll_poller" and fd p
  assume "ep_ok interest q" "po_channels q fd = Some p"
  then show "\<exists>c. po_heap q p = Some c \<and> ch_fd c = fd"
    by (rule ep_okE) (auto simp: ep_entry_def)
qed

text \<open>Every environment with such a kernel provides the contract.\<close>

locale epoll_env =
  fixes kctl :: "'k epoll_ctl" and interest :: "'k \<Rightarrow> int \<Rightarrow> epoll_event option"
  assumes kernel: "epoll_kernel kctl interest"

sublocale epoll_env < contract: poller_contract "ep_updateChannel kctl" "ep_removeChannel kctl"
    "ep_ok interest" "{Fatal}" "ep_watch interest"
  by (rule ep_contract[OF kernel])

text \<open>A kernel that keeps the interest list as a map and refuses what the manual page says.\<close>

definition map_ctl :: "(int \<Rightarrow> epoll_event option) epoll_ctl" where
  "map_ctl op fd e k =
    (if op = EPOLL_CTL_ADD then (if k fd = None then (True, k(fd \<mapsto> e)) else (False, k))
     else if k fd = None then (False, k)
     else if op = EPOLL_CTL_MOD then (True, k(fd \<mapsto> e))
     else if op = EPOLL_CTL_DEL then (True, k(fd := None))
     else (False, k))"

lemma map_ctl_kernel: "epoll_kernel map_ctl id"
  by (simp add: epoll_kernel_def map_ctl_def ctl_defs)

interpretation map_env: epoll_env map_ctl id
  by unfold_locales (rule map_ctl_kernel)

section \<open>What the poller guarantees\<close>

lemma new_poller_sim:
  assumes "interest k = (\<lambda>_. None)"
    and "\<And>p c. heap p = Some c \<Longrightarrow> is_fresh c \<and> ch_fd c = fdof p \<and> 0 \<le> fdof p"
    and "set fresh \<subseteq> dom heap" and kernel: "epoll_kernel kctl interest"
  shows "poller_contract.sim (ep_ok interest) fdof fresh (\<lambda>_. None) (new_epoll_poller me heap k)"
  unfolding poller_contract.sim_def[OF ep_contract[OF kernel]]
  using assms by (auto simp: new_epoll_poller_def ep_ok_def po_abs_def)


definition two_channels :: "ptr \<Rightarrow> channel option" where
  "two_channels = [10 \<mapsto> new_channel 1 5, 20 \<mapsto> new_channel 1 6]"

definition two_fds :: "ptr \<Rightarrow> int" where
  "two_fds p = (if p = 10 then 5 else 6)"

definition some_reqs :: "chan_req list" where
  "some_reqs = [Mask EnableReading 10, Mask EnableWriting 20, Mask DisableAll 10,
     Mask EnableWriting 10, Close 20]"

lemma two_channels_fresh:
  "two_channels p = Some c \<Longrightarrow> is_fresh c \<and> ch_fd c = two_fds p \<and> 0 \<le> two_fds p"
  by (auto simp: two_channels_def two_fds_def is_fresh_def new_channel_def split: if_splits)

lemma some_reqs_legal: "legal two_fds [10, 20] (\<lambda>_. None) some_reqs"
  by (simp add: some_reqs_def two_fds_def)


lemma ep_fill_ok:
  assumes ok: "ep_ok interest q"
    and evs: "\<forall>p \<in> snd ` set evs. \<exists>fd ev'. interest (ep_kernel q) fd = Some (ev', p)"
  shows "rpost {} (\<lambda>(act, q'). act = acts @ map snd evs
      \<and> (\<forall>p. map_option (\<lambda>c. c\<lparr>ch_revents := 0\<rparr>) (po_heap q' p)
             = map_option (\<lambda>c. c\<lparr>ch_revents := 0\<rparr>) (po_heap q p))
      \<and> po_channels q' = po_channels q \<and> po_threadId q' = po_threadId q
      \<and> ep_kernel q' = ep_kernel q \<and> ep_events_size q' = ep_events_size q
      \<and> (\<forall>(ev, p) \<in> set evs. distinct (map snd evs) \<longrightarrow>
            map_option ch_revents (po_heap q' p) = Some ev)
      \<and> (\<forall>p. p \<notin> snd ` set evs \<longrightarrow> po_heap q' p = po_heap q p))
    (rfold ep_fill_one evs (acts, q))"
  using assms
proof (induction evs arbitrary: acts q)
  case Nil
  then show ?case by simp
next
  case (Cons e evs)
  obtain ev p where e: "e = (ev, p)" by (cases e)
  obtain fd ev' where i: "interest (ep_kernel q) fd = Some (ev', p)"
    using Cons.prems(2) e by auto
  have "po_channels q fd \<noteq> None"
    using Cons.prems(1) i by (auto simp: ep_ok_def)
  then obtain p' where p': "po_channels q fd = Some p'" by blast
  with Cons.prems(1) obtain c where c: "po_heap q p' = Some c" "ep_entry interest q fd p' c"
    by (rule ep_okE)
  then have pp: "p' = p" "ch_fd c = fd" using i by (auto simp: ep_entry_def)
  let ?q = "po_set p (c\<lparr>ch_revents := ev\<rparr>) q"
  have step: "ep_fill_one e (acts, q) = Inr (acts @ [p], ?q)"
    using c pp p' by (simp add: ep_fill_one_def e set_revents_def)
  have ok': "ep_ok interest ?q"
    unfolding ep_ok_def
  proof (intro conjI allI impI)
    fix fd' r assume "po_channels ?q fd' = Some r"
    then have r: "po_channels q fd' = Some r" by (simp add: po_set_def)
    with Cons.prems(1) obtain d where "po_heap q r = Some d" "ep_entry interest q fd' r d"
      by (rule ep_okE)
    then show "\<exists>c. po_heap ?q r = Some c \<and> ep_entry interest ?q fd' r c"
      using c(1) pp(1) by (cases "r = p") (auto simp: po_set_def ep_entry_def)
  next
    fix fd' assume "po_channels ?q fd' = None"
    then show "interest (ep_kernel ?q) fd' = None"
      using Cons.prems(1) by (simp add: po_set_def ep_ok_def)
  qed
  have evs': "\<forall>p \<in> snd ` set evs. \<exists>fd ev'. interest (ep_kernel ?q) fd = Some (ev', p)"
    using Cons.prems(2) by (simp add: po_set_def)
  have z: "map_option (\<lambda>c. c\<lparr>ch_revents := 0\<rparr>) (po_heap ?q r)
      = map_option (\<lambda>c. c\<lparr>ch_revents := 0\<rparr>) (po_heap q r)" for r
    using c(1) pp(1) by (simp add: po_set_def)
  have f: "po_channels ?q = po_channels q" "po_threadId ?q = po_threadId q"
    "ep_kernel ?q = ep_kernel q" "ep_events_size ?q = ep_events_size q"
    "r \<noteq> p \<Longrightarrow> po_heap ?q r = po_heap q r" "po_heap ?q p = Some (c\<lparr>ch_revents := ev\<rparr>)" for r
    by (simp_all add: po_set_def)
  show ?case
    unfolding rfold.simps step rbind_Inr
    by (intro rpost_mono[OF Cons.IH[OF ok' evs']]) (auto simp: e f z image_iff)
qed

text \<open>
  C39. \<open>poll\<close> reports exactly the channels the kernel named, in its order, each with the events the
  kernel gave, after those already in the list; it changes nothing else of any channel, and none
  of its assertions fails as long as the kernel only names watched channels and never more than
  it was given room for. A full buffer is doubled for the next call.
\<close>

theorem epoll_reports_ready:
  assumes ok: "ep_ok interest q"
    and room: "length evs \<le> ep_events_size q"
    and watched: "\<forall>p \<in> snd ` set evs. \<exists>fd ev'. interest (ep_kernel q) fd = Some (ev', p)"
    and once: "distinct (map snd evs)"
  shows "\<exists>q'. ep_poll now (Inr evs) acts q = Inr (now, acts @ map snd evs, q')
      \<and> (\<forall>(ev, p) \<in> set evs. map_option ch_revents (po_heap q' p) = Some ev)
      \<and> (\<forall>p. p \<notin> snd ` set evs \<longrightarrow> po_heap q' p = po_heap q p)
      \<and> po_abs q' = po_abs q \<and> ep_watch interest q' = ep_watch interest q
      \<and> ep_events_size q' = (if evs \<noteq> [] \<and> length evs = ep_events_size q then 2 else 1) * ep_events_size q"
proof (cases "evs = []")
  case True
  then show ?thesis by (simp add: ep_poll_def)
next
  case False
  obtain q' where q': "rfold ep_fill_one evs (acts, q) = Inr (acts @ map snd evs, q')"
    "\<forall>p. map_option (\<lambda>c. c\<lparr>ch_revents := 0\<rparr>) (po_heap q' p)
             = map_option (\<lambda>c. c\<lparr>ch_revents := 0\<rparr>) (po_heap q p)"
    "po_channels q' = po_channels q" "po_threadId q' = po_threadId q"
    "ep_kernel q' = ep_kernel q" "ep_events_size q' = ep_events_size q"
    "\<forall>(ev, p) \<in> set evs. map_option ch_revents (po_heap q' p) = Some ev"
    "\<forall>p. p \<notin> snd ` set evs \<longrightarrow> po_heap q' p = po_heap q p"
    using ep_fill_ok[OF ok watched, of acts] once by (auto simp: rpost_total)
  have abs: "po_abs q'' = po_abs q" "ep_watch interest q'' = ep_watch interest q"
    if "po_heap q'' = po_heap q'" "po_channels q'' = po_channels q'" "ep_kernel q'' = ep_kernel q'" for q''
  proof -
    have "map_option (\<lambda>c. (p, ch_events c)) (po_heap q' p) = map_option (\<lambda>c. (p, ch_events c)) (po_heap q p)" for p
    proof -
      have "map_option (\<lambda>c. c\<lparr>ch_revents := 0\<rparr>) (po_heap q' p)
          = map_option (\<lambda>c. c\<lparr>ch_revents := 0\<rparr>) (po_heap q p)" using q'(2) by blast
      then have "map_option (\<lambda>c. (p, ch_events c)) (map_option (\<lambda>c. c\<lparr>ch_revents := 0\<rparr>) (po_heap q' p))
          = map_option (\<lambda>c. (p, ch_events c)) (map_option (\<lambda>c. c\<lparr>ch_revents := 0\<rparr>) (po_heap q p))"
        by simp
      then show ?thesis by (simp add: option.map_comp comp_def)
    qed
    then show "po_abs q'' = po_abs q"
      using that q'(3) by (auto simp: po_abs_def fun_eq_iff split: option.splits)
    show "ep_watch interest q'' = ep_watch interest q"
      using that q'(5) by (auto simp: ep_watch_def fun_eq_iff)
  qed
  let ?q = "if length evs = ep_events_size q' then q'\<lparr>ep_events_size := ep_events_size q' * 2\<rparr> else q'"
  have "ep_poll now (Inr evs) acts q = Inr (now, acts @ map snd evs, ?q)"
    using False room q'(1) by (simp add: ep_poll_def ep_fillActiveChannels_def)
  moreover have "po_abs ?q = po_abs q" "ep_watch interest ?q = ep_watch interest q"
    by (rule abs; simp)+
  ultimately show ?thesis
    using q' False by (intro exI[of _ ?q]) auto
qed

definition polled_once :: "(int \<Rightarrow> epoll_event option) epoll_poller" where
  "polled_once =
     \<lparr>po_heap = [10 \<mapsto> (new_channel 1 5)\<lparr>ch_events := 3, ch_index := 1\<rparr>],
      po_channels = [5 \<mapsto> 10], po_threadId = 3, ep_kernel = [5 \<mapsto> (3, 10)], ep_events_size = 1\<rparr>"

lemma epoll_reports_ready_witness:
  "\<exists>q'. ep_poll (Timestamp 7) (Inr [(1, 10)]) [] polled_once = Inr (Timestamp 7, [] @ map snd [(1 :: 32 word, 10 :: ptr)], q')
      \<and> (\<forall>(ev, p) \<in> set [(1, 10)]. map_option ch_revents (po_heap q' p) = Some ev)
      \<and> (\<forall>p. p \<notin> snd ` set [(1 :: 32 word, 10)] \<longrightarrow> po_heap q' p = po_heap polled_once p)
      \<and> po_abs q' = po_abs polled_once \<and> ep_watch id q' = ep_watch id polled_once
      \<and> ep_events_size q' = (if [(1 :: 32 word, 10 :: ptr)] \<noteq> [] \<and>
            length [(1 :: 32 word, 10 :: ptr)] = ep_events_size polled_once then 2 else 1)
          * ep_events_size polled_once"
proof (rule epoll_reports_ready)
  show "ep_ok id polled_once"
    by (auto simp: ep_ok_def polled_once_def ep_entry_def new_channel_def index_defs split: if_splits)
qed (auto simp: polled_once_def split: if_splits)

end
