(* ===== verification/PollPoller.thy ===== *)
theory PollPoller
  imports EPollPoller
begin

text \<open>
  The poller over \<open>poll\<close> (src/zing/net/PollPoller.h and PollPoller.cpp): an array of \<open>pollfd\<close>
  entries, of which every registered channel knows its own by index. A channel with an empty mask
  keeps its entry under the number \<open>-fd-1\<close>, which the kernel ignores; a removed entry is replaced
  by the last one. The choice of the poller (DefaultPoller.cpp) is at the end, with the theorem
  that it makes no difference to what is watched.
\<close>

section \<open>State and operations\<close>

record pollfd =
  pfd_fd :: int
  pfd_events :: "16 word"
  pfd_revents :: "16 word"

record poll_poller = poller +
  pp_pollfds :: "pollfd list"

definition new_poll_poller :: "int \<Rightarrow> (ptr \<Rightarrow> channel option) \<Rightarrow> poll_poller" where
  "new_poll_poller threadId heap =
     \<lparr>po_heap = heap, po_channels = (\<lambda>_. None), po_threadId = threadId, pp_pollfds = []\<rparr>"

definition pp_updateChannel :: "int \<Rightarrow> ptr \<Rightarrow> poll_poller \<Rightarrow> poll_poller result" where
  "pp_updateChannel me p q =
    rbind (po_assertInLoopThread me q) (\<lambda>_.
    case po_heap q p of
      None \<Rightarrow> Inl Undefined
    | Some c \<Rightarrow>
      let fd = ch_fd c in
      if ch_index c < 0
      then (if po_channels q fd \<noteq> None then Inl AssertFail
            else let pfd = \<lparr>pfd_fd = fd, pfd_events = ucast (ch_events c), pfd_revents = 0\<rparr>;
                     q1 = q\<lparr>pp_pollfds := pp_pollfds q @ [pfd]\<rparr>;
                     idx = int (length (pp_pollfds q1)) - 1
                 in rbind (set_index p idx q1) (\<lambda>q2.
                      Inr (q2\<lparr>po_channels := (po_channels q2)(fd \<mapsto> p)\<rparr>)))
      else if po_channels q fd = None then Inl AssertFail
      else if po_channels q fd \<noteq> Some p then Inl AssertFail
      else let idx = ch_index c in
        if \<not> (0 \<le> idx \<and> idx < int (length (pp_pollfds q))) then Inl AssertFail
        else let pfd = pp_pollfds q ! nat idx in
          if \<not> (pfd_fd pfd = fd \<or> pfd_fd pfd = - fd - 1) then Inl AssertFail
          else let pfd1 = pfd\<lparr>pfd_fd := fd, pfd_events := ucast (ch_events c), pfd_revents := 0\<rparr>;
                   pfd2 = (if isNoneEvent c then pfd1\<lparr>pfd_fd := - fd - 1\<rparr> else pfd1)
               in Inr (q\<lparr>pp_pollfds := (pp_pollfds q)[nat idx := pfd2]\<rparr>))"

text \<open>\<open>iter_swap\<close> of two elements.\<close>

definition list_swap :: "nat \<Rightarrow> nat \<Rightarrow> 'a list \<Rightarrow> 'a list" where
  "list_swap i j xs = xs[i := xs ! j, j := xs ! i]"

text \<open>
  The comparison of \<open>pfd.events\<close> (a \<open>short\<close>) with \<open>channel->events()\<close> promotes the former. The
  lookup \<open>channels_[channelAtEnd]\<close> makes a null entry when there is none, which is then used.
\<close>

definition pp_removeChannel :: "int \<Rightarrow> ptr \<Rightarrow> poll_poller \<Rightarrow> poll_poller result" where
  "pp_removeChannel me p q =
    rbind (po_assertInLoopThread me q) (\<lambda>_.
    case po_heap q p of
      None \<Rightarrow> Inl Undefined
    | Some c \<Rightarrow>
      let fd = ch_fd c in
      if po_channels q fd = None then Inl AssertFail
      else if po_channels q fd \<noteq> Some p then Inl AssertFail
      else if \<not> isNoneEvent c then Inl AssertFail
      else let idx = ch_index c in
        if \<not> (0 \<le> idx \<and> idx < int (length (pp_pollfds q))) then Inl AssertFail
        else let pfd = pp_pollfds q ! nat idx in
          if \<not> (pfd_fd pfd = - fd - 1 \<and> scast (pfd_events pfd) = ch_events c) then Inl AssertFail
          else let q1 = q\<lparr>po_channels := (po_channels q)(fd := None)\<rparr>;
                   n = length (pp_pollfds q) in
            if nat idx = n - 1 then Inr (q1\<lparr>pp_pollfds := butlast (pp_pollfds q)\<rparr>)
            else let channelAtEnd = pfd_fd (last (pp_pollfds q));
                     q2 = q1\<lparr>pp_pollfds := list_swap (nat idx) (n - 1) (pp_pollfds q)\<rparr>;
                     channelAtEnd = (if channelAtEnd < 0 then - channelAtEnd - 1 else channelAtEnd)
                 in case po_channels q2 channelAtEnd of
                      None \<Rightarrow> Inl Undefined
                    | Some r \<Rightarrow> rbind (set_index r idx q2) (\<lambda>q3.
                        Inr (q3\<lparr>pp_pollfds := butlast (pp_pollfds q3)\<rparr>)))"

text \<open>
  \<open>PollPoller::poll\<close>; \<open>now\<close> is what the clock shows after the call, which is the result. The outcome of the system call is \<open>Inl errno\<close>, or the number of ready
  entries and the \<open>revents\<close> it wrote. The scan stops once that many were seen.
\<close>

fun pp_fill :: "int \<Rightarrow> pollfd list \<Rightarrow> ptr list \<times> poll_poller \<Rightarrow> (ptr list \<times> poll_poller) result" where
  "pp_fill numEvents [] s = Inr s"
| "pp_fill numEvents (pfd # pfds) (activeChannels, q) =
    (if \<not> 0 < numEvents then Inr (activeChannels, q)
     else if 0 < sint (pfd_revents pfd)
     then (case po_channels q (pfd_fd pfd) of
             None \<Rightarrow> Inl AssertFail
           | Some p \<Rightarrow>
             (case po_heap q p of
                None \<Rightarrow> Inl Undefined
              | Some c \<Rightarrow>
                if ch_fd c \<noteq> pfd_fd pfd then Inl AssertFail
                else rbind (set_revents p (scast (pfd_revents pfd)) q) (\<lambda>q'.
                       pp_fill (numEvents - 1) pfds (activeChannels @ [p], q'))))
     else pp_fill numEvents pfds (activeChannels, q))"

definition pp_poll ::
  "timestamp \<Rightarrow> int + int \<times> 16 word list \<Rightarrow> ptr list \<Rightarrow> poll_poller \<Rightarrow>
   (timestamp \<times> ptr list \<times> poll_poller) result" where
  "pp_poll now waited activeChannels q =
    (case waited of
       Inl savedErrno \<Rightarrow> Inr (now, activeChannels, q)
     | Inr (numEvents, revents) \<Rightarrow>
       let q1 = q\<lparr>pp_pollfds := map2 (\<lambda>pfd r. pfd\<lparr>pfd_revents := r\<rparr>) (pp_pollfds q) revents\<rparr>
       in if 0 < numEvents then rbind (pp_fill numEvents (pp_pollfds q1) (activeChannels, q1)) (\<lambda>(act, q2). Inr (now, act, q2))
          else Inr (now, activeChannels, q1))"

section \<open>The invariant\<close>

text \<open>The descriptor that an entry belongs to.\<close>

definition pfd_owner :: "pollfd \<Rightarrow> int" where
  "pfd_owner pfd = (if pfd_fd pfd < 0 then - pfd_fd pfd - 1 else pfd_fd pfd)"

text \<open>The masks that the five mask operations can produce.\<close>

definition known_mask :: "32 word \<Rightarrow> bool" where
  "known_mask ev \<longleftrightarrow> ev \<in> {0, 3, 4, 7}"

lemma known_mask_mask [simp]: "known_mask ev \<Longrightarrow> known_mask (mask_events m ev)"
  by (cases m) (auto simp: known_mask_def event_defs)

lemma known_mask_0 [simp]: "known_mask 0"
  by (simp add: known_mask_def)

lemma known_mask_short:
  "known_mask ev \<Longrightarrow> scast (ucast ev :: 16 word) = ev" "known_mask ev \<Longrightarrow> ucast (ucast ev :: 16 word) = ev"
  by (auto simp: known_mask_def)

text \<open>
  Every registered channel owns the entry at its index, with its mask, hidden from the kernel only
  if the mask is empty; and every entry belongs to a registered channel that knows its place.
\<close>

definition pp_entry :: "poll_poller \<Rightarrow> int \<Rightarrow> channel \<Rightarrow> bool" where
  "pp_entry q fd c \<longleftrightarrow> ch_fd c = fd \<and> 0 \<le> fd \<and> known_mask (ch_events c)
     \<and> 0 \<le> ch_index c \<and> ch_index c < int (length (pp_pollfds q))
     \<and> pfd_events (pp_pollfds q ! nat (ch_index c)) = ucast (ch_events c)
     \<and> (pfd_fd (pp_pollfds q ! nat (ch_index c)) = fd
        \<or> pfd_fd (pp_pollfds q ! nat (ch_index c)) = - fd - 1 \<and> ch_events c = 0)"

definition pp_ok :: "poll_poller \<Rightarrow> bool" where
  "pp_ok q \<longleftrightarrow>
     (\<forall>fd p. po_channels q fd = Some p \<longrightarrow> (\<exists>c. po_heap q p = Some c \<and> pp_entry q fd c))
     \<and> (\<forall>i < length (pp_pollfds q). \<exists>p c. po_channels q (pfd_owner (pp_pollfds q ! i)) = Some p
          \<and> po_heap q p = Some c \<and> ch_index c = int i)"

text \<open>What the kernel is asked to watch: entries with a negative number are ignored.\<close>

definition pp_watch :: "poll_poller \<Rightarrow> int \<Rightarrow> 32 word option" where
  "pp_watch q fd =
    map_option (\<lambda>pfd. ucast (pfd_events pfd))
      (find (\<lambda>pfd. pfd_fd pfd = fd \<and> 0 \<le> fd \<and> pfd_events pfd \<noteq> 0) (pp_pollfds q))"

lemma pp_okE:
  assumes "pp_ok q" and "po_channels q fd = Some p"
  obtains c where "po_heap q p = Some c" "pp_entry q fd c"
  using assms unfolding pp_ok_def by blast

lemma pp_ok_slot:
  assumes "pp_ok q" and "i < length (pp_pollfds q)"
  obtains p c where "po_channels q (pfd_owner (pp_pollfds q ! i)) = Some p" "po_heap q p = Some c"
    "ch_index c = int i" "pp_entry q (pfd_owner (pp_pollfds q ! i)) c"
proof -
  obtain p c where pc: "po_channels q (pfd_owner (pp_pollfds q ! i)) = Some p" "po_heap q p = Some c"
    "ch_index c = int i"
    using assms unfolding pp_ok_def by blast
  moreover obtain c' where "po_heap q p = Some c'" "pp_entry q (pfd_owner (pp_pollfds q ! i)) c'"
    using assms(1) pc(1) by (rule pp_okE)
  ultimately show ?thesis using that by simp
qed

lemma pp_watch_spec:
  assumes ok: "pp_ok q"
  shows "pp_watch q fd = reg_watch (po_abs q) fd"
proof -
  let ?P = "\<lambda>pfd. pfd_fd pfd = fd \<and> 0 \<le> fd \<and> pfd_events pfd \<noteq> 0"
  show ?thesis
  proof (cases "find ?P (pp_pollfds q)")
    case None
    have "reg_mask (po_abs q) fd = 0"
    proof (cases "po_channels q fd")
      case None
      then show ?thesis by (simp add: reg_mask_def po_abs_def)
    next
      case (Some p)
      with ok obtain c where c: "po_heap q p = Some c" "pp_entry q fd c" by (rule pp_okE)
      let ?pfd = "pp_pollfds q ! nat (ch_index c)"
      have "?pfd \<in> set (pp_pollfds q)" using c(2) by (auto simp: pp_entry_def)
      then have "\<not> ?P ?pfd" using \<open>find ?P _ = None\<close> by (auto simp: find_None_iff)
      then have "ch_events c = 0"
        using c(2) known_mask_short(2)[of "ch_events c"] by (auto simp: pp_entry_def)
      then show ?thesis using Some c(1) by (simp add: reg_mask_def po_abs_def)
    qed
    then show ?thesis using None by (simp add: pp_watch_def reg_watch_def)
  next
    case (Some pfd)
    then obtain i where i: "i < length (pp_pollfds q)" "pp_pollfds q ! i = pfd" "?P pfd"
      by (auto simp: find_Some_iff)
    obtain p c where c: "po_channels q (pfd_owner (pp_pollfds q ! i)) = Some p" "po_heap q p = Some c"
      "ch_index c = int i" "pp_entry q (pfd_owner (pp_pollfds q ! i)) c"
      using ok i(1) by (rule pp_ok_slot)
    have "pfd_owner pfd = fd" using i(3) by (auto simp: pfd_owner_def)
    moreover have "ucast (pfd_events pfd) = ch_events c" "ch_events c \<noteq> 0"
      using c(3,4) i known_mask_short(2)[of "ch_events c"] by (auto simp: pp_entry_def)
    ultimately show ?thesis
      using Some c i(2) by (simp add: pp_watch_def reg_watch_def reg_mask_def po_abs_def)
  qed
qed

lemma pp_entry_cong:
  "pp_entry q fd c \<Longrightarrow> length (pp_pollfds q) \<le> length (pp_pollfds q') \<Longrightarrow>
   pp_pollfds q' ! nat (ch_index c) = pp_pollfds q ! nat (ch_index c) \<Longrightarrow> pp_entry q' fd c"
  by (simp add: pp_entry_def)

lemma pp_entryD:
  assumes "pp_entry q fd c"
  shows "ch_fd c = fd" "0 \<le> fd" "known_mask (ch_events c)" "0 \<le> ch_index c"
    "nat (ch_index c) < length (pp_pollfds q)" "ch_index c < int (length (pp_pollfds q))"
    "pfd_owner (pp_pollfds q ! nat (ch_index c)) = fd"
    "scast (pfd_events (pp_pollfds q ! nat (ch_index c))) = ch_events c"
  using assms known_mask_short(1)[of "ch_events c"] by (auto simp: pp_entry_def pfd_owner_def)

text \<open>Two registered channels never share an entry.\<close>

lemma pp_index_inj:
  assumes "pp_entry q fd c" "pp_entry q fd' c'" "fd \<noteq> fd'"
  shows "nat (ch_index c') \<noteq> nat (ch_index c)"
  using pp_entryD(7)[OF assms(1)] pp_entryD(7)[OF assms(2)] assms(3) by auto

section \<open>Updating\<close>

lemma pp_update_new:
  assumes ok: "pp_ok q" and c: "po_heap q p = Some c" and free: "po_channels q (ch_fd c) = None"
    and fd: "0 \<le> ch_fd c" and ev: "known_mask (ch_events c')" and c': "ch_fd c' = ch_fd c"
    and i: "ch_index c' = int (length (pp_pollfds q))"
    and q': "po_heap q' = (po_heap q)(p \<mapsto> c')" "po_channels q' = (po_channels q)(ch_fd c \<mapsto> p)"
      "pp_pollfds q' = pp_pollfds q @ [\<lparr>pfd_fd = ch_fd c, pfd_events = ucast (ch_events c'), pfd_revents = 0\<rparr>]"
  shows "pp_ok q'"
  unfolding pp_ok_def
proof (intro conjI allI impI)
  fix fd' p' assume reg: "po_channels q' fd' = Some p'"
  show "\<exists>c. po_heap q' p' = Some c \<and> pp_entry q' fd' c"
  proof (cases "fd' = ch_fd c")
    case True
    then have "p' = p" using reg q'(2) by simp
    then show ?thesis using True q' c' i ev fd by (simp add: pp_entry_def nth_append)
  next
    case False
    then have "po_channels q fd' = Some p'" using reg q'(2) by simp
    with ok obtain d where d: "po_heap q p' = Some d" "pp_entry q fd' d" by (rule pp_okE)
    then have "p' \<noteq> p" using False c pp_entryD(1) by fastforce
    moreover have "pp_entry q' fd' d"
      using d(2) by (rule pp_entry_cong) (use pp_entryD(5)[OF d(2)] q'(3) in \<open>simp_all add: nth_append\<close>)
    ultimately show ?thesis using d q'(1) by simp
  qed
next
  fix k assume k: "k < length (pp_pollfds q')"
  show "\<exists>p c. po_channels q' (pfd_owner (pp_pollfds q' ! k)) = Some p \<and> po_heap q' p = Some c \<and> ch_index c = int k"
  proof (cases "k = length (pp_pollfds q)")
    case True
    then show ?thesis using q' i fd by (simp add: pfd_owner_def)
  next
    case False
    then have k': "k < length (pp_pollfds q)" using k q'(3) by simp
    obtain r d where d: "po_channels q (pfd_owner (pp_pollfds q ! k)) = Some r" "po_heap q r = Some d"
      "ch_index d = int k" "pp_entry q (pfd_owner (pp_pollfds q ! k)) d"
      using ok k' by (rule pp_ok_slot)
    then have "pfd_owner (pp_pollfds q ! k) \<noteq> ch_fd c" using free by auto
    moreover from this have "r \<noteq> p" using d c pp_entryD(1)[OF d(4)] by auto
    ultimately show ?thesis using d q' k' by (simp add: nth_append)
  qed
qed

lemma pp_update_old:
  assumes ok: "pp_ok q" and c: "po_heap q p = Some c" and reg: "po_channels q (ch_fd c) = Some p"
    and ev: "known_mask (ch_events c')" and c': "ch_fd c' = ch_fd c" "ch_index c' = ch_index c"
    and pfd: "pfd_events pfd = ucast (ch_events c')"
      "pfd_fd pfd = (if ch_events c' = 0 then - ch_fd c - 1 else ch_fd c)"
    and q': "po_heap q' = (po_heap q)(p \<mapsto> c')" "po_channels q' = po_channels q"
      "pp_pollfds q' = (pp_pollfds q)[nat (ch_index c) := pfd]"
  shows "pp_ok q'"
proof -
  have entry: "pp_entry q (ch_fd c) c" using ok reg c by (metis pp_okE option.inject)
  note e = pp_entryD[OF entry]
  have owner: "pfd_owner pfd = ch_fd c" using e(2) pfd(2) by (simp add: pfd_owner_def)
  show ?thesis
    unfolding pp_ok_def
  proof (intro conjI allI impI)
    fix fd' p' assume "po_channels q' fd' = Some p'"
    then have reg': "po_channels q fd' = Some p'" using q'(2) by simp
    with ok obtain d where d: "po_heap q p' = Some d" "pp_entry q fd' d" by (rule pp_okE)
    show "\<exists>c. po_heap q' p' = Some c \<and> pp_entry q' fd' c"
    proof (cases "fd' = ch_fd c")
      case True
      then show ?thesis using reg reg' q' c' ev pfd e by (auto simp: pp_entry_def)
    next
      case False
      then have "p' \<noteq> p" using d c pp_entryD(1)[OF d(2)] by auto
      moreover have "pp_entry q' fd' d"
        using d(2) by (rule pp_entry_cong) (use pp_index_inj[OF entry d(2)] False q'(3) in simp_all)
      ultimately show ?thesis using d q'(1) by simp
    qed
  next
    fix k assume "k < length (pp_pollfds q')"
    then have k: "k < length (pp_pollfds q)" using q'(3) by simp
    obtain r d where d: "po_channels q (pfd_owner (pp_pollfds q ! k)) = Some r" "po_heap q r = Some d"
      "ch_index d = int k" "pp_entry q (pfd_owner (pp_pollfds q ! k)) d"
      using ok k by (rule pp_ok_slot)
    show "\<exists>p c. po_channels q' (pfd_owner (pp_pollfds q' ! k)) = Some p \<and> po_heap q' p = Some c
        \<and> ch_index c = int k"
    proof (cases "k = nat (ch_index c)")
      case True
      then show ?thesis using q' k owner reg c' e by simp
    next
      case False
      then have "r \<noteq> p" using d c by auto
      then show ?thesis using d q' False by simp
    qed
  qed
qed

text \<open>After an update with an empty mask a registered channel's entry is hidden.\<close>

definition pp_hidden :: "ptr \<Rightarrow> poll_poller \<Rightarrow> bool" where
  "pp_hidden p q \<longleftrightarrow> (\<forall>c. po_heap q p = Some c \<longrightarrow> ch_events c = 0 \<longrightarrow>
     pfd_fd (pp_pollfds q ! nat (ch_index c)) = - ch_fd c - 1)"

lemma pp_update_law:
  assumes ok: "pp_ok q" and c: "po_heap q p = Some c" and me: "me = po_threadId q"
    and u: "usable q p c" and fd: "0 \<le> ch_fd c"
  shows "rpost {} (\<lambda>q'. pp_ok q' \<and> po_step q q' p (ch_mask m c)
           \<and> po_channels q' = (po_channels q)(ch_fd c \<mapsto> p)
           \<and> (po_channels q (ch_fd c) = Some p \<longrightarrow> pp_hidden p q'))
         (ch_update pp_updateChannel me m p q)"
proof -
  let ?c = "ch_mask m c" and ?fd = "ch_fd c"
  let ?q = "po_set p ?c q"
  have same: "ch_fd ?c = ?fd" "ch_index ?c = ch_index c" by (simp_all add: ch_mask_def)
  have run: "ch_update pp_updateChannel me m p q = pp_updateChannel me p ?q"
    using c by (simp add: ch_update_def)
  show ?thesis
  proof (cases "po_channels q ?fd")
    case None
    then have fresh: "is_fresh c" using u by (simp add: usable_def)
    then have neg: "ch_index c < 0" and ev: "known_mask (ch_events ?c)"
      by (simp_all add: is_fresh_def ch_mask_def)
    let ?n = "int (length (pp_pollfds q))"
    let ?q' = "q\<lparr>po_heap := (po_heap q)(p \<mapsto> ?c\<lparr>ch_index := ?n\<rparr>),
        po_channels := (po_channels q)(?fd \<mapsto> p),
        pp_pollfds := pp_pollfds q @ [\<lparr>pfd_fd = ?fd, pfd_events = ucast (ch_events ?c), pfd_revents = 0\<rparr>]\<rparr>"
    have "pp_updateChannel me p ?q = Inr ?q'"
      using me None neg
      by (simp add: pp_updateChannel_def po_assertInLoopThread_def po_set_def set_index_def same Let_def)
    moreover have "pp_ok ?q'"
      by (rule pp_update_new[OF ok c None fd, where c' = "?c\<lparr>ch_index := ?n\<rparr>"]) (use ev same in simp_all)
    moreover have "po_step q ?q' p ?c" by (rule po_step_change[where i = ?n]) simp_all
    ultimately show ?thesis using None unfolding run by simp
  next
    case (Some p')
    then have reg: "po_channels q ?fd = Some p" using u by (simp add: usable_def)
    obtain c0 where "po_heap q p = Some c0" "pp_entry q ?fd c0" using ok reg by (rule pp_okE)
    then have entry: "pp_entry q ?fd c" using c by simp
    note e = pp_entryD[OF entry]
    have ev: "known_mask (ch_events ?c)" using e(3) by (simp add: ch_mask_def)
    have slot: "pfd_fd (pp_pollfds q ! nat (ch_index c)) = ?fd
        \<or> pfd_fd (pp_pollfds q ! nat (ch_index c)) = - ?fd - 1"
      using entry by (auto simp: pp_entry_def)
    define pfd1 where "pfd1 = (pp_pollfds q ! nat (ch_index c))
        \<lparr>pfd_fd := ?fd, pfd_events := ucast (ch_events ?c), pfd_revents := 0\<rparr>"
    define pfd where "pfd = (if isNoneEvent ?c then pfd1\<lparr>pfd_fd := - ?fd - 1\<rparr> else pfd1)"
    have pf: "pfd_events pfd = ucast (ch_events ?c)"
      "pfd_fd pfd = (if ch_events ?c = 0 then - ?fd - 1 else ?fd)"
      by (simp_all add: pfd_def pfd1_def isNoneEvent_def kNoneEvent_def)
    let ?q' = "?q\<lparr>pp_pollfds := (pp_pollfds q)[nat (ch_index c) := pfd]\<rparr>"
    have r: "pp_updateChannel me p ?q = Inr ?q'"
      using me reg e(4,6) slot
      by (simp add: pp_updateChannel_def po_assertInLoopThread_def po_set_def same Let_def
          pfd_def[unfolded pfd1_def])
    have ok': "pp_ok ?q'"
      by (rule pp_update_old[OF ok c reg ev, where pfd = pfd]) (simp_all add: pf same po_set_def)
    have "?c\<lparr>ch_index := ch_index c\<rparr> = ?c" by (simp add: ch_mask_def)
    then have "po_step q ?q' p ?c" by (intro po_step_change[where i = "ch_index c"]) (simp_all add: po_set_def)
    moreover have "pp_hidden p ?q'" using e(5) by (simp add: pp_hidden_def po_set_def same pf)
    moreover have "po_channels ?q' = (po_channels q)(?fd \<mapsto> p)" using reg by (auto simp: po_set_def)
    ultimately show ?thesis using r ok' unfolding run by simp
  qed
qed

section \<open>Removing\<close>

lemma butlast_list_swap:
  assumes "i < length xs - 1"
  shows "butlast (list_swap i (length xs - 1) xs) = (butlast xs)[i := last xs]"
proof -
  have "xs \<noteq> []" using assms by auto
  then obtain ys y where xs: "xs = ys @ [y]" by (metis rev_exhaust)
  then have "i < length ys" using assms by simp
  then show ?thesis
    by (simp add: xs list_swap_def list_update_append nth_append butlast_append)
qed

lemma pp_remove_last:
  assumes ok: "pp_ok q" and c: "po_heap q p = Some c" and reg: "po_channels q (ch_fd c) = Some p"
    and i: "nat (ch_index c) = length (pp_pollfds q) - 1"
    and q': "po_heap q' = (po_heap q)(p \<mapsto> c')" "po_channels q' = (po_channels q)(ch_fd c := None)"
      "pp_pollfds q' = butlast (pp_pollfds q)"
  shows "pp_ok q'"
proof -
  have entry: "pp_entry q (ch_fd c) c" using ok reg c by (metis pp_okE option.inject)
  note e = pp_entryD[OF entry]
  have in_q: "pp_pollfds q' ! k = pp_pollfds q ! k" if "k < length (pp_pollfds q) - 1" for k
    using that q'(3) by (simp add: nth_butlast)
  show ?thesis
    unfolding pp_ok_def
  proof (intro conjI allI impI)
    fix fd' p' assume "po_channels q' fd' = Some p'"
    then have f: "fd' \<noteq> ch_fd c" "po_channels q fd' = Some p'" using q'(2) by (auto split: if_splits)
    obtain d where d: "po_heap q p' = Some d" "pp_entry q fd' d" using ok f(2) by (rule pp_okE)
    have "p' \<noteq> p" using d c f(1) pp_entryD(1)[OF d(2)] by auto
    moreover have "nat (ch_index d) < length (pp_pollfds q) - 1"
      using pp_index_inj[OF entry d(2)] f(1) pp_entryD(5)[OF d(2)] i by auto
    then have "pp_entry q' fd' d" using d(2) in_q q'(3) by (auto simp: pp_entry_def)
    ultimately show "\<exists>c. po_heap q' p' = Some c \<and> pp_entry q' fd' c" using d q'(1) by simp
  next
    fix k assume "k < length (pp_pollfds q')"
    then have k: "k < length (pp_pollfds q) - 1" using q'(3) by simp
    then have k': "k < length (pp_pollfds q)" by simp
    obtain r d where d: "po_channels q (pfd_owner (pp_pollfds q ! k)) = Some r" "po_heap q r = Some d"
      "ch_index d = int k" "pp_entry q (pfd_owner (pp_pollfds q ! k)) d"
      using ok k' by (rule pp_ok_slot)
    have "r \<noteq> p" using d(2,3) c i k by auto
    moreover from this have "pfd_owner (pp_pollfds q ! k) \<noteq> ch_fd c" using d(1) reg by auto
    ultimately show "\<exists>p c. po_channels q' (pfd_owner (pp_pollfds q' ! k)) = Some p
        \<and> po_heap q' p = Some c \<and> ch_index c = int k"
      using d q' in_q[OF k] by simp
  qed
qed

lemma pp_remove_mid:
  assumes ok: "pp_ok q" and c: "po_heap q p = Some c" and reg: "po_channels q (ch_fd c) = Some p"
    and i: "nat (ch_index c) < length (pp_pollfds q) - 1"
    and r: "po_channels q (pfd_owner (last (pp_pollfds q))) = Some r" "po_heap q r = Some d" "r \<noteq> p"
    and q': "po_heap q' = (po_heap q)(p \<mapsto> c', r \<mapsto> d\<lparr>ch_index := ch_index c\<rparr>)"
      "po_channels q' = (po_channels q)(ch_fd c := None)"
      "pp_pollfds q' = (butlast (pp_pollfds q))[nat (ch_index c) := last (pp_pollfds q)]"
  shows "pp_ok q'"
proof -
  let ?n = "length (pp_pollfds q)" and ?i = "nat (ch_index c)"
  have entry: "pp_entry q (ch_fd c) c" using ok reg c by (metis pp_okE option.inject)
  note e = pp_entryD[OF entry]
  have last: "last (pp_pollfds q) = pp_pollfds q ! (?n - 1)"
    using i by (intro last_conv_nth) auto
  have "?n - 1 < ?n" using i by simp
  with ok obtain r' d' where "po_channels q (pfd_owner (pp_pollfds q ! (?n - 1))) = Some r'"
    "po_heap q r' = Some d'" "ch_index d' = int (?n - 1)" "pp_entry q (pfd_owner (pp_pollfds q ! (?n - 1))) d'"
    by (rule pp_ok_slot)
  then have d: "ch_index d = int (?n - 1)" "pp_entry q (pfd_owner (last (pp_pollfds q))) d"
    using r last by auto
  have nd: "nat (ch_index d) = ?n - 1" using d(1) by simp
  have ic: "ch_index c < int (?n - 1)" using i e(4) nat_less_iff by blast
  have owner: "pfd_owner (last (pp_pollfds q)) \<noteq> ch_fd c" using r reg by auto
  have in_q: "pp_pollfds q' ! k = pp_pollfds q ! k" if "k < ?n - 1" "k \<noteq> ?i" for k
    using that q'(3) by (simp add: nth_butlast)
  have at_i: "pp_pollfds q' ! ?i = last (pp_pollfds q)" using i q'(3) by simp
  have len: "length (pp_pollfds q') = ?n - 1" using q'(3) by simp
  show ?thesis
    unfolding pp_ok_def
  proof (intro conjI allI impI)
    fix fd' p' assume "po_channels q' fd' = Some p'"
    then have f: "fd' \<noteq> ch_fd c" "po_channels q fd' = Some p'" using q'(2) by (auto split: if_splits)
    obtain b where b: "po_heap q p' = Some b" "pp_entry q fd' b" using ok f(2) by (rule pp_okE)
    show "\<exists>c. po_heap q' p' = Some c \<and> pp_entry q' fd' c"
    proof (cases "p' = r")
      case True
      then have "b = d" using b(1) r(2) by simp
      then have "pp_entry q fd' d" using b(2) by simp
      then have "pp_entry q' fd' (d\<lparr>ch_index := ch_index c\<rparr>)"
        unfolding pp_entry_def nd using at_i len ic e(4) by (simp add: last)
      then show ?thesis using True q'(1) by simp
    next
      case False
      have "p' \<noteq> p" using b c f(1) pp_entryD(1)[OF b(2)] by auto
      have "fd' \<noteq> pfd_owner (last (pp_pollfds q))" using False f(2) r(1) by auto
      then have "nat (ch_index b) \<noteq> ?n - 1" using pp_index_inj[OF d(2) b(2)] d(1) by simp
      then have "nat (ch_index b) < ?n - 1" "nat (ch_index b) \<noteq> ?i"
        using pp_entryD(5)[OF b(2)] pp_index_inj[OF entry b(2)] f(1) by auto
      then have "pp_entry q' fd' b" using b(2) in_q len by (auto simp: pp_entry_def)
      then show ?thesis using b(1) q'(1) False \<open>p' \<noteq> p\<close> by simp
    qed
  next
    fix k assume "k < length (pp_pollfds q')"
    then have k: "k < ?n - 1" using len by simp
    then have k': "k < ?n" by simp
    show "\<exists>p c. po_channels q' (pfd_owner (pp_pollfds q' ! k)) = Some p \<and> po_heap q' p = Some c
        \<and> ch_index c = int k"
    proof (cases "k = ?i")
      case True
      then show ?thesis using at_i r(1) owner q' e(4) by simp
    next
      case False
      obtain s b where b: "po_channels q (pfd_owner (pp_pollfds q ! k)) = Some s" "po_heap q s = Some b"
        "ch_index b = int k" using ok k' by (rule pp_ok_slot)
      have "s \<noteq> p" "s \<noteq> r" using b(2,3) c False r(2) d(1) k by auto
      moreover from this have "pfd_owner (pp_pollfds q ! k) \<noteq> ch_fd c" using b(1) reg by auto
      ultimately show ?thesis using b q' in_q[OF k False] by simp
    qed
  qed
qed

lemma pp_remove_law:
  assumes ok: "pp_ok q" and c: "po_heap q p = Some c" and me: "me = po_threadId q"
    and reg: "po_channels q (ch_fd c) = Some p" and ev: "ch_events c = 0" and hid: "pp_hidden p q"
  shows "rpost {} (\<lambda>q'. (pp_ok q' \<and> po_step q q' p (c\<lparr>ch_addedToLoop := False\<rparr>)
           \<and> po_channels q' = (po_channels q)(ch_fd c := None))
           \<and> po_heap q' p = Some (c\<lparr>ch_addedToLoop := False\<rparr>))
         (ch_remove pp_removeChannel me p q)"
proof -
  let ?c = "c\<lparr>ch_addedToLoop := False\<rparr>" and ?fd = "ch_fd c" and ?n = "length (pp_pollfds q)"
  let ?i = "nat (ch_index c)"
  have entry: "pp_entry q ?fd c" using ok reg c by (metis pp_okE option.inject)
  note e = pp_entryD[OF entry]
  have slot: "pfd_fd (pp_pollfds q ! ?i) = - ?fd - 1" using hid c ev by (simp add: pp_hidden_def)
  have rel: "rel_option same_but_index x x" for x by (cases x) simp_all
  show ?thesis
  proof (cases "?i = ?n - 1")
    case True
    let ?q' = "q\<lparr>po_heap := (po_heap q)(p \<mapsto> ?c), po_channels := (po_channels q)(?fd := None),
        pp_pollfds := butlast (pp_pollfds q)\<rparr>"
    have "ch_remove pp_removeChannel me p q = Inr ?q'"
      using c me reg ev e(4,6,8) slot True
      by (simp add: ch_remove_def pp_removeChannel_def po_assertInLoopThread_def po_set_def isNoneEvent_def
          kNoneEvent_def Let_def)
    moreover have "pp_ok ?q'" by (rule pp_remove_last[OF ok c reg True]) simp_all
    moreover have "po_step q ?q' p ?c" using rel by (simp add: po_step_def)
    ultimately show ?thesis by simp
  next
    case False
    then have i: "?i < ?n - 1" using e(5) by simp
    then have last: "last (pp_pollfds q) = pp_pollfds q ! (?n - 1)" by (intro last_conv_nth) auto
    have "?n - 1 < ?n" using i by simp
    with ok obtain r d where r: "po_channels q (pfd_owner (pp_pollfds q ! (?n - 1))) = Some r"
      "po_heap q r = Some d" "ch_index d = int (?n - 1)"
      "pp_entry q (pfd_owner (pp_pollfds q ! (?n - 1))) d" by (rule pp_ok_slot)
    have rp: "r \<noteq> p" using r(2,3) c i e(4) by auto
    then have owner: "pfd_owner (last (pp_pollfds q)) \<noteq> ?fd" using r(1) reg last by auto
    let ?q' = "q\<lparr>po_heap := (po_heap q)(p \<mapsto> ?c, r \<mapsto> d\<lparr>ch_index := ch_index c\<rparr>),
        po_channels := (po_channels q)(?fd := None),
        pp_pollfds := (butlast (pp_pollfds q))[?i := last (pp_pollfds q)]\<rparr>"
    have run: "ch_remove pp_removeChannel me p q = Inr ?q'"
      using c me reg ev e(4,6,8) slot False r(1,2) rp owner butlast_list_swap[OF i] last
      by (simp add: ch_remove_def pp_removeChannel_def po_assertInLoopThread_def po_set_def isNoneEvent_def
          kNoneEvent_def Let_def pfd_owner_def[symmetric] set_index_def)
    have "pp_ok ?q'" by (rule pp_remove_mid[OF ok c reg i _ r(2) rp]) (use r(1) last in simp_all)
    moreover have "po_step q ?q' p ?c"
      using rel rp r(1,2) pp_entryD(1)[OF r(4)] by (simp add: po_step_def)
    ultimately show ?thesis using run rp by simp
  qed
qed

lemma pp_remove_step:
  assumes "pp_ok q" "po_heap q p = Some c" "po_channels q (ch_fd c) = Some p" "ch_events c = 0"
    "me = po_threadId q" "pp_hidden p q"
  shows "rpost {} (\<lambda>q'. pp_ok q' \<and> po_step q q' p (c\<lparr>ch_addedToLoop := False\<rparr>)
           \<and> po_channels q' = (po_channels q)(ch_fd c := None))
         (ch_remove pp_removeChannel me p q)"
  using pp_remove_law[OF assms(1,2,5,3,4,6)] by (rule rpost_mono) simp

section \<open>The contract\<close>

interpretation poll: poller_contract pp_updateChannel pp_removeChannel pp_ok "{}" pp_watch
proof
  fix q :: poll_poller and p c me m
  assume a: "pp_ok q" "po_heap q p = Some c" "me = po_threadId q"
  {
    assume "usable q p c" "0 \<le> ch_fd c"
    from pp_update_law[OF a this]
    show "rpost {} (\<lambda>q'. pp_ok q' \<and> po_step q q' p (ch_mask m c)
        \<and> po_channels q' = (po_channels q)(ch_fd c \<mapsto> p)) (ch_update pp_updateChannel me m p q)"
      by (rule rpost_mono) simp
  }
  assume reg: "po_channels q (ch_fd c) = Some p"
  then have u: "usable q p c" by (simp add: usable_def)
  obtain c0 where "pp_entry q (ch_fd c) c0" using a(1) reg by (rule pp_okE)
  then have fd: "0 \<le> ch_fd c" by (rule pp_entryD(2))
  have "rpost {} (\<lambda>q'. pp_ok q' \<and> po_step q q' p (ch_mask DisableAll c)
        \<and> po_channels q' = (po_channels q)(ch_fd c \<mapsto> p) \<and> pp_hidden p q')
      (ch_update pp_updateChannel me DisableAll p q)"
    using pp_update_law[OF a u fd] by (rule rpost_mono) (use reg in simp)
  then show "rpost {} (\<lambda>q'. pp_ok q' \<and>
        po_step q q' p ((ch_mask DisableAll c)\<lparr>ch_addedToLoop := False\<rparr>) \<and>
        po_channels q' = (po_channels q)(ch_fd c := None))
      (run_req pp_updateChannel pp_removeChannel me (Close p) q)"
    by (rule close_from_remove[OF _ pp_remove_step a(3)])
next
  fix q :: poll_poller and fd
  assume "pp_ok q"
  then show "pp_watch q fd = reg_watch (po_abs q) fd" by (rule pp_watch_spec)
next
  fix q :: poll_poller and fd p
  assume "pp_ok q" "po_channels q fd = Some p"
  then show "\<exists>c. po_heap q p = Some c \<and> ch_fd c = fd"
    by (rule pp_okE) (auto dest: pp_entryD(1))
qed

lemma new_poll_sim:
  assumes "\<And>p c. heap p = Some c \<Longrightarrow> is_fresh c \<and> ch_fd c = fdof p \<and> 0 \<le> fdof p"
    and "set fresh \<subseteq> dom heap"
  shows "poll.sim fdof fresh (\<lambda>_. None) (new_poll_poller me heap)"
  unfolding poll.sim_def using assms by (auto simp: new_poll_poller_def pp_ok_def po_abs_def)

lemma poll_run_ok:
  assumes "\<And>p c. heap p = Some c \<Longrightarrow> is_fresh c \<and> ch_fd c = fdof p \<and> 0 \<le> fdof p"
    and "set fresh \<subseteq> dom heap" and "legal fdof fresh (\<lambda>_. None) reqs"
  shows "rpost {} (\<lambda>q'. pp_ok q' \<and> po_abs q' = fold (spec_req fdof) reqs (\<lambda>_. None)
      \<and> pp_watch q' = reg_watch (fold (spec_req fdof) reqs (\<lambda>_. None)))
    (rfold (run_req pp_updateChannel pp_removeChannel me) reqs (new_poll_poller me heap))"
  by (rule poll.requests_refine[OF new_poll_sim[OF assms(1,2)] assms(3)])
     (simp_all add: new_poll_poller_def)

text \<open>
  C12. The \<open>poll\<close> poller serves every lawful sequence of requests without failing: the array keeps an
  entry for each registered channel and no other, every channel's index points at its own entry
  (also after entries were swapped to fill holes), and the kernel is asked to watch exactly the
  non-empty masks.
\<close>

theorem poll_follows_requests:
  assumes heap: "\<And>p c. heap p = Some c \<Longrightarrow> is_fresh c \<and> ch_fd c = fdof p \<and> 0 \<le> fdof p"
    and fresh: "set fresh \<subseteq> dom heap" and legal: "legal fdof fresh (\<lambda>_. None) reqs"
  shows "\<exists>q'. rfold (run_req pp_updateChannel pp_removeChannel me) reqs (new_poll_poller me heap) = Inr q'
      \<and> pp_ok q' \<and> po_abs q' = fold (spec_req fdof) reqs (\<lambda>_. None)
      \<and> pp_watch q' = reg_watch (fold (spec_req fdof) reqs (\<lambda>_. None))"
  using poll_run_ok[OF heap fresh legal] by (simp add: rpost_total)

lemma poll_follows_requests_witness:
  "\<exists>q'. rfold (run_req pp_updateChannel pp_removeChannel 3) some_reqs (new_poll_poller 3 two_channels) = Inr q'
      \<and> pp_ok q' \<and> po_abs q' = fold (spec_req two_fds) some_reqs (\<lambda>_. None)
      \<and> pp_watch q' = reg_watch (fold (spec_req two_fds) some_reqs (\<lambda>_. None))"
  by (rule poll_follows_requests[OF two_channels_fresh _ some_reqs_legal]) (simp_all add: two_channels_def)

section \<open>The choice of the poller\<close>

datatype 'k any_poller = UsePoll poll_poller | UseEPoll "'k epoll_poller"

text \<open>\<open>zing_use_poll\<close>: whether \<open>getenv("ZING_USE_POLL")\<close> found the variable.\<close>

definition newDefaultPoller ::
  "bool \<Rightarrow> int \<Rightarrow> (ptr \<Rightarrow> channel option) \<Rightarrow> 'k \<Rightarrow> 'k any_poller" where
  "newDefaultPoller zing_use_poll threadId heap k =
    (if zing_use_poll then UsePoll (new_poll_poller threadId heap)
     else UseEPoll (new_epoll_poller threadId heap k))"

text \<open>The virtual calls.\<close>

definition lift_result :: "('a \<Rightarrow> 'b) \<Rightarrow> 'a result \<Rightarrow> 'b result" where
  "lift_result f r = rbind r (\<lambda>x. Inr (f x))"

fun any_request :: "'k epoll_ctl \<Rightarrow> int \<Rightarrow> chan_req \<Rightarrow> 'k any_poller \<Rightarrow> 'k any_poller result" where
  "any_request kctl me req (UsePoll q) =
     lift_result UsePoll (run_req pp_updateChannel pp_removeChannel me req q)"
| "any_request kctl me req (UseEPoll q) =
     lift_result UseEPoll (run_req (ep_updateChannel kctl) (ep_removeChannel kctl) me req q)"

fun any_watch :: "('k \<Rightarrow> int \<Rightarrow> epoll_event option) \<Rightarrow> 'k any_poller \<Rightarrow> int \<Rightarrow> 32 word option" where
  "any_watch interest (UsePoll q) = pp_watch q"
| "any_watch interest (UseEPoll q) = ep_watch interest q"

lemma any_requests:
  "rfold (any_request kctl me) reqs (UsePoll q)
     = lift_result UsePoll (rfold (run_req pp_updateChannel pp_removeChannel me) reqs q)"
  "rfold (any_request kctl me) reqs (UseEPoll e)
     = lift_result UseEPoll (rfold (run_req (ep_updateChannel kctl) (ep_removeChannel kctl) me) reqs e)"
proof (induction reqs arbitrary: q e)
  case (Cons r rs)
  {
    case 1
    then show ?case using Cons.IH(1)
      by (cases "run_req pp_updateChannel pp_removeChannel me r q") (simp_all add: lift_result_def)
  next
    case 2
    then show ?case using Cons.IH(2)
      by (cases "run_req (ep_updateChannel kctl) (ep_removeChannel kctl) me r e") (simp_all add: lift_result_def)
  }
qed (simp_all add: lift_result_def)

lemma rpost_lift: "rpost E (\<lambda>x. P (f x)) r \<Longrightarrow> rpost E P (lift_result f r)"
  by (cases r) (simp_all add: lift_result_def)

text \<open>
  The environment variable that selects the poller is immaterial: for every lawful sequence of
  requests both pollers end up watching the same events on the same descriptors, namely those of
  the specification. (The \<open>epoll\<close> one may stop when the kernel refuses a watch.)
\<close>

theorem default_poller_immaterial:
  assumes kernel: "epoll_kernel kctl interest" and empty: "interest k = (\<lambda>_. None)"
    and heap: "\<And>p c. heap p = Some c \<Longrightarrow> is_fresh c \<and> ch_fd c = fdof p \<and> 0 \<le> fdof p"
    and fresh: "set fresh \<subseteq> dom heap" and legal: "legal fdof fresh (\<lambda>_. None) reqs"
  shows "rpost {Fatal} (\<lambda>q'. any_watch interest q' = reg_watch (fold (spec_req fdof) reqs (\<lambda>_. None)))
    (rfold (any_request kctl me) reqs (newDefaultPoller zing_use_poll me heap k))"
proof (cases zing_use_poll)
  case True
  have "rpost {Fatal} (\<lambda>q'. any_watch interest (UsePoll q') = reg_watch (fold (spec_req fdof) reqs (\<lambda>_. None)))
    (rfold (run_req pp_updateChannel pp_removeChannel me) reqs (new_poll_poller me heap))"
    using poll_run_ok[OF heap fresh legal, of me] by (auto simp: rpost_total)
  then show ?thesis
    using True by (simp add: newDefaultPoller_def any_requests rpost_lift)
next
  case False
  have "rpost {Fatal} (\<lambda>q'. any_watch interest (UseEPoll q') = reg_watch (fold (spec_req fdof) reqs (\<lambda>_. None)))
    (rfold (run_req (ep_updateChannel kctl) (ep_removeChannel kctl) me) reqs (new_epoll_poller me heap k))"
    by (rule rpost_mono[OF poller_contract.requests_refine[OF ep_contract[OF kernel]
        new_poller_sim[OF empty heap fresh kernel] legal]])
       (simp_all add: new_epoll_poller_def)
  then show ?thesis
    using False by (simp add: newDefaultPoller_def any_requests rpost_lift)
qed

lemma default_poller_immaterial_witness:
  "rpost {Fatal} (\<lambda>q'. any_watch id q' = reg_watch (fold (spec_req two_fds) some_reqs (\<lambda>_. None)))
    (rfold (any_request map_ctl 3) some_reqs (newDefaultPoller True 3 two_channels (\<lambda>_. None)))"
  by (rule default_poller_immaterial[OF map_ctl_kernel _ two_channels_fresh _ some_reqs_legal])
     (simp_all add: two_channels_def)

section \<open>What becomes ready\<close>

lemma pp_fill_ok:
  assumes "\<forall>pfd \<in> set pfds. 0 < sint (pfd_revents pfd) \<longrightarrow>
      (\<exists>p c. po_channels q (pfd_fd pfd) = Some p \<and> po_heap q p = Some c \<and> ch_fd c = pfd_fd pfd)"
    and "n = int (length (filter (\<lambda>pfd. 0 < sint (pfd_revents pfd)) pfds))"
    and "distinct (map pfd_fd (filter (\<lambda>pfd. 0 < sint (pfd_revents pfd)) pfds))"
  shows "rpost {} (\<lambda>(act, q').
      act = acts @ map (\<lambda>pfd. the (po_channels q (pfd_fd pfd))) (filter (\<lambda>pfd. 0 < sint (pfd_revents pfd)) pfds)
      \<and> (\<forall>p. map_option (\<lambda>c. c\<lparr>ch_revents := 0\<rparr>) (po_heap q' p)
             = map_option (\<lambda>c. c\<lparr>ch_revents := 0\<rparr>) (po_heap q p))
      \<and> po_channels q' = po_channels q \<and> pp_pollfds q' = pp_pollfds q
      \<and> (\<forall>p c. po_heap q p = Some c \<longrightarrow> ch_fd c \<notin> pfd_fd ` {pfd \<in> set pfds. 0 < sint (pfd_revents pfd)} \<longrightarrow>
            po_heap q' p = Some c)
      \<and> (\<forall>pfd \<in> set pfds. 0 < sint (pfd_revents pfd) \<longrightarrow>
            map_option ch_revents (po_heap q' (the (po_channels q (pfd_fd pfd)))) = Some (scast (pfd_revents pfd))))
    (pp_fill n pfds (acts, q))"
  using assms
proof (induction pfds arbitrary: n acts q)
  case Nil
  then show ?case by simp
next
  case (Cons pfd pfds)
  let ?pos = "\<lambda>pfd. 0 < sint (pfd_revents pfd)"
  show ?case
  proof (cases "?pos pfd")
    case False
    then have ih: "\<And>acts. rpost {} (\<lambda>(act, q').
      act = acts @ map (\<lambda>pfd. the (po_channels q (pfd_fd pfd))) (filter ?pos pfds)
      \<and> (\<forall>p. map_option (\<lambda>c. c\<lparr>ch_revents := 0\<rparr>) (po_heap q' p)
             = map_option (\<lambda>c. c\<lparr>ch_revents := 0\<rparr>) (po_heap q p))
      \<and> po_channels q' = po_channels q \<and> pp_pollfds q' = pp_pollfds q
      \<and> (\<forall>p c. po_heap q p = Some c \<longrightarrow> ch_fd c \<notin> pfd_fd ` {pfd \<in> set pfds. ?pos pfd} \<longrightarrow>
            po_heap q' p = Some c)
      \<and> (\<forall>pfd \<in> set pfds. ?pos pfd \<longrightarrow>
            map_option ch_revents (po_heap q' (the (po_channels q (pfd_fd pfd)))) = Some (scast (pfd_revents pfd))))
    (pp_fill n pfds (acts, q))"
      using Cons.prems by (intro Cons.IH) simp_all
    have "0 < n \<or> filter ?pos pfds = []" using Cons.prems(2) False by auto
    then show ?thesis
    proof
      assume "0 < n"
      moreover have "{x \<in> set (pfd # pfds). ?pos x} = {x \<in> set pfds. ?pos x}" using False by auto
      ultimately show ?thesis using False ih[of acts] by simp
    next
      assume none: "filter ?pos pfds = []"
      then have "n = 0" using Cons.prems(2) False by simp
      moreover have "\<forall>x \<in> set (pfd # pfds). \<not> ?pos x" using none False by (auto simp: filter_empty_conv)
      ultimately show ?thesis using none False by auto
    qed
  next
    case True
    then have n: "0 < n" "n - 1 = int (length (filter ?pos pfds))" using Cons.prems(2) by simp_all
    obtain p c where pc: "po_channels q (pfd_fd pfd) = Some p" "po_heap q p = Some c" "ch_fd c = pfd_fd pfd"
      using Cons.prems(1) True by auto
    let ?q = "po_set p (c\<lparr>ch_revents := scast (pfd_revents pfd)\<rparr>) q"
    have step: "pp_fill n (pfd # pfds) (acts, q) = pp_fill (n - 1) pfds (acts @ [p], ?q)"
      using True n(1) pc by (simp add: set_revents_def)
    have h: "\<exists>c'. po_heap ?q r = Some c' \<and> ch_fd c' = ch_fd b" if "po_heap q r = Some b" for r b
      using that pc by (auto simp: po_set_def)
    have ok': "\<forall>x \<in> set pfds. ?pos x \<longrightarrow>
      (\<exists>p c. po_channels ?q (pfd_fd x) = Some p \<and> po_heap ?q p = Some c \<and> ch_fd c = pfd_fd x)"
    proof (intro ballI impI)
      fix x assume "x \<in> set pfds" "?pos x"
      then obtain r b where "po_channels q (pfd_fd x) = Some r" "po_heap q r = Some b" "ch_fd b = pfd_fd x"
        using Cons.prems(1) by auto
      then show "\<exists>p c. po_channels ?q (pfd_fd x) = Some p \<and> po_heap ?q p = Some c \<and> ch_fd c = pfd_fd x"
        using h by (fastforce simp: po_set_def)
    qed
    have z: "map_option (\<lambda>c. c\<lparr>ch_revents := 0\<rparr>) (po_heap ?q r)
        = map_option (\<lambda>c. c\<lparr>ch_revents := 0\<rparr>) (po_heap q r)" for r
      using pc(2) by (simp add: po_set_def)
    have f: "po_channels ?q = po_channels q" "pp_pollfds ?q = pp_pollfds q"
      "r \<noteq> p \<Longrightarrow> po_heap ?q r = po_heap q r" "po_heap ?q p = Some (c\<lparr>ch_revents := scast (pfd_revents pfd)\<rparr>)" for r
      by (simp_all add: po_set_def)
    have d: "distinct (map pfd_fd (filter ?pos pfds))" "pfd_fd pfd \<notin> pfd_fd ` {x \<in> set pfds. ?pos x}"
      using Cons.prems(3) True by auto
    show ?thesis
      unfolding step
    proof (rule rpost_mono[OF Cons.IH[OF ok' n(2) d(1)]], clarify, intro conjI)
      fix q'
      assume a: "\<forall>r c. po_heap ?q r = Some c \<longrightarrow> ch_fd c \<notin> pfd_fd ` {x \<in> set pfds. ?pos x} \<longrightarrow>
            po_heap q' r = Some c"
        "\<forall>x \<in> set pfds. ?pos x \<longrightarrow>
            map_option ch_revents (po_heap q' (the (po_channels ?q (pfd_fd x)))) = Some (scast (pfd_revents x))"
      show "\<forall>r b. po_heap q r = Some b \<longrightarrow> ch_fd b \<notin> pfd_fd ` {x \<in> set (pfd # pfds). ?pos x} \<longrightarrow>
            po_heap q' r = Some b"
      proof (intro allI impI)
        fix r b assume rb: "po_heap q r = Some b" "ch_fd b \<notin> pfd_fd ` {x \<in> set (pfd # pfds). ?pos x}"
        then have "r \<noteq> p" using pc(2,3) True by auto
        then have "po_heap ?q r = Some b" using f(3) rb(1) by simp
        moreover have "ch_fd b \<notin> pfd_fd ` {x \<in> set pfds. ?pos x}" using rb(2) by auto
        ultimately show "po_heap q' r = Some b" using a(1) by blast
      qed
      have "po_heap q' p = Some (c\<lparr>ch_revents := scast (pfd_revents pfd)\<rparr>)"
        using a(1) f(4) d(2) pc(3) by simp
      then show "\<forall>x \<in> set (pfd # pfds). ?pos x \<longrightarrow>
            map_option ch_revents (po_heap q' (the (po_channels q (pfd_fd x)))) = Some (scast (pfd_revents x))"
        using a(2) f(1) pc(1) by simp
    qed (use True pc z f in simp_all)
  qed
qed

definition with_revents :: "16 word list \<Rightarrow> pollfd list \<Rightarrow> pollfd list" where
  "with_revents rs pfds = map2 (\<lambda>pfd r. pfd\<lparr>pfd_revents := r\<rparr>) pfds rs"

text \<open>The entries that are ready, in array order.\<close>

definition ready_pfds :: "pollfd list \<Rightarrow> pollfd list" where
  "ready_pfds pfds = filter (\<lambda>pfd. 0 < sint (pfd_revents pfd)) pfds"

lemma with_revents_nth:
  assumes "length rs = length pfds" "i < length pfds"
  shows "with_revents rs pfds ! i = (pfds ! i)\<lparr>pfd_revents := rs ! i\<rparr>"
  using assms by (simp add: with_revents_def)

lemma pp_ok_revents:
  assumes ok: "pp_ok q" and len: "length rs = length (pp_pollfds q)"
  shows "pp_ok (q\<lparr>pp_pollfds := with_revents rs (pp_pollfds q)\<rparr>)"
proof -
  have l: "length (with_revents rs (pp_pollfds q)) = length (pp_pollfds q)"
    using len by (simp add: with_revents_def)
  show ?thesis
    unfolding pp_ok_def
  proof (intro conjI allI impI)
    fix fd p assume "po_channels (q\<lparr>pp_pollfds := with_revents rs (pp_pollfds q)\<rparr>) fd = Some p"
    then have "po_channels q fd = Some p" by simp
    with ok obtain c where c: "po_heap q p = Some c" "pp_entry q fd c" by (rule pp_okE)
    then have "pp_entry (q\<lparr>pp_pollfds := with_revents rs (pp_pollfds q)\<rparr>) fd c"
      using pp_entryD(5)[OF c(2)] l with_revents_nth[OF len] by (simp add: pp_entry_def)
    then show "\<exists>c. po_heap (q\<lparr>pp_pollfds := with_revents rs (pp_pollfds q)\<rparr>) p = Some c
        \<and> pp_entry (q\<lparr>pp_pollfds := with_revents rs (pp_pollfds q)\<rparr>) fd c" using c(1) by simp
  next
    fix i assume "i < length (pp_pollfds (q\<lparr>pp_pollfds := with_revents rs (pp_pollfds q)\<rparr>))"
    then have i: "i < length (pp_pollfds q)" using l by simp
    obtain p c where "po_channels q (pfd_owner (pp_pollfds q ! i)) = Some p" "po_heap q p = Some c"
      "ch_index c = int i" using ok i by (rule pp_ok_slot)
    moreover have "pfd_owner (with_revents rs (pp_pollfds q) ! i) = pfd_owner (pp_pollfds q ! i)"
      unfolding with_revents_nth[OF len i] by (simp add: pfd_owner_def)
    ultimately show "\<exists>p c. po_channels (q\<lparr>pp_pollfds := with_revents rs (pp_pollfds q)\<rparr>)
          (pfd_owner (pp_pollfds (q\<lparr>pp_pollfds := with_revents rs (pp_pollfds q)\<rparr>) ! i)) = Some p
        \<and> po_heap (q\<lparr>pp_pollfds := with_revents rs (pp_pollfds q)\<rparr>) p = Some c \<and> ch_index c = int i"
      by simp
  qed
qed

lemma pp_fds_distinct:
  assumes ok: "pp_ok q" and nn: "\<forall>pfd \<in> set (filter P (pp_pollfds q)). 0 \<le> pfd_fd pfd"
  shows "distinct (map pfd_fd (filter P (pp_pollfds q)))"
proof -
  have "distinct (map pfd_owner (pp_pollfds q))"
    unfolding distinct_conv_nth
  proof (intro allI impI)
    fix i j assume i: "i < length (map pfd_owner (pp_pollfds q))" and j: "j < length (map pfd_owner (pp_pollfds q))"
      and ne: "i \<noteq> j"
    obtain p c where p: "po_channels q (pfd_owner (pp_pollfds q ! i)) = Some p" "po_heap q p = Some c"
      "ch_index c = int i" using ok i[unfolded length_map] by (rule pp_ok_slot)
    obtain r d where r: "po_channels q (pfd_owner (pp_pollfds q ! j)) = Some r" "po_heap q r = Some d"
      "ch_index d = int j" using ok j[unfolded length_map] by (rule pp_ok_slot)
    show "map pfd_owner (pp_pollfds q) ! i \<noteq> map pfd_owner (pp_pollfds q) ! j"
      using i j p r ne by auto
  qed
  then have "distinct (map pfd_owner (filter P (pp_pollfds q)))" by (rule distinct_map_filter)
  moreover have "map pfd_owner (filter P (pp_pollfds q)) = map pfd_fd (filter P (pp_pollfds q))"
    using nn by (auto simp: pfd_owner_def)
  ultimately show ?thesis by simp
qed

text \<open>
  The \<open>poll\<close> poller reports exactly the entries the kernel marked, in the order of the array,
  each channel with the events marked for it, and changes nothing else, provided the kernel
  answers for every entry, leaves ignored entries unmarked and returns the number of marked ones.
\<close>

theorem poll_reports_ready:
  assumes ok: "pp_ok q" and len: "length rs = length (pp_pollfds q)"
    and ignored: "\<forall>pfd \<in> set (ready_pfds (with_revents rs (pp_pollfds q))). 0 \<le> pfd_fd pfd"
    and count: "n = int (length (ready_pfds (with_revents rs (pp_pollfds q))))"
  shows "\<exists>q'. pp_poll now (Inr (n, rs)) acts q
        = Inr (now, acts @ map (\<lambda>pfd. the (po_channels q (pfd_fd pfd))) (ready_pfds (with_revents rs (pp_pollfds q))), q')
      \<and> (\<forall>pfd \<in> set (ready_pfds (with_revents rs (pp_pollfds q))).
           \<exists>p c. po_channels q (pfd_fd pfd) = Some p \<and> po_heap q' p = Some c
             \<and> ch_fd c = pfd_fd pfd \<and> ch_revents c = scast (pfd_revents pfd))
      \<and> po_abs q' = po_abs q"
proof -
  let ?pfds = "with_revents rs (pp_pollfds q)"
  let ?q = "q\<lparr>pp_pollfds := ?pfds\<rparr>"
  let ?pos = "\<lambda>pfd. 0 < sint (pfd_revents pfd)"
  have ok1: "pp_ok ?q" using ok len by (rule pp_ok_revents)
  have owned: "\<exists>p c. po_channels q (pfd_fd pfd) = Some p \<and> po_heap q p = Some c \<and> ch_fd c = pfd_fd pfd"
    if "pfd \<in> set (ready_pfds ?pfds)" for pfd
  proof -
    have "pfd \<in> set ?pfds" using that by (simp add: ready_pfds_def)
    then obtain i where i: "i < length (pp_pollfds ?q)" "pp_pollfds ?q ! i = pfd"
      by (auto simp: in_set_conv_nth)
    obtain p c where "po_channels ?q (pfd_owner (pp_pollfds ?q ! i)) = Some p" "po_heap ?q p = Some c"
      "ch_index c = int i" "pp_entry ?q (pfd_owner (pp_pollfds ?q ! i)) c"
      using ok1 i(1) by (rule pp_ok_slot)
    moreover have "pfd_owner pfd = pfd_fd pfd" using bspec[OF ignored that] by (simp add: pfd_owner_def)
    ultimately show ?thesis using i(2) by (auto dest: pp_entryD(1))
  qed
  have a1: "\<forall>pfd \<in> set ?pfds. ?pos pfd \<longrightarrow>
      (\<exists>p c. po_channels ?q (pfd_fd pfd) = Some p \<and> po_heap ?q p = Some c \<and> ch_fd c = pfd_fd pfd)"
    using owned by (auto simp: ready_pfds_def)
  have a3: "distinct (map pfd_fd (filter ?pos ?pfds))"
    using pp_fds_distinct[OF ok1, of ?pos] ignored by (simp add: ready_pfds_def)
  have abs: "po_abs q' = po_abs q"
    if h: "\<forall>p. map_option (\<lambda>c. c\<lparr>ch_revents := 0\<rparr>) (po_heap q' p)
             = map_option (\<lambda>c. c\<lparr>ch_revents := 0\<rparr>) (po_heap ?q p)"
      and "po_channels q' = po_channels ?q" for q' :: poll_poller
  proof
    fix fd
    have "map_option (\<lambda>c. (p, ch_events c)) (map_option (\<lambda>c. c\<lparr>ch_revents := 0\<rparr>) (po_heap q' p))
        = map_option (\<lambda>c. (p, ch_events c)) (map_option (\<lambda>c. c\<lparr>ch_revents := 0\<rparr>) (po_heap ?q p))" for p
      using h by simp
    then have "map_option (\<lambda>c. (p, ch_events c)) (po_heap q' p) = map_option (\<lambda>c. (p, ch_events c)) (po_heap q p)" for p
      by (simp add: option.map_comp comp_def)
    then show "po_abs q' fd = po_abs q fd" using that(2) by (auto simp: po_abs_def split: option.splits)
  qed
  show ?thesis
  proof (cases "0 < n")
    case True
    obtain q' where q': "pp_fill n ?pfds (acts, ?q) = Inr (acts @ map (\<lambda>pfd. the (po_channels ?q (pfd_fd pfd)))
          (filter ?pos ?pfds), q')"
      "\<forall>p. map_option (\<lambda>c. c\<lparr>ch_revents := 0\<rparr>) (po_heap q' p)
             = map_option (\<lambda>c. c\<lparr>ch_revents := 0\<rparr>) (po_heap ?q p)"
      "po_channels q' = po_channels ?q"
      "\<forall>pfd \<in> set ?pfds. ?pos pfd \<longrightarrow>
         map_option ch_revents (po_heap q' (the (po_channels ?q (pfd_fd pfd)))) = Some (scast (pfd_revents pfd))"
      using pp_fill_ok[OF a1 count[unfolded ready_pfds_def] a3, of acts] by (auto simp: rpost_total)
    have "\<exists>p c. po_channels q (pfd_fd pfd) = Some p \<and> po_heap q' p = Some c
        \<and> ch_fd c = pfd_fd pfd \<and> ch_revents c = scast (pfd_revents pfd)"
      if "pfd \<in> set (ready_pfds ?pfds)" for pfd
    proof -
      obtain p c where pc: "po_channels q (pfd_fd pfd) = Some p" "po_heap q p = Some c" "ch_fd c = pfd_fd pfd"
        using owned[OF \<open>pfd \<in> _\<close>] by blast
      have "map_option (\<lambda>c. c\<lparr>ch_revents := 0\<rparr>) (po_heap q' p)
             = map_option (\<lambda>c. c\<lparr>ch_revents := 0\<rparr>) (po_heap ?q p)" using q'(2) by blast
      then obtain b where b: "po_heap q' p = Some b" "b\<lparr>ch_revents := 0\<rparr> = c\<lparr>ch_revents := 0\<rparr>"
        using pc(2) by auto
      then have "ch_fd b = pfd_fd pfd" using pc(3) by (cases b; cases c) simp
      moreover have "ch_revents b = scast (pfd_revents pfd)"
        using q'(4) that pc(1) b(1) by (auto simp: ready_pfds_def)
      ultimately show ?thesis using pc(1) b(1) by blast
    qed
    moreover have "pp_poll now (Inr (n, rs)) acts q = Inr (now, acts @ map (\<lambda>pfd. the (po_channels q (pfd_fd pfd)))
          (ready_pfds ?pfds), q')"
      using True q'(1) by (simp add: pp_poll_def with_revents_def ready_pfds_def)
    ultimately show ?thesis using abs[OF q'(2,3)] by blast
  next
    case False
    then have "ready_pfds ?pfds = []" using count by simp
    then show ?thesis using False abs[of ?q]
      by (simp add: pp_poll_def with_revents_def[symmetric])
  qed
qed

definition three_entries :: poll_poller where
  "three_entries =
     \<lparr>po_heap = [10 \<mapsto> (new_channel 1 5)\<lparr>ch_events := 3, ch_index := 0\<rparr>,
                 20 \<mapsto> (new_channel 1 6)\<lparr>ch_events := 0, ch_index := 1\<rparr>],
      po_channels = [5 \<mapsto> 10, 6 \<mapsto> 20], po_threadId = 3,
      pp_pollfds = [\<lparr>pfd_fd = 5, pfd_events = 3, pfd_revents = 0\<rparr>,
                    \<lparr>pfd_fd = - 7, pfd_events = 0, pfd_revents = 0\<rparr>]\<rparr>"

lemma three_entries_ok: "pp_ok three_entries"
  unfolding pp_ok_def
proof (intro conjI allI impI)
  fix fd p assume "po_channels three_entries fd = Some p"
  then have "(fd = 5 \<and> p = 10) \<or> (fd = 6 \<and> p = 20)" by (auto simp: three_entries_def split: if_splits)
  then show "\<exists>c. po_heap three_entries p = Some c \<and> pp_entry three_entries fd c"
    by (auto simp: three_entries_def pp_entry_def new_channel_def known_mask_def)
next
  fix i assume "i < length (pp_pollfds three_entries)"
  then have "i = 0 \<or> i = 1" by (auto simp: three_entries_def)
  then show "\<exists>p c. po_channels three_entries (pfd_owner (pp_pollfds three_entries ! i)) = Some p \<and>
      po_heap three_entries p = Some c \<and> ch_index c = int i"
    by (auto simp: three_entries_def pfd_owner_def)
qed

lemma poll_reports_ready_witness:
  "\<exists>q'. pp_poll (Timestamp 7) (Inr (1, [1, 0])) [] three_entries
        = Inr (Timestamp 7, [] @ map (\<lambda>pfd. the (po_channels three_entries (pfd_fd pfd)))
            (ready_pfds (with_revents [1, 0] (pp_pollfds three_entries))), q')
      \<and> (\<forall>pfd \<in> set (ready_pfds (with_revents [1, 0] (pp_pollfds three_entries))).
           \<exists>p c. po_channels three_entries (pfd_fd pfd) = Some p \<and> po_heap q' p = Some c
             \<and> ch_fd c = pfd_fd pfd \<and> ch_revents c = scast (pfd_revents pfd))
      \<and> po_abs q' = po_abs three_entries"
  by (rule poll_reports_ready[OF three_entries_ok])
     (simp_all add: three_entries_def ready_pfds_def with_revents_def)

section \<open>Channels cannot come back\<close>

text \<open>
  The two pollers differ in what they do with a channel that is used again after it was
  removed: removal from the \<open>poll\<close> poller leaves the index of the channel as it was, so that the
  next mask operation on it fails an assertion.
\<close>

theorem poll_removed_channel_dead:
  assumes ok: "pp_ok q" and c: "po_heap q p = Some c" and me: "me = po_threadId q"
    and reg: "po_channels q (ch_fd c) = Some p" and ev: "ch_events c = 0" and hid: "pp_hidden p q"
  shows "\<exists>q'. ch_remove pp_removeChannel me p q = Inr q'
      \<and> ch_update pp_updateChannel me m p q' = Inl AssertFail"
proof -
  obtain c0 where "po_heap q p = Some c0" "pp_entry q (ch_fd c) c0" using ok reg by (rule pp_okE)
  then have entry: "pp_entry q (ch_fd c) c" using c by simp
  note e = pp_entryD[OF entry]
  obtain q' where q': "ch_remove pp_removeChannel me p q = Inr q'"
    "po_step q q' p (c\<lparr>ch_addedToLoop := False\<rparr>)" "po_channels q' = (po_channels q)(ch_fd c := None)"
    "po_heap q' p = Some (c\<lparr>ch_addedToLoop := False\<rparr>)"
    using pp_remove_law[OF ok c me reg ev hid] by (auto simp: rpost_total)
  have "po_threadId q' = me" using q'(2) me by (simp add: po_step_def)
  then have "ch_update pp_updateChannel me m p q' = Inl AssertFail"
    using q'(4) e(4) q'(3)
    by (simp add: ch_update_def pp_updateChannel_def po_assertInLoopThread_def po_set_def ch_mask_def)
  with q'(1) show ?thesis by blast
qed

lemma poll_removed_channel_dead_witness:
  "\<exists>q'. ch_remove pp_removeChannel 3 20 three_entries = Inr q'
      \<and> ch_update pp_updateChannel 3 EnableReading 20 q' = Inl AssertFail"
  by (rule poll_removed_channel_dead[OF three_entries_ok, where c = "(new_channel 1 6)\<lparr>ch_events := 0, ch_index := 1\<rparr>"])
     (simp_all add: three_entries_def new_channel_def pp_hidden_def)

end
