(* ===== verification/TimerQueue.thy ===== *)
theory TimerQueue
  imports Timestamp
begin

text \<open>
  Timers and the timer queue of an event loop (src/zing/net/Timer.h, Timer.cpp, TimerId.h,
  TimerQueue.h and TimerQueue.cpp). A \<open>Timer*\<close> is an address; the timers themselves live in a
  heap, so that deleting one and using it afterwards are visible. A \<open>std::set\<close> is the ascending
  list of its elements. Callbacks are values of an arbitrary type; what a callback does to the
  queue is the list of \<open>addTimer\<close> and \<open>cancel\<close> calls it makes.
\<close>

section \<open>State\<close>

definition UINTPTR_MAX :: ptr where "UINTPTR_MAX = 2 ^ 64 - 1"

record 'cb timer =
  tm_callback :: 'cb
  tm_expiration :: timestamp
  tm_interval :: seconds
  tm_repeat :: bool
  tm_sequence :: "64 word"

type_synonym timer_entry = "timestamp \<times> ptr"
type_synonym active_timer = "ptr \<times> 64 word"

text \<open>\<open>TimerId\<close>: the address and the sequence number; the default one is null.\<close>

type_synonym timer_id = "ptr \<times> 64 word"

definition TimerId_default :: timer_id where
  "TimerId_default = (0, 0)"

text \<open>
  \<open>tq_timerfd\<close> is what the timer descriptor was last set to, while it runs: when, and for how long
  (seconds and nanoseconds). \<open>tq_fired\<close>: it has run out, and its count was not read since.
\<close>

record 'cb timer_queue =
  tq_heap :: "ptr \<Rightarrow> 'cb timer option"
  s_numCreated :: "64 word"
  tq_threadId :: int
  tq_timers :: "timer_entry list"
  tq_active :: "active_timer list"
  tq_calling :: bool
  tq_canceling :: "active_timer list"
  tq_timerfd :: "(timestamp \<times> int \<times> int) option"
  tq_fired :: bool

section \<open>Timers\<close>

text \<open>\<open>new Timer(cb, when, interval)\<close>: the constructor takes the next sequence number.\<close>

definition mk_timer :: "'cb \<Rightarrow> timestamp \<Rightarrow> seconds \<Rightarrow> 64 word \<Rightarrow> 'cb timer" where
  "mk_timer cb when interval sequence =
     \<lparr>tm_callback = cb, tm_expiration = when, tm_interval = interval,
      tm_repeat = sec_positive interval, tm_sequence = sequence\<rparr>"

definition restart :: "timestamp \<Rightarrow> 'cb timer \<Rightarrow> 'cb timer" where
  "restart now tm =
     (if tm_repeat tm then tm\<lparr>tm_expiration := addTime now (tm_interval tm)\<rparr>
      else tm\<lparr>tm_expiration := ts_invalid\<rparr>)"

definition delete_timer :: "ptr \<Rightarrow> 'cb timer_queue \<Rightarrow> 'cb timer_queue" where
  "delete_timer p q = q\<lparr>tq_heap := (tq_heap q)(p := None)\<rparr>"

section \<open>The timer descriptor\<close>

definition howMuchTimeFromNow :: "timestamp \<Rightarrow> timestamp \<Rightarrow> int \<times> int" where
  "howMuchTimeFromNow now when =
    (let microseconds = microSecondsSinceEpoch when - microSecondsSinceEpoch now;
         microseconds = (if microseconds < 100 then 100 else microseconds)
     in (microseconds sdiv kMicroSecondsPerSecond,
         (microseconds smod kMicroSecondsPerSecond) * 1000))"

text \<open>\<open>timerfd_settime\<close> also clears the count of expirations.\<close>

definition resetTimerfd :: "timestamp \<Rightarrow> timestamp \<Rightarrow> 'cb timer_queue \<Rightarrow> 'cb timer_queue" where
  "resetTimerfd now expiration q =
     q\<lparr>tq_timerfd := Some (now, howMuchTimeFromNow now expiration), tq_fired := False\<rparr>"

text \<open>When there is no count to read, the code only logs an error.\<close>

definition readTimerfd :: "'cb timer_queue \<Rightarrow> 'cb timer_queue" where
  "readTimerfd q = q\<lparr>tq_fired := False\<rparr>"

section \<open>Operations of the queue\<close>

definition tq_assertInLoopThread :: "int \<Rightarrow> 'cb timer_queue \<Rightarrow> unit result" where
  "tq_assertInLoopThread me q = (if me = tq_threadId q then Inr () else Inl Fatal)"

definition sizes_agree :: "'cb timer_queue \<Rightarrow> bool" where
  "sizes_agree q \<longleftrightarrow> length (tq_timers q) = length (tq_active q)"

definition insert_timer :: "int \<Rightarrow> ptr \<Rightarrow> 'cb timer_queue \<Rightarrow> (bool \<times> 'cb timer_queue) result" where
  "insert_timer me p q =
    rbind (tq_assertInLoopThread me q) (\<lambda>_.
    if \<not> sizes_agree q then Inl AssertFail else
    case tq_heap q p of
      None \<Rightarrow> Inl Undefined
    | Some tm \<Rightarrow>
      let when = tm_expiration tm;
          earliestChanged = (tq_timers q = [] \<or> when < fst (hd (tq_timers q)))
      in if (when, p) \<in> set (tq_timers q) then Inl AssertFail
         else if (p, tm_sequence tm) \<in> set (tq_active q) then Inl AssertFail
         else let q' = q\<lparr>tq_timers := insort (when, p) (tq_timers q),
                         tq_active := insort (p, tm_sequence tm) (tq_active q)\<rparr>
              in if sizes_agree q' then Inr (earliestChanged, q') else Inl AssertFail)"

definition addTimerInLoop :: "int \<Rightarrow> timestamp \<Rightarrow> ptr \<Rightarrow> 'cb timer_queue \<Rightarrow> 'cb timer_queue result" where
  "addTimerInLoop me now p q =
    rbind (tq_assertInLoopThread me q) (\<lambda>_.
    rbind (insert_timer me p q) (\<lambda>(earliestChanged, q').
    if earliestChanged
    then (case tq_heap q' p of
            None \<Rightarrow> Inl Undefined
          | Some tm \<Rightarrow> Inr (resetTimerfd now (tm_expiration tm) q'))
    else Inr q'))"

text \<open>
  \<open>addTimer\<close> allocates the timer, hands it to the loop and returns its id. Called in the loop
  thread, \<open>runInLoop\<close> runs \<open>addTimerInLoop\<close> at once; this is the case modelled here, for the
  other one see theory TimerThreads. \<open>alloc\<close> is the allocator: it sees which
  addresses are in use and may fail.
\<close>

definition addTimer ::
  "((ptr \<Rightarrow> bool) \<Rightarrow> ptr option) \<Rightarrow> int \<Rightarrow> timestamp \<Rightarrow> 'cb \<Rightarrow> timestamp \<Rightarrow> seconds \<Rightarrow>
   'cb timer_queue \<Rightarrow> (timer_id \<times> 'cb timer_queue) result" where
  "addTimer alloc me now cb when interval q =
    (case alloc (\<lambda>p. tq_heap q p \<noteq> None) of
       None \<Rightarrow> Inl BadAlloc
     | Some p \<Rightarrow>
       let (sequence, n) = at_incrementAndGet (s_numCreated q);
           q1 = q\<lparr>s_numCreated := n, tq_heap := (tq_heap q)(p \<mapsto> mk_timer cb when interval sequence)\<rparr>
       in rbind (addTimerInLoop me now p q1) (\<lambda>q2. Inr ((p, sequence), q2)))"

definition cancelInLoop :: "int \<Rightarrow> timer_id \<Rightarrow> 'cb timer_queue \<Rightarrow> 'cb timer_queue result" where
  "cancelInLoop me tid q =
    rbind (tq_assertInLoopThread me q) (\<lambda>_.
    if \<not> sizes_agree q then Inl AssertFail
    else rbind
      (if tid \<in> set (tq_active q)
       then (case tq_heap q (fst tid) of
               None \<Rightarrow> Inl Undefined
             | Some tm \<Rightarrow>
               if (tm_expiration tm, fst tid) \<notin> set (tq_timers q) then Inl AssertFail
               else Inr (delete_timer (fst tid)
                      (q\<lparr>tq_timers := remove1 (tm_expiration tm, fst tid) (tq_timers q),
                         tq_active := remove1 tid (tq_active q)\<rparr>)))
       else if tq_calling q
       then Inr (q\<lparr>tq_canceling :=
                   (if tid \<in> set (tq_canceling q) then tq_canceling q
                    else insort tid (tq_canceling q))\<rparr>)
       else Inr q)
      (\<lambda>q'. if sizes_agree q' then Inr q' else Inl AssertFail))"

text \<open>The second loop of \<open>getExpired\<close>: each expired timer leaves the active set.\<close>

definition erase_active :: "timer_entry \<Rightarrow> 'cb timer_queue \<Rightarrow> 'cb timer_queue result" where
  "erase_active it q =
    (case tq_heap q (snd it) of
       None \<Rightarrow> Inl Undefined
     | Some tm \<Rightarrow>
       if (snd it, tm_sequence tm) \<notin> set (tq_active q) then Inl AssertFail
       else Inr (q\<lparr>tq_active := remove1 (snd it, tm_sequence tm) (tq_active q)\<rparr>))"

definition getExpired :: "timestamp \<Rightarrow> 'cb timer_queue \<Rightarrow> (timer_entry list \<times> 'cb timer_queue) result" where
  "getExpired now q =
    (if \<not> sizes_agree q then Inl AssertFail
     else let sentry = (now, UINTPTR_MAX);
              expired = takeWhile (\<lambda>e. e < sentry) (tq_timers q);
              rest = dropWhile (\<lambda>e. e < sentry) (tq_timers q)
          in if \<not> (rest = [] \<or> now < fst (hd rest)) then Inl AssertFail
             else rbind (rfold erase_active expired (q\<lparr>tq_timers := rest\<rparr>)) (\<lambda>q'.
                  if sizes_agree q' then Inr (expired, q') else Inl AssertFail))"

definition reset_one :: "int \<Rightarrow> timestamp \<Rightarrow> timer_entry \<Rightarrow> 'cb timer_queue \<Rightarrow> 'cb timer_queue result" where
  "reset_one me now it q =
    (case tq_heap q (snd it) of
       None \<Rightarrow> Inl Undefined
     | Some tm \<Rightarrow>
       if tm_repeat tm \<and> (snd it, tm_sequence tm) \<notin> set (tq_canceling q)
       then rbind (insert_timer me (snd it) (q\<lparr>tq_heap := (tq_heap q)(snd it \<mapsto> restart now tm)\<rparr>))
              (\<lambda>(_, q'). Inr q')
       else Inr (delete_timer (snd it) q))"

text \<open>\<open>now'\<close> is the time that \<open>resetTimerfd\<close> reads when it is called.\<close>

definition reset_timers ::
  "int \<Rightarrow> timestamp \<Rightarrow> timestamp \<Rightarrow> timer_entry list \<Rightarrow> 'cb timer_queue \<Rightarrow> 'cb timer_queue result" where
  "reset_timers me now now' expired q =
    rbind (rfold (reset_one me now) expired q) (\<lambda>q'.
    rbind (case tq_timers q' of
             [] \<Rightarrow> Inr ts_invalid
           | e # _ \<Rightarrow> (case tq_heap q' (snd e) of
                        None \<Rightarrow> Inl Undefined | Some tm \<Rightarrow> Inr (tm_expiration tm)))
      (\<lambda>nextExpire. if ts_valid nextExpire then Inr (resetTimerfd now' nextExpire q') else Inr q'))"

section \<open>Callbacks and the expiry handler\<close>

datatype 'cb timer_call =
    CallAdd timestamp 'cb timestamp seconds
  | CallCancel timer_id

text \<open>The first argument of \<open>CallAdd\<close> is the time at which the call is made.\<close>

fun exec_call :: "((ptr \<Rightarrow> bool) \<Rightarrow> ptr option) \<Rightarrow> int \<Rightarrow> 'cb timer_call \<Rightarrow> 'cb timer_queue \<Rightarrow>
    'cb timer_queue result" where
  "exec_call alloc me (CallAdd now cb when interval) q =
     rbind (addTimer alloc me now cb when interval q) (\<lambda>(_, q'). Inr q')"
| "exec_call alloc me (CallCancel tid) q = cancelInLoop me tid q"

definition run_timer :: "((ptr \<Rightarrow> bool) \<Rightarrow> ptr option) \<Rightarrow> ('cb \<Rightarrow> 'cb timer_call list) \<Rightarrow> int \<Rightarrow>
    timer_entry \<Rightarrow> 'cb timer_queue \<Rightarrow> 'cb timer_queue result" where
  "run_timer alloc script me it q =
    (case tq_heap q (snd it) of
       None \<Rightarrow> Inl Undefined
     | Some tm \<Rightarrow> rfold (exec_call alloc me) (script (tm_callback tm)) q)"

definition tq_handleRead :: "((ptr \<Rightarrow> bool) \<Rightarrow> ptr option) \<Rightarrow> ('cb \<Rightarrow> 'cb timer_call list) \<Rightarrow> int \<Rightarrow>
    timestamp \<Rightarrow> timestamp \<Rightarrow> 'cb timer_queue \<Rightarrow> 'cb timer_queue result" where
  "tq_handleRead alloc script me now now' q =
    rbind (tq_assertInLoopThread me q) (\<lambda>_.
    rbind (getExpired now (readTimerfd q)) (\<lambda>(expired, q1).
    rbind (rfold (run_timer alloc script me) expired (q1\<lparr>tq_calling := True, tq_canceling := []\<rparr>)) (\<lambda>q2.
    reset_timers me now now' expired (q2\<lparr>tq_calling := False\<rparr>))))"

definition new_timer_queue :: "int \<Rightarrow> 64 word \<Rightarrow> 'cb timer_queue" where
  "new_timer_queue threadId created =
     \<lparr>tq_heap = (\<lambda>_. None), s_numCreated = created, tq_threadId = threadId, tq_timers = [],
      tq_active = [], tq_calling = False, tq_canceling = [], tq_timerfd = None, tq_fired = False\<rparr>"

text \<open>The destructor deletes every timer still in the set.\<close>

definition destroy_timer_queue :: "'cb timer_queue \<Rightarrow> 'cb timer_queue" where
  "destroy_timer_queue q = fold (\<lambda>e. delete_timer (snd e)) (tq_timers q) q"


section \<open>Time until an expiration\<close>

text \<open>
  The relative time handed to \<open>timerfd_settime\<close> is a proper timespec (nanoseconds in range,
  nothing negative) that stands for exactly the distance to the expiration, or for 100
  microseconds when that distance is shorter or the expiration has passed.
\<close>

theorem howMuchTimeFromNow_exact:
  "case howMuchTimeFromNow now when of (sec, nsec) \<Rightarrow>
     0 \<le> sec \<and> 0 \<le> nsec \<and> nsec < 1000000000
     \<and> sec * 1000000000 + nsec
         = 1000 * max 100 (microSecondsSinceEpoch when - microSecondsSinceEpoch now)"
proof -
  let ?d = "microSecondsSinceEpoch when - microSecondsSinceEpoch now"
  define m where "m = (if ?d < 100 then 100 else ?d)"
  have m: "0 < m" "m = max 100 ?d" by (auto simp: m_def)
  have h: "howMuchTimeFromNow now when = (m sdiv 1000000, m smod 1000000 * 1000)"
    by (simp add: howMuchTimeFromNow_def kMicroSecondsPerSecond_def m_def Let_def)
  have dm: "m sdiv 1000000 = m div 1000000" "m smod 1000000 = m mod 1000000"
    using m(1) by (simp_all add: signed_divide_int_def signed_modulo_int_def)
  have "m mod 1000000 < 1000000" "0 \<le> m mod 1000000" "0 \<le> m div 1000000"
    using m(1) by (simp_all add: pos_imp_zdiv_nonneg_iff)
  moreover have "m div 1000000 * 1000000000 + m mod 1000000 * 1000 = 1000 * m"
    using div_mult_mod_eq[of m 1000000] by linarith
  ultimately show ?thesis
    unfolding h dm m(2)[symmetric] by simp
qed

section \<open>The invariant\<close>

text \<open>
  \<open>tq_ok X q\<close>: the set of timers is ascending, every entry is a live timer filed under its
  expiration, the active set is the same timers keyed by address and sequence number, and
  the live timers are exactly those in the set and those in \<open>X\<close>, the ones the expiry handler
  has taken out and not yet filed again or deleted, and those whose filing is still to come.
\<close>

definition tq_ok :: "ptr list \<Rightarrow> 'cb timer_queue \<Rightarrow> bool" where
  "tq_ok X q \<longleftrightarrow> sorted (tq_timers q) \<and> distinct (map snd (tq_timers q) @ X)
     \<and> (\<forall>(w, p) \<in> set (tq_timers q). \<exists>tm. tq_heap q p = Some tm \<and> tm_expiration tm = w)
     \<and> dom (tq_heap q) = snd ` set (tq_timers q) \<union> set X
     \<and> (\<forall>p \<in> dom (tq_heap q). p < UINTPTR_MAX)
     \<and> distinct (tq_active q)
     \<and> (\<forall>p sq. (p, sq) \<in> set (tq_active q) \<longleftrightarrow>
          (\<exists>w tm. (w, p) \<in> set (tq_timers q) \<and> tq_heap q p = Some tm \<and> tm_sequence tm = sq))"

lemma tq_okD:
  assumes "tq_ok X q"
  shows "sorted (tq_timers q)" "distinct (map snd (tq_timers q))" "distinct X"
    "(w, p) \<in> set (tq_timers q) \<Longrightarrow> \<exists>tm. tq_heap q p = Some tm \<and> tm_expiration tm = w"
    "dom (tq_heap q) = snd ` set (tq_timers q) \<union> set X"
    "snd ` set (tq_timers q) \<inter> set X = {}"
    "tq_heap q p = Some tm \<Longrightarrow> p < UINTPTR_MAX"
    "distinct (tq_active q)"
  using assms by (auto simp: tq_ok_def)

lemma tq_ok_active:
  assumes "tq_ok X q" and "tq_heap q p = Some tm"
  shows "(p, sq) \<in> set (tq_active q) \<longleftrightarrow> p \<in> snd ` set (tq_timers q) \<and> sq = tm_sequence tm"
proof -
  have "(p, sq) \<in> set (tq_active q) \<longleftrightarrow> (\<exists>w. (w, p) \<in> set (tq_timers q)) \<and> tm_sequence tm = sq"
    using assms by (auto simp: tq_ok_def)
  then show ?thesis by force
qed

lemma tq_ok_activeD:
  assumes "tq_ok X q" and "(p, sq) \<in> set (tq_active q)"
  obtains tm where "tq_heap q p = Some tm" "tm_sequence tm = sq"
    "(tm_expiration tm, p) \<in> set (tq_timers q)"
proof -
  have "\<exists>w tm. (w, p) \<in> set (tq_timers q) \<and> tq_heap q p = Some tm \<and> tm_sequence tm = sq"
    using assms by (simp add: tq_ok_def)
  then obtain w tm where w: "(w, p) \<in> set (tq_timers q)" "tq_heap q p = Some tm" "tm_sequence tm = sq"
    by blast
  moreover from assms(1) w(1) have "\<exists>tm. tq_heap q p = Some tm \<and> tm_expiration tm = w"
    by (rule tq_okD)
  ultimately show ?thesis using that by auto
qed

lemma tq_ok_sizes [simp]: "tq_ok X q \<Longrightarrow> sizes_agree q"
proof -
  assume ok: "tq_ok X q"
  let ?f = "\<lambda>e. (snd e, tm_sequence (the (tq_heap q (snd e))))"
  have "set (tq_active q) = ?f ` set (tq_timers q)"
  proof (intro set_eqI, clarify)
    fix p sq
    show "(p, sq) \<in> set (tq_active q) \<longleftrightarrow> (p, sq) \<in> ?f ` set (tq_timers q)"
      using ok by (force simp: tq_ok_def image_iff)
  qed
  moreover have "inj_on ?f (set (tq_timers q))"
    using tq_okD(2)[OF ok] by (auto simp: inj_on_def distinct_map)
  ultimately have "card (set (tq_active q)) = card (set (tq_timers q))"
    by (simp add: card_image)
  moreover have "distinct (tq_timers q)"
    using tq_okD(2)[OF ok] by (simp add: distinct_map)
  ultimately show ?thesis
    using tq_okD(8)[OF ok] by (simp add: sizes_agree_def distinct_card)
qed

lemma tq_ok_fields [simp]:
  "tq_ok X (q\<lparr>tq_calling := c\<rparr>) = tq_ok X q" "tq_ok X (q\<lparr>tq_canceling := l\<rparr>) = tq_ok X q"
  "tq_ok X (q\<lparr>s_numCreated := n\<rparr>) = tq_ok X q" "tq_ok X (q\<lparr>tq_timerfd := t\<rparr>) = tq_ok X q"
  "tq_ok X (q\<lparr>tq_fired := b\<rparr>) = tq_ok X q"
  by (simp_all add: tq_ok_def)

lemma resetTimerfd_fields [simp]:
  "tq_ok X (resetTimerfd now e q) = tq_ok X q" "tq_timers (resetTimerfd now e q) = tq_timers q"
  "tq_heap (resetTimerfd now e q) = tq_heap q" "tq_threadId (resetTimerfd now e q) = tq_threadId q"
  "tq_canceling (resetTimerfd now e q) = tq_canceling q" "tq_calling (resetTimerfd now e q) = tq_calling q"
  "tq_active (resetTimerfd now e q) = tq_active q"
  "tq_timerfd (resetTimerfd now e q) = Some (now, howMuchTimeFromNow now e)"
  by (simp_all add: resetTimerfd_def)

lemma readTimerfd_fields [simp]:
  "tq_ok X (readTimerfd q) = tq_ok X q" "tq_timers (readTimerfd q) = tq_timers q"
  "tq_heap (readTimerfd q) = tq_heap q" "tq_threadId (readTimerfd q) = tq_threadId q"
  by (simp_all add: readTimerfd_def)

text \<open>A timer outside the set may be created or changed.\<close>

lemma tq_ok_touch:
  assumes "tq_ok X q" and "p \<in> set X"
  shows "tq_ok X (q\<lparr>tq_heap := (tq_heap q)(p \<mapsto> tm)\<rparr>)"
proof -
  have "(w, p) \<notin> set (tq_timers q)" for w
    using tq_okD(6)[OF assms(1)] assms(2) by force
  moreover have "dom ((tq_heap q)(p \<mapsto> tm)) = dom (tq_heap q)"
    using tq_okD(5)[OF assms(1)] assms(2) by auto
  ultimately show ?thesis using assms(1) unfolding tq_ok_def by (auto split: prod.splits)
qed

lemma tq_ok_new:
  assumes "tq_ok X q" and "tq_heap q p = None" and "p < UINTPTR_MAX"
  shows "tq_ok (p # X) (q\<lparr>tq_heap := (tq_heap q)(p \<mapsto> tm)\<rparr>)"
proof -
  have p: "p \<notin> dom (tq_heap q)" using assms(2) by auto
  then have "(w, p) \<notin> set (tq_timers q)" for w
    using tq_okD(5)[OF assms(1)] by force
  then show ?thesis
    using assms p unfolding tq_ok_def by (auto split: prod.splits)
qed


section \<open>Every operation keeps the invariant\<close>

lemma insert_timer_ok:
  assumes ok: "tq_ok X q" and p: "p \<in> set X" and tm: "tq_heap q p = Some tm"
    and me: "me = tq_threadId q"
  obtains q' where
    "insert_timer me p q = Inr (tq_timers q = [] \<or> tm_expiration tm < fst (hd (tq_timers q)), q')"
    "tq_ok (remove1 p X) q'"
    "q' = q\<lparr>tq_timers := insort (tm_expiration tm, p) (tq_timers q),
            tq_active := insort (p, tm_sequence tm) (tq_active q)\<rparr>"
proof -
  let ?q = "q\<lparr>tq_timers := insort (tm_expiration tm, p) (tq_timers q),
              tq_active := insort (p, tm_sequence tm) (tq_active q)\<rparr>"
  have fresh: "p \<notin> snd ` set (tq_timers q)" using tq_okD(6)[OF ok] p by auto
  then have fresh': "(w, p) \<notin> set (tq_timers q)" for w by force
  have act: "(p, sq) \<notin> set (tq_active q)" for sq
    using fresh tq_ok_active[OF ok tm] by simp
  have ok': "tq_ok (remove1 p X) ?q"
    unfolding tq_ok_def
  proof (intro conjI)
    show "sorted (tq_timers ?q)" using tq_okD(1)[OF ok] by (simp add: sorted_insort)
    have "distinct (map snd (tq_timers ?q))"
      using tq_okD(2)[OF ok] fresh by (simp add: distinct_map distinct_insort set_insort_key inj_on_def) force
    then show "distinct (map snd (tq_timers ?q) @ remove1 p X)"
      using tq_okD(3,6)[OF ok] fresh by (auto simp: set_insort_key)
    show "\<forall>(w, p)\<in>set (tq_timers ?q). \<exists>tm. tq_heap ?q p = Some tm \<and> tm_expiration tm = w"
      using tq_okD(4)[OF ok] tm by (auto simp: set_insort_key)
    show "dom (tq_heap ?q) = snd ` set (tq_timers ?q) \<union> set (remove1 p X)"
      using tq_okD(3,5)[OF ok] p by (auto simp: set_insort_key)
    show "\<forall>p\<in>dom (tq_heap ?q). p < UINTPTR_MAX"
      using tq_okD(7)[OF ok] by auto
    show "distinct (tq_active ?q)"
      using tq_okD(8)[OF ok] act by (simp add: distinct_insort)
    show "\<forall>r sq. (r, sq) \<in> set (tq_active ?q) \<longleftrightarrow>
        (\<exists>w tm. (w, r) \<in> set (tq_timers ?q) \<and> tq_heap ?q r = Some tm \<and> tm_sequence tm = sq)"
      using ok tm by (auto simp: set_insort_key tq_ok_def)
  qed
  have "insert_timer me p q = Inr (tq_timers q = [] \<or> tm_expiration tm < fst (hd (tq_timers q)), ?q)"
    using ok ok' me tm fresh' act
    by (simp add: insert_timer_def tq_assertInLoopThread_def Let_def)
  with ok' show ?thesis using that by blast
qed

lemma addTimerInLoop_ok:
  assumes ok: "tq_ok X q" and p: "p \<in> set X" and tm: "tq_heap q p = Some tm"
    and me: "me = tq_threadId q"
  obtains q' where "addTimerInLoop me now p q = Inr q'" "tq_ok (remove1 p X) q'"
    "tq_timers q' = insort (tm_expiration tm, p) (tq_timers q)"
    "tq_heap q' = tq_heap q" "tq_threadId q' = tq_threadId q" "tq_canceling q' = tq_canceling q"
    "tq_calling q' = tq_calling q"
proof -
  obtain q1 where q1:
    "insert_timer me p q = Inr (tq_timers q = [] \<or> tm_expiration tm < fst (hd (tq_timers q)), q1)"
    "tq_ok (remove1 p X) q1"
    "q1 = q\<lparr>tq_timers := insort (tm_expiration tm, p) (tq_timers q),
            tq_active := insort (p, tm_sequence tm) (tq_active q)\<rparr>"
    using ok p tm me by (rule insert_timer_ok)
  show ?thesis
  proof (cases "tq_timers q = [] \<or> tm_expiration tm < fst (hd (tq_timers q))")
    case True
    with q1 tm me show ?thesis
      by (intro that[of "resetTimerfd now (tm_expiration tm) q1"])
         (simp_all add: addTimerInLoop_def tq_assertInLoopThread_def)
  next
    case False
    with q1 me show ?thesis
      by (intro that[of q1]) (simp_all add: addTimerInLoop_def tq_assertInLoopThread_def)
  qed
qed

text \<open>What the code relies on of \<open>new\<close>: the address is not in use and is not the sentry's.\<close>

definition alloc_ok :: "((ptr \<Rightarrow> bool) \<Rightarrow> ptr option) \<Rightarrow> bool" where
  "alloc_ok alloc \<longleftrightarrow> (\<forall>used p. alloc used = Some p \<longrightarrow> \<not> used p \<and> p < UINTPTR_MAX)"

lemma alloc_okD:
  "alloc_ok alloc \<Longrightarrow> alloc used = Some p \<Longrightarrow> \<not> used p \<and> p < UINTPTR_MAX"
  unfolding alloc_ok_def by blast

text \<open>The fields that calls made by callbacks leave alone, or only let grow.\<close>

definition tq_frame :: "ptr list \<Rightarrow> 'cb timer_queue \<Rightarrow> 'cb timer_queue \<Rightarrow> bool" where
  "tq_frame X q q' \<longleftrightarrow> tq_threadId q' = tq_threadId q \<and> tq_calling q' = tq_calling q
     \<and> (\<forall>p \<in> set X. tq_heap q' p = tq_heap q p)
     \<and> set (tq_canceling q) \<subseteq> set (tq_canceling q')"

lemma tq_frame_refl [simp]: "tq_frame X q q"
  by (simp add: tq_frame_def)

lemma tq_frame_trans: "tq_frame X q q1 \<Longrightarrow> tq_frame X q1 q2 \<Longrightarrow> tq_frame X q q2"
  by (auto simp: tq_frame_def)

lemma addTimer_ok:
  assumes ok: "tq_ok X q" and al: "alloc_ok alloc" and me: "me = tq_threadId q"
  shows "rpost {BadAlloc} (\<lambda>(tid, q'). tq_ok X q' \<and> tq_frame X q q' \<and> tid \<in> set (tq_active q')
           \<and> tq_canceling q' = tq_canceling q)
           (addTimer alloc me now cb when interval q)"
proof (cases "alloc (\<lambda>p. tq_heap q p \<noteq> None)")
  case None
  then show ?thesis by (simp add: addTimer_def)
next
  case (Some p)
  have p: "tq_heap q p = None" "p < UINTPTR_MAX"
    using alloc_okD[OF al Some] by simp_all
  let ?sq = "s_numCreated q + 1"
  let ?tm = "mk_timer cb when interval ?sq"
  let ?q0 = "q\<lparr>s_numCreated := ?sq\<rparr>"
  let ?q1 = "?q0\<lparr>tq_heap := (tq_heap ?q0)(p \<mapsto> ?tm)\<rparr>"
  have "tq_ok (p # X) ?q1" using ok p by (intro tq_ok_new) simp_all
  then obtain q' where q': "addTimerInLoop me now p ?q1 = Inr q'" "tq_ok (remove1 p (p # X)) q'"
    "tq_timers q' = insort (tm_expiration ?tm, p) (tq_timers ?q1)"
    "tq_heap q' = tq_heap ?q1" "tq_threadId q' = tq_threadId ?q1"
    "tq_canceling q' = tq_canceling ?q1" "tq_calling q' = tq_calling ?q1"
    by (rule addTimerInLoop_ok[where p = p and tm = ?tm]) (use me in simp_all)
  have "p \<notin> set X" using p(1) tq_okD(5)[OF ok] by auto
  moreover have "(p, ?sq) \<in> set (tq_active q')"
    using tq_ok_active[OF q'(2), of p ?tm] q'(3,4) by (force simp: set_insort_key mk_timer_def)
  ultimately show ?thesis
    using q' Some by (auto simp: addTimer_def atomic_defs Let_def tq_frame_def)
qed

lemma tq_ok_delete_filed:
  assumes ok: "tq_ok X q" and e: "(w, p) \<in> set (tq_timers q)" and tm: "tq_heap q p = Some tm"
    and sq: "tm_sequence tm = sq"
  shows "tq_ok X (delete_timer p (q\<lparr>tq_timers := remove1 (w, p) (tq_timers q),
            tq_active := remove1 (p, sq) (tq_active q)\<rparr>))" (is "tq_ok X ?q")
proof -
  have d: "distinct (tq_timers q)" using tq_okD(2)[OF ok] by (simp add: distinct_map)
  have uniq: "(w', p) \<in> set (tq_timers q) \<Longrightarrow> w' = w" for w'
    using tq_okD(2)[OF ok] e inj_onD[of snd "set (tq_timers q)" "(w', p)" "(w, p)"]
    by (simp add: distinct_map)
  have t: "set (tq_timers ?q) = {x \<in> set (tq_timers q). snd x \<noteq> p}"
  proof -
    have "set (tq_timers ?q) = set (tq_timers q) - {(w, p)}"
      using d by (simp add: delete_timer_def)
    also have "\<dots> = {x \<in> set (tq_timers q). snd x \<noteq> p}"
    proof (intro set_eqI)
      fix x :: timer_entry
      obtain w' p' where "x = (w', p')" by (cases x)
      with uniq[of w'] e show "x \<in> set (tq_timers q) - {(w, p)} \<longleftrightarrow> x \<in> {x \<in> set (tq_timers q). snd x \<noteq> p}"
        by (cases "p' = p") auto
    qed
    finally show ?thesis .
  qed
  have a: "set (tq_active ?q) = {x \<in> set (tq_active q). fst x \<noteq> p}"
  proof -
    have "set (tq_active ?q) = set (tq_active q) - {(p, sq)}"
      using tq_okD(8)[OF ok] by (simp add: delete_timer_def)
    then show ?thesis using tq_ok_active[OF ok tm] sq by auto
  qed
  have h: "tq_heap ?q = (tq_heap q)(p := None)" by (simp add: delete_timer_def)
  have pX: "p \<notin> set X" using tq_okD(6)[OF ok] e by force
  show ?thesis
    unfolding tq_ok_def
  proof (intro conjI)
    show "sorted (tq_timers ?q)" using tq_okD(1)[OF ok] by (simp add: delete_timer_def sorted_remove1)
    have "distinct (map snd (remove1 (w, p) (tq_timers q)))"
      using tq_okD(2)[OF ok] by (simp add: distinct_map inj_on_def)
    then show "distinct (map snd (tq_timers ?q) @ X)"
      using tq_okD(3,6)[OF ok] t by (auto simp: delete_timer_def)
    show "\<forall>(w, p)\<in>set (tq_timers ?q). \<exists>tm. tq_heap ?q p = Some tm \<and> tm_expiration tm = w"
      unfolding t h using tq_okD(4)[OF ok] by auto
    show "dom (tq_heap ?q) = snd ` set (tq_timers ?q) \<union> set X"
      unfolding t h using tq_okD(5)[OF ok] pX by auto
    show "\<forall>p\<in>dom (tq_heap ?q). p < UINTPTR_MAX"
      unfolding h using tq_okD(7)[OF ok] by auto
    show "distinct (tq_active ?q)" using tq_okD(8)[OF ok] by (simp add: delete_timer_def)
    show "\<forall>r sq. (r, sq) \<in> set (tq_active ?q) \<longleftrightarrow>
        (\<exists>w tm. (w, r) \<in> set (tq_timers ?q) \<and> tq_heap ?q r = Some tm \<and> tm_sequence tm = sq)"
      unfolding a t h using ok by (auto simp: tq_ok_def)
  qed
qed

lemma cancelInLoop_ok:
  assumes ok: "tq_ok X q" and me: "me = tq_threadId q"
  obtains q' where "cancelInLoop me tid q = Inr q'" "tq_ok X q'" "tq_frame X q q'"
    "tid \<notin> set (tq_active q')"
    "tid \<notin> set (tq_active q) \<Longrightarrow> tq_calling q \<Longrightarrow> tid \<in> set (tq_canceling q')"
proof (cases "tid \<in> set (tq_active q)")
  case True
  obtain p sq where tid: "tid = (p, sq)" by (cases tid)
  obtain tm where tm: "tq_heap q p = Some tm" "tm_sequence tm = sq"
    "(tm_expiration tm, p) \<in> set (tq_timers q)"
    using ok True[unfolded tid] by (rule tq_ok_activeD)
  let ?q = "delete_timer p (q\<lparr>tq_timers := remove1 (tm_expiration tm, p) (tq_timers q),
              tq_active := remove1 (p, sq) (tq_active q)\<rparr>)"
  have ok': "tq_ok X ?q" using ok tm(3,1,2) by (rule tq_ok_delete_filed)
  have "p \<notin> set X" using tq_okD(6)[OF ok] tm(3) by force
  then have fr: "tq_frame X q ?q" by (simp add: tq_frame_def delete_timer_def)
  have na: "tid \<notin> set (tq_active ?q)"
    using tq_okD(8)[OF ok] by (simp add: tid delete_timer_def)
  have "cancelInLoop me tid q = Inr ?q"
    using ok ok' me True tm tid by (simp add: cancelInLoop_def tq_assertInLoopThread_def)
  then show ?thesis using ok' fr na True that[of ?q] by blast
next
  case False
  let ?q = "if tq_calling q then q\<lparr>tq_canceling :=
                   (if tid \<in> set (tq_canceling q) then tq_canceling q
                    else insort tid (tq_canceling q))\<rparr> else q"
  have ok': "tq_ok X ?q" using ok by simp
  have "cancelInLoop me tid q = Inr ?q"
    using False me ok by (auto simp: cancelInLoop_def tq_assertInLoopThread_def sizes_agree_def
        dest: tq_ok_sizes)
  moreover have "tq_frame X q ?q" by (auto simp: tq_frame_def set_insort_key)
  ultimately show ?thesis using ok' False
    by (intro that[of ?q]) (auto simp: set_insort_key)
qed

lemma exec_call_ok:
  assumes ok: "tq_ok X q" and al: "alloc_ok alloc" and me: "me = tq_threadId q"
  shows "rpost {BadAlloc} (\<lambda>q'. tq_ok X q' \<and> tq_frame X q q') (exec_call alloc me c q)"
proof (cases c)
  case (CallAdd now cb expiry interval)
  show ?thesis
    unfolding CallAdd exec_call.simps
    by (rule rpost_rbind[OF addTimer_ok[OF ok al me]]) auto
next
  case (CallCancel tid)
  obtain q' where "cancelInLoop me tid q = Inr q'" "tq_ok X q'" "tq_frame X q q'"
    using ok me by (rule cancelInLoop_ok)
  then show ?thesis by (simp add: CallCancel)
qed

text \<open>\<open>calls_ok X q s\<close>: what holds of the queue while the calls of callbacks are made from \<open>q\<close>.\<close>

definition calls_ok :: "ptr list \<Rightarrow> 'cb timer_queue \<Rightarrow> 'cb timer_queue \<Rightarrow> bool" where
  "calls_ok X q s \<longleftrightarrow> tq_ok X s \<and> tq_frame X q s"

lemma calls_ok_heap: "calls_ok X q s \<Longrightarrow> p \<in> set X \<Longrightarrow> tq_heap s p = tq_heap q p"
  by (simp add: calls_ok_def tq_frame_def)

lemma calls_ok_exec:
  assumes "calls_ok X q s" and "alloc_ok alloc" and "me = tq_threadId q"
  shows "rpost {BadAlloc} (calls_ok X q) (exec_call alloc me c s)"
proof -
  have "me = tq_threadId s" "tq_ok X s" using assms by (simp_all add: calls_ok_def tq_frame_def)
  with assms(2) have "rpost {BadAlloc} (\<lambda>q'. tq_ok X q' \<and> tq_frame X s q') (exec_call alloc me c s)"
    by (intro exec_call_ok)
  then show ?thesis
    by (rule rpost_mono) (use assms(1) tq_frame_trans in \<open>auto simp: calls_ok_def\<close>)
qed

lemma calls_ok_run_timer:
  assumes "calls_ok X q s" and "alloc_ok alloc" and "me = tq_threadId q"
    and "snd it \<in> set X" and "tq_ok X q"
  shows "rpost {BadAlloc} (calls_ok X q) (run_timer alloc script me it s)"
proof -
  have "snd it \<in> dom (tq_heap s)"
    using tq_okD(5)[of X s] assms(1,4) by (simp add: calls_ok_def)
  then obtain tm where "tq_heap s (snd it) = Some tm" by auto
  moreover have "rpost {BadAlloc} (calls_ok X q) (rfold (exec_call alloc me) l s)" for l
    using assms(1) by (rule rpost_rfold) (rule calls_ok_exec[OF _ assms(2,3)])
  ultimately show ?thesis by (simp add: run_timer_def)
qed

section \<open>Taking out the expired timers\<close>

lemma sentry_less:
  "p < UINTPTR_MAX \<Longrightarrow> (w, p) < (now, UINTPTR_MAX) \<longleftrightarrow> w \<le> (now :: timestamp)"
  by (auto simp: less_prod_def')

lemma takeWhile_sorted_fst:
  "sorted (xs :: timer_entry list) \<Longrightarrow> takeWhile (\<lambda>e. fst e \<le> now) xs = filter (\<lambda>e. fst e \<le> now) xs"
  "sorted xs \<Longrightarrow> dropWhile (\<lambda>e. fst e \<le> now) xs = filter (\<lambda>e. now < fst e) xs"
proof (induction xs)
  case (Cons a xs)
  have later: "fst a \<le> fst b" if "sorted (a # xs)" "b \<in> set xs" for b
    using that by (auto simp: less_eq_prod_def intro: less_imp_le)
  {
    case 1
    have "filter (\<lambda>e. fst e \<le> now) xs = []" if "now < fst a"
      using later[OF 1] that by (fastforce simp: filter_empty_conv)
    then show ?case using Cons.IH(1) 1 by (auto simp: not_le)
  next
    case 2
    have "filter (\<lambda>e. now < fst e) xs = xs" if "now < fst a"
      using later[OF 2] that by (fastforce intro!: filter_True)
    then show ?case using Cons.IH(2) 2 by (auto simp: not_le)
  }
qed simp_all

lemma erase_active_all:
  assumes "distinct (map snd xs)" and "distinct (tq_active q)"
    and "\<And>w p. (w, p) \<in> set xs \<Longrightarrow>
      \<exists>tm. tq_heap q p = Some tm \<and> (\<forall>sq. (p, sq) \<in> set (tq_active q) \<longleftrightarrow> sq = tm_sequence tm)"
  shows "rfold erase_active xs q = Inr (q\<lparr>tq_active := filter (\<lambda>a. fst a \<notin> snd ` set xs) (tq_active q)\<rparr>)"
  using assms
proof (induction xs arbitrary: q)
  case Nil
  then show ?case by simp
next
  case (Cons x xs)
  obtain w p where x: "x = (w, p)" by (cases x)
  then have "(w, p) \<in> set (x # xs)" by simp
  from Cons.prems(3)[OF this] obtain tm where tm: "tq_heap q p = Some tm"
    "\<And>sq. (p, sq) \<in> set (tq_active q) \<longleftrightarrow> sq = tm_sequence tm" by blast
  let ?q = "q\<lparr>tq_active := remove1 (p, tm_sequence tm) (tq_active q)\<rparr>"
  have r: "remove1 (p, tm_sequence tm) (tq_active q) = filter (\<lambda>a. fst a \<noteq> p) (tq_active q)"
  proof -
    have "remove1 (p, tm_sequence tm) (tq_active q) = filter (\<lambda>a. a \<noteq> (p, tm_sequence tm)) (tq_active q)"
      using Cons.prems(2) by (simp add: distinct_remove1_removeAll removeAll_filter_not_eq eq_commute)
    also have "\<dots> = filter (\<lambda>a. fst a \<noteq> p) (tq_active q)"
    proof (rule filter_cong[OF refl])
      fix a assume a: "a \<in> set (tq_active q)"
      obtain p' sq where "a = (p', sq)" by (cases a)
      with a tm(2)[of sq] show "(a \<noteq> (p, tm_sequence tm)) \<longleftrightarrow> (fst a \<noteq> p)"
        by (cases "p' = p") simp_all
    qed
    finally show ?thesis .
  qed
  have "p \<notin> snd ` set xs" using Cons.prems(1) x by auto
  have "rfold erase_active xs ?q
      = Inr (?q\<lparr>tq_active := filter (\<lambda>a. fst a \<notin> snd ` set xs) (tq_active ?q)\<rparr>)"
  proof (rule Cons.IH)
    fix w' p'
    assume in_xs: "(w', p') \<in> set xs"
    then have "p' \<noteq> p" using \<open>p \<notin> snd ` set xs\<close> by force
    then show "\<exists>tm. tq_heap ?q p' = Some tm \<and> (\<forall>sq. (p', sq) \<in> set (tq_active ?q) \<longleftrightarrow> sq = tm_sequence tm)"
      using Cons.prems(3)[of w' p'] in_xs unfolding r by simp
  qed (use Cons.prems(1,2) in simp_all)
  moreover have "erase_active x q = Inr ?q"
    using tm by (simp add: x erase_active_def)
  moreover have "filter (\<lambda>a. fst a \<notin> snd ` set xs) (filter (\<lambda>a. fst a \<noteq> p) (tq_active q))
      = filter (\<lambda>a. fst a \<notin> snd ` set (x # xs)) (tq_active q)"
    unfolding filter_filter by (rule filter_cong) (use x in auto)
  ultimately show ?case unfolding r by simp
qed

lemma getExpired_ok:
  fixes now :: timestamp
  assumes ok: "tq_ok Y q"
  defines "expired \<equiv> filter (\<lambda>e. fst e \<le> now) (tq_timers q)"
  obtains q' where "getExpired now q = Inr (expired, q')" "tq_ok (map snd expired @ Y) q'"
    "tq_timers q' = filter (\<lambda>e. now < fst e) (tq_timers q)"
    "tq_heap q' = tq_heap q" "tq_threadId q' = tq_threadId q"
proof -
  let ?T = "tq_timers q"
  let ?rest = "filter (\<lambda>e. now < fst e) ?T"
  have srt: "sorted ?T" by (rule tq_okD(1)[OF ok])
  have bound: "snd e < UINTPTR_MAX" if "e \<in> set ?T" for e
    using tq_okD(7)[OF ok] tq_okD(5)[OF ok] that by force
  have s: "(e < (now, UINTPTR_MAX)) \<longleftrightarrow> fst e \<le> now" if "e \<in> set ?T" for e
    using sentry_less[OF bound[OF that], of "fst e" now] by simp
  have tk: "takeWhile (\<lambda>e. e < (now, UINTPTR_MAX)) ?T = expired"
    unfolding expired_def takeWhile_sorted_fst(1)[OF srt, symmetric]
    by (rule takeWhile_cong) (simp_all add: s)
  have dr: "dropWhile (\<lambda>e. e < (now, UINTPTR_MAX)) ?T = ?rest"
    unfolding takeWhile_sorted_fst(2)[OF srt, symmetric]
    by (rule dropWhile_cong) (simp_all add: s)
  have hd: "?rest = [] \<or> now < fst (hd ?rest)"
    using list.set_sel(1)[of ?rest] by auto
  let ?q1 = "q\<lparr>tq_timers := ?rest\<rparr>"
  let ?q2 = "?q1\<lparr>tq_active := filter (\<lambda>a. fst a \<notin> snd ` set expired) (tq_active ?q1)\<rparr>"
  have er: "rfold erase_active expired ?q1 = Inr ?q2"
  proof (rule erase_active_all)
    show "distinct (map snd expired)"
      unfolding expired_def by (rule distinct_map_filter) (rule tq_okD(2)[OF ok])
    show "distinct (tq_active ?q1)" using tq_okD(8)[OF ok] by simp
    fix w p assume e: "(w, p) \<in> set expired"
    then have wp: "(w, p) \<in> set ?T" by (simp add: expired_def)
    with ok have "\<exists>tm. tq_heap q p = Some tm \<and> tm_expiration tm = w" by (rule tq_okD)
    then obtain tm where "tq_heap q p = Some tm" by blast
    moreover have "p \<in> snd ` set ?T" using wp by force
    ultimately show "\<exists>tm. tq_heap ?q1 p = Some tm
        \<and> (\<forall>sq. (p, sq) \<in> set (tq_active ?q1) \<longleftrightarrow> sq = tm_sequence tm)"
      using tq_ok_active[OF ok] by simp
  qed
  have uniq: "(w, p) \<in> set ?T \<Longrightarrow> (w', p) \<in> set ?T \<Longrightarrow> w' = w" for w w' p
    using tq_okD(2)[OF ok] inj_onD[of snd "set ?T" "(w', p)" "(w, p)"]
    by (simp add: distinct_map)
  have split: "snd ` set ?T = snd ` set ?rest \<union> snd ` set expired"
    unfolding expired_def image_Un[symmetric] by (rule arg_cong[where f = "image snd"]) auto
  have disj: "snd ` set ?rest \<inter> snd ` set expired = {}"
  proof -
    have False if e: "(w, p) \<in> set ?rest" "(w', p) \<in> set expired" for w w' p
    proof -
      have "w' = w" using e by (intro uniq[of w p w']) (simp_all add: expired_def)
      with e show False by (auto simp: expired_def dest: leD)
    qed
    then show ?thesis by force
  qed
  have ok2: "tq_ok (map snd expired @ Y) ?q2"
    unfolding tq_ok_def
  proof (intro conjI)
    show "sorted (tq_timers ?q2)" using srt by (simp add: sorted_wrt_filter)
    show "distinct (map snd (tq_timers ?q2) @ map snd expired @ Y)"
      using disj tq_okD(2,3,6)[OF ok] by (auto simp: expired_def distinct_map_filter)
    show "\<forall>(w, p)\<in>set (tq_timers ?q2). \<exists>tm. tq_heap ?q2 p = Some tm \<and> tm_expiration tm = w"
      using tq_okD(4)[OF ok] by auto
    show "dom (tq_heap ?q2) = snd ` set (tq_timers ?q2) \<union> set (map snd expired @ Y)"
      using tq_okD(5)[OF ok] split by auto
    show "\<forall>p\<in>dom (tq_heap ?q2). p < UINTPTR_MAX" using tq_okD(7)[OF ok] by auto
    show "distinct (tq_active ?q2)" using tq_okD(8)[OF ok] by simp
    show "\<forall>p sq. (p, sq) \<in> set (tq_active ?q2) \<longleftrightarrow>
        (\<exists>w tm. (w, p) \<in> set (tq_timers ?q2) \<and> tq_heap ?q2 p = Some tm \<and> tm_sequence tm = sq)"
    proof (intro allI)
      fix p sq
      have "(p, sq) \<in> set (tq_active q) \<longleftrightarrow>
          (\<exists>w tm. (w, p) \<in> set ?T \<and> tq_heap q p = Some tm \<and> tm_sequence tm = sq)"
        using ok by (simp add: tq_ok_def)
      moreover have "p \<notin> snd ` set expired \<and> (w, p) \<in> set ?T \<longleftrightarrow> (w, p) \<in> set ?rest" for w
        using disj by (force simp: expired_def)
      ultimately show "(p, sq) \<in> set (tq_active ?q2) \<longleftrightarrow>
          (\<exists>w tm. (w, p) \<in> set (tq_timers ?q2) \<and> tq_heap ?q2 p = Some tm \<and> tm_sequence tm = sq)"
        by auto
    qed
  qed
  have "getExpired now q = Inr (expired, ?q2)"
    using tq_ok_sizes[OF ok] tq_ok_sizes[OF ok2] er hd unfolding getExpired_def tk dr Let_def by simp
  then show ?thesis using ok2 by (intro that[of ?q2]) simp_all
qed

section \<open>Filing the expired timers again\<close>

text \<open>Which of the expired timers is filed again: a repeating one that nobody canceled.\<close>

definition rearmed :: "timestamp \<Rightarrow> active_timer list \<Rightarrow> ptr \<Rightarrow> 'cb timer \<Rightarrow> 'cb timer option" where
  "rearmed now canceling p tm =
    (if tm_repeat tm \<and> (p, tm_sequence tm) \<notin> set canceling then Some (restart now tm) else None)"

lemma reset_one_ok:
  assumes ok: "tq_ok X q" and p: "snd it \<in> set X" and tm: "tq_heap q (snd it) = Some tm"
    and me: "me = tq_threadId q"
  obtains q' where "reset_one me now it q = Inr q'" "tq_ok (remove1 (snd it) X) q'"
    "tq_heap q' = (tq_heap q)(snd it := rearmed now (tq_canceling q) (snd it) tm)"
    "tq_threadId q' = tq_threadId q" "tq_canceling q' = tq_canceling q"
    "tq_calling q' = tq_calling q" "tq_timerfd q' = tq_timerfd q"
proof (cases "tm_repeat tm \<and> (snd it, tm_sequence tm) \<notin> set (tq_canceling q)")
  case True
  let ?q = "q\<lparr>tq_heap := (tq_heap q)(snd it \<mapsto> restart now tm)\<rparr>"
  have rt: "tq_heap ?q (snd it) = Some (restart now tm)" and th: "me = tq_threadId ?q"
    using me by simp_all
  have "tq_ok X ?q" using ok p by (rule tq_ok_touch)
  then obtain q' where "insert_timer me (snd it) ?q
      = Inr (tq_timers ?q = [] \<or> tm_expiration (restart now tm) < fst (hd (tq_timers ?q)), q')"
    "tq_ok (remove1 (snd it) X) q'"
    "q' = ?q\<lparr>tq_timers := insort (tm_expiration (restart now tm), snd it) (tq_timers ?q),
            tq_active := insort (snd it, tm_sequence (restart now tm)) (tq_active ?q)\<rparr>"
    using p rt th by (rule insert_timer_ok)
  then show ?thesis using True tm
    by (intro that[of q']) (simp_all add: reset_one_def rearmed_def)
next
  case False
  let ?q = "delete_timer (snd it) q"
  have out: "snd it \<notin> snd ` set (tq_timers q)" using tq_okD(6)[OF ok] p by blast
  have "tq_ok (remove1 (snd it) X) ?q"
    unfolding tq_ok_def
  proof (intro conjI)
    show "dom (tq_heap ?q) = snd ` set (tq_timers ?q) \<union> set (remove1 (snd it) X)"
      using tq_okD(3,5)[OF ok] out by (auto simp: delete_timer_def)
    show "distinct (map snd (tq_timers ?q) @ remove1 (snd it) X)"
      using tq_okD(2,3,6)[OF ok] by (auto simp: delete_timer_def)
    have same: "tq_heap ?q p = tq_heap q p" if "(w, p) \<in> set (tq_timers q)" for w p
      using out that by (auto simp: delete_timer_def image_iff)
    have tms: "tq_timers ?q = tq_timers q" "tq_active ?q = tq_active q"
      by (simp_all add: delete_timer_def)
    show "\<forall>(w, p)\<in>set (tq_timers ?q). \<exists>tm. tq_heap ?q p = Some tm \<and> tm_expiration tm = w"
    proof clarify
      fix w p assume "(w, p) \<in> set (tq_timers ?q)"
      then show "\<exists>tm. tq_heap ?q p = Some tm \<and> tm_expiration tm = w"
        unfolding tms using tq_okD(4)[OF ok, of w p] same[of w p] by simp
    qed
    show "\<forall>p sq. (p, sq) \<in> set (tq_active ?q) \<longleftrightarrow>
       (\<exists>w tm. (w, p) \<in> set (tq_timers ?q) \<and> tq_heap ?q p = Some tm \<and> tm_sequence tm = sq)"
    proof (intro allI)
      fix p sq
      have "(p, sq) \<in> set (tq_active q) \<longleftrightarrow>
          (\<exists>w tm. (w, p) \<in> set (tq_timers q) \<and> tq_heap q p = Some tm \<and> tm_sequence tm = sq)"
        using ok by (simp add: tq_ok_def)
      also have "\<dots> \<longleftrightarrow>
          (\<exists>w tm. (w, p) \<in> set (tq_timers q) \<and> tq_heap ?q p = Some tm \<and> tm_sequence tm = sq)"
        using same[of _ p] by (intro iff_exI conj_cong) simp_all
      finally show "(p, sq) \<in> set (tq_active ?q) \<longleftrightarrow>
       (\<exists>w tm. (w, p) \<in> set (tq_timers ?q) \<and> tq_heap ?q p = Some tm \<and> tm_sequence tm = sq)"
        unfolding tms .
    qed
  qed (use tq_okD(1,7,8)[OF ok] in \<open>auto simp: delete_timer_def\<close>)
  moreover have "reset_one me now it q = Inr ?q"
    using False tm by (auto simp: reset_one_def)
  ultimately show ?thesis using False
    by (intro that[of ?q]) (auto simp: rearmed_def delete_timer_def)
qed

definition rearm_all :: "timestamp \<Rightarrow> active_timer list \<Rightarrow> ptr set \<Rightarrow> (ptr \<Rightarrow> 'cb timer option) \<Rightarrow>
    ptr \<Rightarrow> 'cb timer option" where
  "rearm_all now canceling P h p =
    (if p \<in> P then Option.bind (h p) (rearmed now canceling p) else h p)"

lemma rearm_all_insert:
  "p \<notin> P \<Longrightarrow> h p = Some tm \<Longrightarrow>
   rearm_all now c P (h(p := rearmed now c p tm)) = rearm_all now c (insert p P) h"
  by (rule ext) (auto simp: rearm_all_def)

lemma rearm_all_empty [simp]: "rearm_all now c {} h = h"
  by (rule ext) (simp add: rearm_all_def)

lemma reset_fold_ok:
  assumes "tq_ok (map snd xs @ Y) q" and "me = tq_threadId q"
  obtains q' where "rfold (reset_one me now) xs q = Inr q'" "tq_ok Y q'"
    "tq_heap q' = rearm_all now (tq_canceling q) (snd ` set xs) (tq_heap q)"
    "tq_threadId q' = tq_threadId q" "tq_canceling q' = tq_canceling q"
    "tq_calling q' = tq_calling q" "tq_timerfd q' = tq_timerfd q"
  using assms
proof (induction xs arbitrary: q thesis)
  case Nil
  show ?case by (rule Nil(1)[of q]) (use Nil(2) in simp_all)
next
  case (Cons x xs)
  have x: "snd x \<in> set (map snd (x # xs) @ Y)" by simp
  have nx: "snd x \<notin> snd ` set xs" using tq_okD(3)[OF Cons.prems(2)] by simp
  have "snd x \<in> dom (tq_heap q)" using tq_okD(5)[OF Cons.prems(2)] by simp
  then obtain tm where tm: "tq_heap q (snd x) = Some tm" by auto
  obtain q1 where q1: "reset_one me now x q = Inr q1" "tq_ok (remove1 (snd x) (map snd (x # xs) @ Y)) q1"
    "tq_heap q1 = (tq_heap q)(snd x := rearmed now (tq_canceling q) (snd x) tm)"
    "tq_threadId q1 = tq_threadId q" "tq_canceling q1 = tq_canceling q"
    "tq_calling q1 = tq_calling q" "tq_timerfd q1 = tq_timerfd q"
    using Cons.prems(2) x tm Cons.prems(3) by (rule reset_one_ok)
  have ok1: "tq_ok (map snd xs @ Y) q1" using q1(2) by simp
  have me1: "me = tq_threadId q1" using Cons.prems(3) q1(4) by simp
  obtain q2 where q2: "rfold (reset_one me now) xs q1 = Inr q2" "tq_ok Y q2"
    "tq_heap q2 = rearm_all now (tq_canceling q1) (snd ` set xs) (tq_heap q1)"
    "tq_threadId q2 = tq_threadId q1" "tq_canceling q2 = tq_canceling q1"
    "tq_calling q2 = tq_calling q1" "tq_timerfd q2 = tq_timerfd q1"
    using Cons.IH[OF _ ok1 me1] by blast
  have "tq_heap q2 = rearm_all now (tq_canceling q) (snd ` set (x # xs)) (tq_heap q)"
    unfolding q2(3) q1(3,5) using rearm_all_insert[where h = "tq_heap q", OF nx tm] by simp
  then show ?case using q1 q2 by (intro Cons.prems(1)[of q2]) simp_all
qed

lemma timer_heap_eq:
  assumes "tq_ok Y q" and "tq_timers q = e # es"
  obtains tm where "tq_heap q (snd e) = Some tm" "tm_expiration tm = fst e"
proof -
  have "(fst e, snd e) \<in> set (tq_timers q)" using assms(2) by simp
  with assms(1) have "\<exists>tm. tq_heap q (snd e) = Some tm \<and> tm_expiration tm = fst e"
    by (rule tq_okD)
  then show ?thesis using that by blast
qed

text \<open>The descriptor is set for the first timer of the set, when that has a valid expiration.\<close>

definition timerfd_armed :: "timestamp \<Rightarrow> 'cb timer_queue \<Rightarrow> bool" where
  "timerfd_armed now q =
    (case tq_timers q of [] \<Rightarrow> True
     | e # _ \<Rightarrow> ts_valid (fst e) \<longrightarrow> tq_timerfd q = Some (now, howMuchTimeFromNow now (fst e)))"

lemma reset_timers_ok:
  assumes "tq_ok (map snd xs @ Y) q" and "me = tq_threadId q"
  obtains q' where "reset_timers me now now' xs q = Inr q'" "tq_ok Y q'"
    "tq_heap q' = rearm_all now (tq_canceling q) (snd ` set xs) (tq_heap q)"
    "tq_canceling q' = tq_canceling q" "tq_calling q' = tq_calling q"
    "timerfd_armed now' q'"
proof -
  obtain q1 where q1: "rfold (reset_one me now) xs q = Inr q1" "tq_ok Y q1"
    "tq_heap q1 = rearm_all now (tq_canceling q) (snd ` set xs) (tq_heap q)"
    "tq_threadId q1 = tq_threadId q" "tq_canceling q1 = tq_canceling q"
    "tq_calling q1 = tq_calling q" "tq_timerfd q1 = tq_timerfd q"
    using assms by (rule reset_fold_ok[where now = now])
  show ?thesis
  proof (cases "tq_timers q1")
    case Nil
    then show ?thesis using q1
      by (intro that[of q1]) (simp_all add: reset_timers_def ts_valid_def ts_invalid_def timerfd_armed_def)
  next
    case (Cons e es)
    obtain tm where tm: "tq_heap q1 (snd e) = Some tm" "tm_expiration tm = fst e"
      using q1(2) Cons by (rule timer_heap_eq)
    show ?thesis
      using q1 Cons tm
      by (intro that[of "if ts_valid (fst e) then resetTimerfd now' (fst e) q1 else q1"])
         (simp_all add: reset_timers_def timerfd_armed_def)
  qed
qed

section \<open>The expiry handler\<close>

lemma run_expired_ok:
  assumes ok: "tq_ok (map snd xs @ Y) q" and al: "alloc_ok alloc" and me: "me = tq_threadId q"
    and sub: "set ys \<subseteq> set xs"
  shows "rpost {BadAlloc} (calls_ok (map snd xs @ Y) q) (rfold (run_timer alloc script me) ys q)"
proof (rule rpost_rfold)
  show "calls_ok (map snd xs @ Y) q q" using ok by (simp add: calls_ok_def)
  fix x s assume "x \<in> set ys" "calls_ok (map snd xs @ Y) q s"
  then show "rpost {BadAlloc} (calls_ok (map snd xs @ Y) q) (run_timer alloc script me x s)"
    using sub by (intro calls_ok_run_timer[OF _ al me _ ok]) auto
qed

text \<open>
  The handler taken apart: the expired timers are those at or before \<open>now\<close>; the callbacks ran
  in some state \<open>s\<close> reached from there; the rest is the reset loop.
\<close>

lemma tq_handleRead_stages:
  assumes ok: "tq_ok Y q" and al: "alloc_ok alloc" and me: "me = tq_threadId q"
    and run: "tq_handleRead alloc script me now now' q = Inr q'"
  defines "xs \<equiv> filter (\<lambda>e. fst e \<le> now) (tq_timers q)"
  obtains q1 s where
    "tq_ok (map snd xs @ Y) q1" "tq_heap q1 = tq_heap q" "tq_calling q1" "tq_canceling q1 = []"
    "tq_threadId q1 = me"
    "rfold (run_timer alloc script me) xs q1 = Inr s" "calls_ok (map snd xs @ Y) q1 s"
    "tq_ok Y q'" "tq_heap q' = rearm_all now (tq_canceling s) (snd ` set xs) (tq_heap s)"
    "tq_canceling q' = tq_canceling s" "\<not> tq_calling q'" "timerfd_armed now' q'"
proof -
  obtain q0 where q0: "getExpired now (readTimerfd q) = Inr (xs, q0)" "tq_ok (map snd xs @ Y) q0"
    "tq_heap q0 = tq_heap q" "tq_threadId q0 = tq_threadId q"
    unfolding xs_def using getExpired_ok[of Y "readTimerfd q" now] ok by auto
  let ?q1 = "q0\<lparr>tq_calling := True, tq_canceling := []\<rparr>"
  from run obtain s where s: "rfold (run_timer alloc script me) xs ?q1 = Inr s"
    "reset_timers me now now' xs (s\<lparr>tq_calling := False\<rparr>) = Inr q'"
    using q0(1) me by (auto simp: tq_handleRead_def tq_assertInLoopThread_def rbind_eq_Inr_iff)
  have ok1: "tq_ok (map snd xs @ Y) ?q1" using q0(2) by simp
  have me1: "me = tq_threadId ?q1" using q0(4) me by simp
  have calls: "calls_ok (map snd xs @ Y) ?q1 s"
    using run_expired_ok[OF ok1 al me1 order.refl] s(1) by (rule rpost_InrD)
  then have oks: "tq_ok (map snd xs @ Y) (s\<lparr>tq_calling := False\<rparr>)" and
    mes: "me = tq_threadId (s\<lparr>tq_calling := False\<rparr>)"
    using me1 by (simp_all add: calls_ok_def tq_frame_def)
  obtain r where r: "reset_timers me now now' xs (s\<lparr>tq_calling := False\<rparr>) = Inr r" "tq_ok Y r"
    "tq_heap r = rearm_all now (tq_canceling (s\<lparr>tq_calling := False\<rparr>)) (snd ` set xs)
                   (tq_heap (s\<lparr>tq_calling := False\<rparr>))"
    "tq_canceling r = tq_canceling (s\<lparr>tq_calling := False\<rparr>)"
    "tq_calling r = tq_calling (s\<lparr>tq_calling := False\<rparr>)" "timerfd_armed now' r"
    using oks mes by (rule reset_timers_ok)
  have "r = q'" using r(1) s(2) by simp
  then show ?thesis
    using ok1 q0(3) me1 s(1) calls r by (intro that[of ?q1 s]) simp_all
qed

lemma tq_handleRead_ok:
  assumes ok: "tq_ok Y q" and al: "alloc_ok alloc" and me: "me = tq_threadId q"
  shows "rpost {BadAlloc} (\<lambda>q'. tq_ok Y q' \<and> \<not> tq_calling q' \<and> timerfd_armed now' q'
      \<and> (\<forall>(w, p) \<in> set (tq_timers q). w \<le> now \<longrightarrow>
           tq_heap q' p = rearmed now (tq_canceling q') p (the (tq_heap q p))))
    (tq_handleRead alloc script me now now' q)"
proof (cases "tq_handleRead alloc script me now now' q")
  case (Inl e)
  obtain q0 where q0: "getExpired now (readTimerfd q) = Inr (filter (\<lambda>e. fst e \<le> now) (tq_timers q), q0)"
    "tq_ok (map snd (filter (\<lambda>e. fst e \<le> now) (tq_timers q)) @ Y) q0" "tq_threadId q0 = tq_threadId q"
    using getExpired_ok[of Y "readTimerfd q" now] ok by auto
  let ?xs = "filter (\<lambda>e. fst e \<le> now) (tq_timers q)"
  let ?q1 = "q0\<lparr>tq_calling := True, tq_canceling := []\<rparr>"
  have run: "rpost {BadAlloc} (calls_ok (map snd ?xs @ Y) ?q1) (rfold (run_timer alloc script me) ?xs ?q1)"
    using q0 me al by (intro run_expired_ok) simp_all
  have "rpost {BadAlloc} (\<lambda>_. True) (rbind (rfold (run_timer alloc script me) ?xs ?q1)
      (\<lambda>q2. reset_timers me now now' ?xs (q2\<lparr>tq_calling := False\<rparr>)))"
  proof (rule rpost_rbind[OF run])
    fix s assume "calls_ok (map snd ?xs @ Y) ?q1 s"
    then have oks: "tq_ok (map snd ?xs @ Y) (s\<lparr>tq_calling := False\<rparr>)" and
      mes: "me = tq_threadId (s\<lparr>tq_calling := False\<rparr>)"
      using q0(3) me by (simp_all add: calls_ok_def tq_frame_def)
    obtain r where "reset_timers me now now' ?xs (s\<lparr>tq_calling := False\<rparr>) = Inr r"
      using oks mes by (rule reset_timers_ok)
    then show "rpost {BadAlloc} (\<lambda>_. True) (reset_timers me now now' ?xs (s\<lparr>tq_calling := False\<rparr>))"
      by simp
  qed
  then show ?thesis
    using Inl q0(1) me by (simp add: tq_handleRead_def tq_assertInLoopThread_def)
next
  case (Inr q')
  obtain q1 s where st:
    "tq_ok (map snd (filter (\<lambda>e. fst e \<le> now) (tq_timers q)) @ Y) q1" "tq_heap q1 = tq_heap q"
    "calls_ok (map snd (filter (\<lambda>e. fst e \<le> now) (tq_timers q)) @ Y) q1 s"
    "tq_ok Y q'"
    "tq_heap q' = rearm_all now (tq_canceling s)
       (snd ` set (filter (\<lambda>e. fst e \<le> now) (tq_timers q))) (tq_heap s)"
    "tq_canceling q' = tq_canceling s" "\<not> tq_calling q'" "timerfd_armed now' q'"
    using ok al me Inr by (rule tq_handleRead_stages)
  have "tq_heap q' p = rearmed now (tq_canceling q') p (the (tq_heap q p))"
    if e: "(w, p) \<in> set (tq_timers q)" "w \<le> now" for w p
  proof -
    have p: "p \<in> snd ` set (filter (\<lambda>e. fst e \<le> now) (tq_timers q))" using e by force
    then have "tq_heap s p = tq_heap q p"
      using calls_ok_heap[OF st(3)] st(2) by simp
    moreover have "\<exists>tm. tq_heap q p = Some tm \<and> tm_expiration tm = w"
      using ok e(1) by (rule tq_okD)
    ultimately show ?thesis
      unfolding st(5,6) rearm_all_def using p by auto
  qed
  then show ?thesis unfolding Inr using st by auto
qed

text \<open>
  C8. The handler of the timer descriptor keeps the two sets and the heap of timers in agreement,
  never touches a deleted timer and never fails an assertion, whatever timers the callbacks add
  or cancel (memory may run out). A timer that had expired is afterwards either a repeating one
  that nobody canceled, filed again one interval after \<open>now\<close>, or deleted; and the descriptor is
  set for the earliest timer. The timers \<open>Y\<close>, which other threads created and whose filing still
  waits in the queue of the loop, are left alone.
\<close>

theorem tq_handleRead_safe:
  assumes ok: "tq_ok Y q" and al: "alloc_ok alloc" and me: "me = tq_threadId q"
  shows "rpost {BadAlloc} (\<lambda>q'. tq_ok Y q' \<and> \<not> tq_calling q' \<and> timerfd_armed now' q'
      \<and> (\<forall>(w, p) \<in> set (tq_timers q). w \<le> now \<longrightarrow>
           tq_heap q' p = rearmed now (tq_canceling q') p (the (tq_heap q p))))
    (tq_handleRead alloc script me now now' q)"
  using assms by (rule tq_handleRead_ok)

definition tick_queue :: "string timer_queue" where
  "tick_queue =
     \<lparr>tq_heap = [64 \<mapsto> mk_timer ''tick'' (Timestamp 1000) (Seconds True 500) 1,
                 128 \<mapsto> mk_timer ''once'' (Timestamp 5000) (Seconds False 0) 2],
      s_numCreated = 2, tq_threadId = 7,
      tq_timers = [(Timestamp 1000, 64), (Timestamp 5000, 128)], tq_active = [(64, 1), (128, 2)],
      tq_calling = False, tq_canceling = [], tq_timerfd = None, tq_fired = False\<rparr>"

lemma tick_queue_ok: "tq_ok [] tick_queue"
  by (simp add: tq_ok_def tick_queue_def mk_timer_def UINTPTR_MAX_def) (auto split: if_splits)

definition bump_alloc :: "(ptr \<Rightarrow> bool) \<Rightarrow> ptr option" where
  "bump_alloc used = (if used 256 then None else Some 256)"

lemma bump_alloc_ok: "alloc_ok bump_alloc"
  by (simp add: alloc_ok_def bump_alloc_def UINTPTR_MAX_def)

lemma tq_handleRead_safe_witness:
  "rpost {BadAlloc} (\<lambda>q'. tq_ok [] q' \<and> \<not> tq_calling q' \<and> timerfd_armed (Timestamp 1010) q'
      \<and> (\<forall>(w, p) \<in> set (tq_timers tick_queue). w \<le> Timestamp 1005 \<longrightarrow>
           tq_heap q' p = rearmed (Timestamp 1005) (tq_canceling q') p (the (tq_heap tick_queue p))))
    (tq_handleRead bump_alloc (\<lambda>cb. [CallAdd (Timestamp 1006) ''new'' (Timestamp 2000) (Seconds False 0)])
       7 (Timestamp 1005) (Timestamp 1010) tick_queue)"
  by (rule tq_handleRead_safe[OF tick_queue_ok bump_alloc_ok]) (simp add: tick_queue_def)

text \<open>Cancellation while the callbacks run.\<close>

lemma exec_call_cancels:
  assumes ok: "tq_ok X s" and me: "me = tq_threadId s" and c: "tq_calling s"
    and p: "p \<in> set X" and run: "exec_call alloc me (CallCancel (p, sq)) s = Inr t"
  shows "(p, sq) \<in> set (tq_canceling t)"
proof -
  have "(p, sq) \<notin> set (tq_active s)"
  proof
    assume "(p, sq) \<in> set (tq_active s)"
    with ok obtain tm where "tq_heap s p = Some tm" "tm_sequence tm = sq"
      "(tm_expiration tm, p) \<in> set (tq_timers s)" by (rule tq_ok_activeD)
    then show False using tq_okD(6)[OF ok] p by force
  qed
  moreover obtain q' where "cancelInLoop me (p, sq) s = Inr q'"
    "(p, sq) \<notin> set (tq_active s) \<Longrightarrow> tq_calling s \<Longrightarrow> (p, sq) \<in> set (tq_canceling q')"
    using cancelInLoop_ok[OF ok me, of "(p, sq)"] by blast
  ultimately show ?thesis using run c by simp
qed

lemma rfold_split:
  "rfold f (xs @ y # ys) s = Inr t \<Longrightarrow>
   \<exists>u v. rfold f xs s = Inr u \<and> f y u = Inr v \<and> rfold f ys v = Inr t"
  by (auto simp: rbind_eq_Inr_iff)

lemma canceling_mono: "calls_ok X s t \<Longrightarrow> a \<in> set (tq_canceling s) \<Longrightarrow> a \<in> set (tq_canceling t)"
  by (auto simp: calls_ok_def tq_frame_def)

lemma calls_ok_step:
  assumes ok: "calls_ok X q s" and al: "alloc_ok alloc" and me: "me = tq_threadId q"
    and run: "rfold (exec_call alloc me) cs s = Inr t"
  shows "calls_ok X s t"
proof -
  have "calls_ok X s s" "me = tq_threadId s"
    using ok me by (simp_all add: calls_ok_def tq_frame_def)
  then have "rpost {BadAlloc} (calls_ok X s) (rfold (exec_call alloc me) cs s)"
    by (intro rpost_rfold[OF _ calls_ok_exec[OF _ al]]) simp_all
  then show ?thesis using run by (rule rpost_InrD)
qed

lemma run_timer_cancels:
  assumes ok: "calls_ok X q s" and al: "alloc_ok alloc" and me: "me = tq_threadId q"
    and c: "tq_calling s" and p: "p \<in> set X"
    and tm: "tq_heap s (snd it) = Some tm" and call: "CallCancel (p, sq) \<in> set (script (tm_callback tm))"
    and run: "run_timer alloc script me it s = Inr t"
  shows "(p, sq) \<in> set (tq_canceling t)"
proof -
  obtain cs ds where cs: "script (tm_callback tm) = cs @ CallCancel (p, sq) # ds"
    using call by (auto simp: in_set_conv_decomp)
  have "rfold (exec_call alloc me) (cs @ CallCancel (p, sq) # ds) s = Inr t"
    using run tm cs by (simp add: run_timer_def)
  then obtain u v where uv: "rfold (exec_call alloc me) cs s = Inr u"
    "exec_call alloc me (CallCancel (p, sq)) u = Inr v" "rfold (exec_call alloc me) ds v = Inr t"
    using rfold_split[of "exec_call alloc me" cs "CallCancel (p, sq)" ds s t] by blast
  have su: "calls_ok X s u" using calls_ok_step[OF ok al me uv(1)] .
  have mes: "me = tq_threadId s" using ok me by (simp add: calls_ok_def tq_frame_def)
  have inv: "(p, sq) \<in> set (tq_canceling v)"
    by (rule exec_call_cancels[OF _ _ _ p uv(2)])
       (use su c mes in \<open>simp_all add: calls_ok_def tq_frame_def\<close>)
  have "calls_ok X s v" using calls_ok_exec[OF su al mes] uv(2) by (rule rpost_InrD)
  then have "calls_ok X v t" using al mes uv(3) by (rule calls_ok_step)
  then show ?thesis using inv by (rule canceling_mono)
qed

text \<open>
  C31. Canceling works from inside the callbacks: when the callback of any expired timer cancels
  an expired timer (its own, say), that timer is gone once the handler returns; in particular a
  repeating timer does not come back.
\<close>

theorem canceled_timer_not_rearmed:
  assumes ok: "tq_ok Y q" and al: "alloc_ok alloc" and me: "me = tq_threadId q"
    and a: "(w, p) \<in> set (tq_timers q)" "w \<le> now" "tq_heap q p = Some tm"
    and b: "(w', p') \<in> set (tq_timers q)" "w' \<le> now" "tq_heap q p' = Some tm'"
    and call: "CallCancel (p, tm_sequence tm) \<in> set (script (tm_callback tm'))"
    and run: "tq_handleRead alloc script me now now' q = Inr q'"
  shows "tq_heap q' p = None"
proof -
  define xs where "xs = filter (\<lambda>e. fst e \<le> now) (tq_timers q)"
  obtain q1 s where st: "tq_ok (map snd xs @ Y) q1" "tq_heap q1 = tq_heap q" "tq_calling q1"
    "tq_threadId q1 = me" "rfold (run_timer alloc script me) xs q1 = Inr s"
    "calls_ok (map snd xs @ Y) q1 s"
    "tq_heap q' = rearm_all now (tq_canceling s) (snd ` set xs) (tq_heap s)"
    unfolding xs_def using ok al me run by (rule tq_handleRead_stages)
  have inx: "(w, p) \<in> set xs" "(w', p') \<in> set xs" using a b by (simp_all add: xs_def)
  then have pX: "p \<in> set (map snd xs @ Y)" "p' \<in> set (map snd xs @ Y)" "p \<in> snd ` set xs" by force+
  obtain ys zs where xs: "xs = ys @ (w', p') # zs" using inx(2) by (auto simp: in_set_conv_decomp)
  obtain u v where uv: "rfold (run_timer alloc script me) ys q1 = Inr u"
    "run_timer alloc script me (w', p') u = Inr v" "rfold (run_timer alloc script me) zs v = Inr s"
    using rfold_split[of "run_timer alloc script me" ys "(w', p')" zs q1 s] st(5) xs by blast
  have cu: "calls_ok (map snd xs @ Y) q1 u"
    using run_expired_ok[OF st(1) al st(4)[symmetric], of ys] uv(1) xs by (auto dest: rpost_InrD)
  have "tq_heap u p' = Some tm'" using calls_ok_heap[OF cu pX(2)] st(2) b(3) by simp
  then have inv: "(p, tm_sequence tm) \<in> set (tq_canceling v)"
    by (intro run_timer_cancels[OF cu al st(4)[symmetric] _ pX(1) _ call uv(2)])
       (use cu st(3) in \<open>simp_all add: calls_ok_def tq_frame_def\<close>)
  have cv: "calls_ok (map snd xs @ Y) q1 v"
  proof -
    have "snd (w', p') \<in> set (map snd xs @ Y)" using pX(2) by simp
    then show ?thesis
      using calls_ok_run_timer[OF cu al st(4)[symmetric], of "(w', p')"] st(1) uv(2)
      by (blast intro: rpost_InrD)
  qed
  then have "tq_ok (map snd xs @ Y) v" "me = tq_threadId v"
    using st(4) by (simp_all add: calls_ok_def tq_frame_def)
  then have "calls_ok (map snd xs @ Y) v s"
    using run_expired_ok[where xs = xs and q = v and me = me and ys = zs] al uv(3) xs by (auto dest: rpost_InrD)
  then have "(p, tm_sequence tm) \<in> set (tq_canceling s)" using inv by (rule canceling_mono)
  moreover have "tq_heap s p = Some tm" using calls_ok_heap[OF st(6) pX(1)] st(2) a(3) by simp
  ultimately show ?thesis using pX(3) by (auto simp: st(7) rearm_all_def rearmed_def)
qed

lemma canceled_timer_not_rearmed_witness:
  "\<exists>q'. tq_handleRead bump_alloc (\<lambda>cb. [CallCancel (64, 1)]) 7 (Timestamp 1005) (Timestamp 1010) tick_queue
          = Inr q' \<and> tq_heap q' 64 = None"
proof -
  let ?h = "tq_handleRead bump_alloc (\<lambda>cb. [CallCancel (64, 1)]) 7 (Timestamp 1005) (Timestamp 1010) tick_queue"
  let ?tm = "mk_timer ''tick'' (Timestamp 1000) (Seconds True 500) 1"
  have "is_ok ?h"
    by (simp add: tick_queue_def mk_timer_def tq_handleRead_def tq_assertInLoopThread_def getExpired_def
        sizes_agree_def erase_active_def run_timer_def cancelInLoop_def reset_timers_def reset_one_def
        UINTPTR_MAX_def delete_timer_def resetTimerfd_def readTimerfd_def is_ok_def less_prod_def' restart_def)
  then obtain q' where q': "?h = Inr q'" using is_okD by blast
  have "tq_heap q' 64 = None"
    by (rule canceled_timer_not_rearmed[OF tick_queue_ok bump_alloc_ok _ _ _ _ _ _ _ _ q',
          where w = "Timestamp 1000" and tm = ?tm and w' = "Timestamp 1000" and p' = 64 and tm' = ?tm])
       (simp_all add: tick_queue_def mk_timer_def)
  with q' show ?thesis by blast
qed

end
