(* ===== verification/EventLoop.thy ===== *)
theory EventLoop
  imports PollPoller TimerQueue
begin

text \<open>
  The event loop (src/zing/net/EventLoop.h and EventLoop.cpp): polling, dispatching, functors queued
  by any thread, the descriptor that wakes the loop up, and quitting. The loop's thread and the
  other threads interleave: the model has a step for every stretch of code between two points where
  another thread can be seen, with the position of the loop's thread in its state.
\<close>

section \<open>State\<close>

text \<open>What code running in the loop's thread asks of the loop.\<close>

datatype 'f loop_call = QueueInLoop 'f | RunInLoop 'f | Quit | Request chan_req

text \<open>
  Where the loop's thread is: outside \<open>loop()\<close>, at the test of \<open>while\<close>, inside \<open>poll\<close>, dispatching
  (with the channels still to be handled), before the swap of \<open>doPendingFunctors\<close>, or running the
  functors it took (with those still to be run).
\<close>

datatype 'f loop_pc =
    Outside | Testing | Polling | Dispatching "ptr list" | Swapping | Running "'f list"

text \<open>
  \<open>el_self\<close> is the loop's address, \<open>el_wakeups\<close> the counter of the eventfd, \<open>el_wakeupChannel\<close> the
  address of its channel. \<open>el_calls\<close> is what the callback being run has still to do, \<open>el_waking\<close>
  the number of other threads that have queued a functor or asked to quit and have not yet called
  \<open>wakeup\<close>. \<open>el_queued\<close> and \<open>el_ran\<close> record the functors queued and those run from the queue;
  \<open>el_early\<close> tells that a functor was queued by the loop's own thread while it was not looping, and has
  not been taken yet.
\<close>

record ('a, 'f) event_loop =
  el_looping :: bool
  el_quit :: bool
  el_eventHandling :: bool
  el_callingPendingFunctors :: bool
  el_iteration :: nat
  el_threadId :: int
  el_pollReturnTime :: timestamp
  el_poller :: "'a poller_scheme"
  el_wakeups :: nat
  el_wakeupChannel :: ptr
  el_activeChannels :: "ptr list"
  el_currentActiveChannel :: "ptr option"
  el_pendingFunctors :: "'f list"
  el_self :: ptr
  el_pc :: "'f loop_pc"
  el_calls :: "'f loop_call list"
  el_waking :: nat
  el_queued :: "'f list"
  el_ran :: "'f list"
  el_early :: bool

text \<open>What the functors and the callbacks of the channels do.\<close>

record ('a, 'f) loop_env =
  le_functor :: "'f \<Rightarrow> ('a, 'f) event_loop \<Rightarrow> 'f loop_call list"
  le_handler :: "ptr \<Rightarrow> ('a, 'f) event_loop \<Rightarrow> 'f loop_call list"

type_synonym 'a poller_op = "int \<Rightarrow> ptr \<Rightarrow> 'a poller_scheme \<Rightarrow> 'a poller_scheme result"

section \<open>Operations\<close>

definition isInLoopThread :: "int \<Rightarrow> ('a, 'f) event_loop \<Rightarrow> bool" where
  "isInLoopThread me L = (el_threadId L = me)"

definition el_assertInLoopThread :: "int \<Rightarrow> ('a, 'f) event_loop \<Rightarrow> unit result" where
  "el_assertInLoopThread me L = (if isInLoopThread me L then Inr () else Inl Fatal)"

text \<open>
  A write adds 1 to the counter of the eventfd, or fails (which is logged) when the counter is at
  its maximum; a read resets it, or fails when it is 0.
\<close>

definition eventfd_max :: nat where "eventfd_max = 2 ^ 64 - 2"

definition wakeup :: "('a, 'f) event_loop \<Rightarrow> ('a, 'f) event_loop" where
  "wakeup L = (if el_wakeups L < eventfd_max then L\<lparr>el_wakeups := Suc (el_wakeups L)\<rparr> else L)"

definition el_handleRead :: "('a, 'f) event_loop \<Rightarrow> ('a, 'f) event_loop" where
  "el_handleRead L = L\<lparr>el_wakeups := 0\<rparr>"

definition el_push :: "'f \<Rightarrow> ('a, 'f) event_loop \<Rightarrow> ('a, 'f) event_loop" where
  "el_push cb L = L\<lparr>el_pendingFunctors := el_pendingFunctors L @ [cb], el_queued := el_queued L @ [cb]\<rparr>"

definition queueInLoop :: "int \<Rightarrow> 'f \<Rightarrow> ('a, 'f) event_loop \<Rightarrow> ('a, 'f) event_loop" where
  "queueInLoop me cb L =
    (let L1 = el_push cb L
     in if \<not> isInLoopThread me L1 \<or> el_callingPendingFunctors L1 then wakeup L1 else L1)"

text \<open>In the loop's thread \<open>runInLoop\<close> runs the functor at once.\<close>

definition runInLoop :: "('a, 'f) loop_env \<Rightarrow> int \<Rightarrow> 'f \<Rightarrow> ('a, 'f) event_loop \<Rightarrow> ('a, 'f) event_loop" where
  "runInLoop env me cb L =
    (if isInLoopThread me L then L\<lparr>el_calls := le_functor env cb L @ el_calls L\<rparr> else queueInLoop me cb L)"

definition quit :: "int \<Rightarrow> ('a, 'f) event_loop \<Rightarrow> ('a, 'f) event_loop" where
  "quit me L =
    (let L1 = L\<lparr>el_quit := True\<rparr> in if \<not> isInLoopThread me L1 then wakeup L1 else L1)"

definition queueSize :: "('a, 'f) event_loop \<Rightarrow> nat" where
  "queueSize L = length (el_pendingFunctors L)"

text \<open>\<open>ownerLoop()\<close> of the channel is compared with the loop.\<close>

definition owned :: "ptr \<Rightarrow> ('a, 'f) event_loop \<Rightarrow> unit result" where
  "owned p L =
    (case po_heap (el_poller L) p of
       None \<Rightarrow> Inl Undefined
     | Some c \<Rightarrow> if ch_loop c = el_self L then Inr () else Inl AssertFail)"

definition el_updateChannel :: "'a poller_op \<Rightarrow> int \<Rightarrow> ptr \<Rightarrow> ('a, 'f) event_loop \<Rightarrow> ('a, 'f) event_loop result" where
  "el_updateChannel upd me p L =
    rbind (owned p L) (\<lambda>_.
    rbind (el_assertInLoopThread me L) (\<lambda>_.
    rbind (upd me p (el_poller L)) (\<lambda>q. Inr (L\<lparr>el_poller := q\<rparr>))))"

definition el_removeChannel :: "'a poller_op \<Rightarrow> int \<Rightarrow> ptr \<Rightarrow> ('a, 'f) event_loop \<Rightarrow> ('a, 'f) event_loop result" where
  "el_removeChannel rem me p L =
    rbind (owned p L) (\<lambda>_.
    rbind (el_assertInLoopThread me L) (\<lambda>_.
    if el_eventHandling L \<and> \<not> (el_currentActiveChannel L = Some p \<or> p \<notin> set (el_activeChannels L))
    then Inl AssertFail
    else rbind (rem me p (el_poller L)) (\<lambda>q. Inr (L\<lparr>el_poller := q\<rparr>))))"

definition el_hasChannel :: "int \<Rightarrow> ptr \<Rightarrow> ('a, 'f) event_loop \<Rightarrow> bool result" where
  "el_hasChannel me p L =
    rbind (owned p L) (\<lambda>_.
    rbind (el_assertInLoopThread me L) (\<lambda>_. hasChannel me p (el_poller L)))"

text \<open>The calls that channels make: \<open>Channel::update\<close> and \<open>Channel::remove\<close>.\<close>

definition el_mask :: "'a poller_op \<Rightarrow> int \<Rightarrow> mask_op \<Rightarrow> ptr \<Rightarrow> ('a, 'f) event_loop \<Rightarrow> ('a, 'f) event_loop result" where
  "el_mask upd me m p L =
    (case po_heap (el_poller L) p of
       None \<Rightarrow> Inl Undefined
     | Some c \<Rightarrow> el_updateChannel upd me p (L\<lparr>el_poller := po_set p (ch_mask m c) (el_poller L)\<rparr>))"

definition el_remove :: "'a poller_op \<Rightarrow> int \<Rightarrow> ptr \<Rightarrow> ('a, 'f) event_loop \<Rightarrow> ('a, 'f) event_loop result" where
  "el_remove rem me p L =
    (case po_heap (el_poller L) p of
       None \<Rightarrow> Inl Undefined
     | Some c \<Rightarrow> if \<not> isNoneEvent c then Inl AssertFail
                 else el_removeChannel rem me p
                        (L\<lparr>el_poller := po_set p (c\<lparr>ch_addedToLoop := False\<rparr>) (el_poller L)\<rparr>))"

fun el_request ::
  "'a poller_op \<Rightarrow> 'a poller_op \<Rightarrow> int \<Rightarrow> chan_req \<Rightarrow> ('a, 'f) event_loop \<Rightarrow> ('a, 'f) event_loop result" where
  "el_request upd rem me (Mask m p) L = el_mask upd me m p L"
| "el_request upd rem me (Close p) L = rbind (el_mask upd me DisableAll p L) (el_remove rem me p)"

section \<open>Construction and destruction\<close>

text \<open>
  \<open>t_loopInThisThread\<close> is a map from threads. The wake-up channel \<open>wch\<close> for the descriptor \<open>wfd\<close> is a
  new object in the heap of the poller.
\<close>

definition new_event_loop ::
  "'a poller_op \<Rightarrow> int \<Rightarrow> ptr \<Rightarrow> ptr \<Rightarrow> int \<Rightarrow> 'a poller_scheme \<Rightarrow> (int \<Rightarrow> ptr option) \<Rightarrow>
   (('a, 'f) event_loop \<times> (int \<Rightarrow> ptr option)) result" where
  "new_event_loop upd me self wch wfd q t_loopInThisThread =
    (let q1 = po_set wch (new_channel self wfd) q;
         L = \<lparr>el_looping = False, el_quit = False, el_eventHandling = False, el_callingPendingFunctors = False,
              el_iteration = 0, el_threadId = me, el_pollReturnTime = ts_invalid, el_poller = q1,
              el_wakeups = 0, el_wakeupChannel = wch, el_activeChannels = [], el_currentActiveChannel = None,
              el_pendingFunctors = [], el_self = self, el_pc = Outside, el_calls = [], el_waking = 0,
              el_queued = [], el_ran = [], el_early = False\<rparr>
     in if t_loopInThisThread me \<noteq> None then Inl Fatal
        else rbind (el_mask upd me EnableReading wch L) (\<lambda>L'. Inr (L', t_loopInThisThread(me \<mapsto> self))))"

definition destroy_event_loop ::
  "'a poller_op \<Rightarrow> 'a poller_op \<Rightarrow> int \<Rightarrow> ('a, 'f) event_loop \<Rightarrow> (int \<Rightarrow> ptr option) \<Rightarrow>
   (('a, 'f) event_loop \<times> (int \<Rightarrow> ptr option)) result" where
  "destroy_event_loop upd rem me L t_loopInThisThread =
    rbind (el_mask upd me DisableAll (el_wakeupChannel L) L) (\<lambda>L1.
    rbind (el_remove rem me (el_wakeupChannel L1) L1) (\<lambda>L2.
    Inr (L2, t_loopInThisThread(me := None))))"

definition getEventLoopOfCurrentThread :: "int \<Rightarrow> (int \<Rightarrow> ptr option) \<Rightarrow> ptr option" where
  "getEventLoopOfCurrentThread me t_loopInThisThread = t_loopInThisThread me"

section \<open>Timers\<close>

definition runAt ::
  "((ptr \<Rightarrow> bool) \<Rightarrow> ptr option) \<Rightarrow> int \<Rightarrow> timestamp \<Rightarrow> timestamp \<Rightarrow> 'cb \<Rightarrow> 'cb timer_queue \<Rightarrow>
   (timer_id \<times> 'cb timer_queue) result" where
  "runAt alloc me now time cb q = addTimer alloc me now cb time (Seconds False 0) q"

definition runAfter ::
  "((ptr \<Rightarrow> bool) \<Rightarrow> ptr option) \<Rightarrow> int \<Rightarrow> timestamp \<Rightarrow> seconds \<Rightarrow> 'cb \<Rightarrow> 'cb timer_queue \<Rightarrow>
   (timer_id \<times> 'cb timer_queue) result" where
  "runAfter alloc me now delay cb q = runAt alloc me now (addTime now delay) cb q"

definition runEvery ::
  "((ptr \<Rightarrow> bool) \<Rightarrow> ptr option) \<Rightarrow> int \<Rightarrow> timestamp \<Rightarrow> seconds \<Rightarrow> 'cb \<Rightarrow> 'cb timer_queue \<Rightarrow>
   (timer_id \<times> 'cb timer_queue) result" where
  "runEvery alloc me now interval cb q = addTimer alloc me now cb (addTime now interval) interval q"

section \<open>The loop's thread\<close>

definition start_loop :: "int \<Rightarrow> ('a, 'f) event_loop \<Rightarrow> ('a, 'f) event_loop result" where
  "start_loop me L =
    (if el_looping L then Inl AssertFail
     else rbind (el_assertInLoopThread me L) (\<lambda>_.
       Inr (L\<lparr>el_looping := True, el_quit := False, el_pc := Testing\<rparr>)))"

fun exec_loop_call ::
  "'a poller_op \<Rightarrow> 'a poller_op \<Rightarrow> ('a, 'f) loop_env \<Rightarrow> 'f loop_call \<Rightarrow> ('a, 'f) event_loop \<Rightarrow>
   ('a, 'f) event_loop result" where
  "exec_loop_call upd rem env (QueueInLoop cb) L =
     Inr ((queueInLoop (el_threadId L) cb L)\<lparr>el_early := (el_early L \<or> el_pc L = Outside)\<rparr>)"
| "exec_loop_call upd rem env (RunInLoop cb) L = Inr (runInLoop env (el_threadId L) cb L)"
| "exec_loop_call upd rem env Quit L = Inr (quit (el_threadId L) L)"
| "exec_loop_call upd rem env (Request req) L = el_request upd rem (el_threadId L) req L"

text \<open>The loop's own code, when no callback is running.\<close>

definition loop_advance :: "('a, 'f) loop_env \<Rightarrow> ('a, 'f) event_loop \<Rightarrow> ('a, 'f) event_loop" where
  "loop_advance env L =
    (case el_pc L of
       Outside \<Rightarrow> L
     | Testing \<Rightarrow> if el_quit L then L\<lparr>el_looping := False, el_pc := Outside\<rparr>
                  else L\<lparr>el_activeChannels := [], el_pc := Polling\<rparr>
     | Polling \<Rightarrow> L
     | Dispatching [] \<Rightarrow> L\<lparr>el_currentActiveChannel := None, el_eventHandling := False,
                           el_callingPendingFunctors := True, el_pc := Swapping\<rparr>
     | Dispatching (p # ps) \<Rightarrow>
         let L1 = L\<lparr>el_currentActiveChannel := Some p, el_pc := Dispatching ps\<rparr>
         in if p = el_wakeupChannel L then el_handleRead L1 else L1\<lparr>el_calls := le_handler env p L1\<rparr>
     | Swapping \<Rightarrow> L\<lparr>el_pc := Running (el_pendingFunctors L), el_pendingFunctors := [], el_early := False\<rparr>
     | Running [] \<Rightarrow> L\<lparr>el_callingPendingFunctors := False, el_pc := Testing\<rparr>
     | Running (f # fs) \<Rightarrow>
         let L1 = L\<lparr>el_ran := el_ran L @ [f], el_pc := Running fs\<rparr> in L1\<lparr>el_calls := le_functor env f L1\<rparr>)"

definition poll_return :: "timestamp \<Rightarrow> ptr list \<Rightarrow> 'a poller_scheme \<Rightarrow> ('a, 'f) event_loop \<Rightarrow> ('a, 'f) event_loop" where
  "poll_return t act q L =
    L\<lparr>el_activeChannels := act, el_poller := q, el_pollReturnTime := t, el_iteration := Suc (el_iteration L),
      el_eventHandling := True, el_pc := Dispatching act\<rparr>"

text \<open>
  What can happen: the owner calls \<open>loop()\<close> or, before and after it, another function; the poller
  returns; the loop's thread goes on; another thread queues a functor or sets \<open>quit_\<close> (first half)
  and wakes the loop up (second half).
\<close>

datatype ('a, 'f) loop_event =
    Start | Outer "'f loop_call" | PollReturn timestamp "ptr list" "'a poller_scheme" | Advance
  | OtherQueue 'f | OtherQuit | OtherWakeup

fun loop_step ::
  "'a poller_op \<Rightarrow> 'a poller_op \<Rightarrow> ('a, 'f) loop_env \<Rightarrow> ('a, 'f) loop_event \<Rightarrow> ('a, 'f) event_loop \<Rightarrow>
   ('a, 'f) event_loop result" where
  "loop_step upd rem env Start L = start_loop (el_threadId L) L"
| "loop_step upd rem env (Outer call) L = exec_loop_call upd rem env call L"
| "loop_step upd rem env (PollReturn t act q) L = Inr (poll_return t act q L)"
| "loop_step upd rem env Advance L =
     (case el_calls L of
        [] \<Rightarrow> Inr (loop_advance env L)
      | call # rest \<Rightarrow> exec_loop_call upd rem env call (L\<lparr>el_calls := rest\<rparr>))"
| "loop_step upd rem env (OtherQueue f) L = Inr ((el_push f L)\<lparr>el_waking := Suc (el_waking L)\<rparr>)"
| "loop_step upd rem env OtherQuit L = Inr (L\<lparr>el_quit := True, el_waking := Suc (el_waking L)\<rparr>)"
| "loop_step upd rem env OtherWakeup L = Inr (wakeup (L\<lparr>el_waking := el_waking L - 1\<rparr>))"

text \<open>The two halves of another thread's call are that call.\<close>

lemma other_thread_queues:
  assumes "me \<noteq> el_threadId L"
  shows "rbind (loop_step upd rem env (OtherQueue f) L) (loop_step upd rem env OtherWakeup) = Inr (queueInLoop me f L)"
  using assms by (simp add: queueInLoop_def el_push_def isInLoopThread_def wakeup_def Let_def)

lemma other_thread_quits:
  assumes "me \<noteq> el_threadId L"
  shows "rbind (loop_step upd rem env OtherQuit L) (loop_step upd rem env OtherWakeup) = Inr (quit me L)"
  using assms by (simp add: quit_def isInLoopThread_def wakeup_def Let_def)

section \<open>Histories of a loop\<close>

definition registered :: "'a poller_scheme \<Rightarrow> ptr \<Rightarrow> bool" where
  "registered q p \<longleftrightarrow> (\<exists>c. po_heap q p = Some c \<and> po_channels q (ch_fd c) = Some p)"

definition loop_owns :: "('a, 'f) event_loop \<Rightarrow> ptr \<Rightarrow> bool" where
  "loop_owns L p \<longleftrightarrow> (\<exists>c. po_heap (el_poller L) p = Some c \<and> ch_loop c = el_self L)"

text \<open>
  Lawful calls: requests are for channels of this loop that are new or in use, and a channel is
  closed once. What a poller's \<open>poll\<close> does: it names registered channels, each once, and changes
  only what they report.
\<close>

fun call_lawful :: "'f loop_call \<Rightarrow> ('a, 'f) event_loop \<Rightarrow> bool" where
  "call_lawful (Request (Mask m p)) L =
     (loop_owns L p \<and> (\<exists>c. po_heap (el_poller L) p = Some c \<and> usable (el_poller L) p c \<and> 0 \<le> ch_fd c))"
| "call_lawful (Request (Close p)) L =
     (loop_owns L p \<and> registered (el_poller L) p \<and> (\<exists>c. po_heap (el_poller L) p = Some c \<and> 0 \<le> ch_fd c))"
| "call_lawful _ L = True"

definition without_revents :: "'a poller_scheme \<Rightarrow> ptr \<Rightarrow> channel option" where
  "without_revents q p = map_option (\<lambda>c. c\<lparr>ch_revents := 0\<rparr>) (po_heap q p)"

definition poll_outcome :: "('a poller_scheme \<Rightarrow> bool) \<Rightarrow> 'a poller_scheme \<Rightarrow> ptr list \<Rightarrow> 'a poller_scheme \<Rightarrow> bool" where
  "poll_outcome ok q act q' \<longleftrightarrow> ok q' \<and> po_threadId q' = po_threadId q \<and> po_channels q' = po_channels q
     \<and> without_revents q' = without_revents q \<and> distinct act \<and> (\<forall>p \<in> set act. registered q p)"

fun loop_event_ok :: "('a poller_scheme \<Rightarrow> bool) \<Rightarrow> ('a, 'f) event_loop \<Rightarrow> ('a, 'f) loop_event \<Rightarrow> bool" where
  "loop_event_ok ok L Start = (el_pc L = Outside \<and> el_calls L = [])"
| "loop_event_ok ok L (Outer call) = (el_pc L = Outside \<and> el_calls L = [] \<and> call_lawful call L)"
| "loop_event_ok ok L (PollReturn t act q) = (el_pc L = Polling \<and> poll_outcome ok (el_poller L) act q)"
| "loop_event_ok ok L Advance =
     (case el_calls L of [] \<Rightarrow> el_pc L \<notin> {Outside, Polling}
      | call # rest \<Rightarrow> call_lawful call (L\<lparr>el_calls := rest\<rparr>))"
| "loop_event_ok ok L (OtherQueue f) = True"
| "loop_event_ok ok L OtherQuit = True"
| "loop_event_ok ok L OtherWakeup = (0 < el_waking L)"

inductive loop_reach ::
  "'a poller_op \<Rightarrow> 'a poller_op \<Rightarrow> ('a poller_scheme \<Rightarrow> bool) \<Rightarrow> ('a, 'f) loop_env \<Rightarrow> ('a, 'f) event_loop \<Rightarrow> bool"
  for upd rem ok env where
  create: "new_event_loop upd (po_threadId q) self wch wfd q tls = Inr (L, tls') \<Longrightarrow>
    ok (po_set wch (new_channel self wfd) q) \<Longrightarrow> po_channels q wfd = None \<Longrightarrow> 0 \<le> wfd \<Longrightarrow>
    loop_reach upd rem ok env L"
| happen: "loop_reach upd rem ok env L \<Longrightarrow> loop_event_ok ok L ev \<Longrightarrow> loop_step upd rem env ev L = Inr L' \<Longrightarrow>
    loop_reach upd rem ok env L'"

section \<open>The queue and the wake-ups\<close>

fun pc_batch :: "'f loop_pc \<Rightarrow> 'f list" where
  "pc_batch (Running fs) = fs"
| "pc_batch _ = []"

fun pc_taken :: "'f loop_pc \<Rightarrow> bool" where
  "pc_taken (Dispatching ps) = False"
| "pc_taken Swapping = False"
| "pc_taken _ = True"

definition awake :: "('a, 'f) event_loop \<Rightarrow> bool" where
  "awake L \<longleftrightarrow> 0 < el_wakeups L \<or> 0 < el_waking L"

text \<open>The flags agree with where the loop's thread is.\<close>

fun flags_ok :: "'f loop_pc \<Rightarrow> bool \<Rightarrow> bool \<Rightarrow> bool \<Rightarrow> bool" where
  "flags_ok Outside l e c \<longleftrightarrow> \<not> l \<and> \<not> e \<and> \<not> c"
| "flags_ok Testing l e c \<longleftrightarrow> l \<and> \<not> e \<and> \<not> c"
| "flags_ok Polling l e c \<longleftrightarrow> l \<and> \<not> e \<and> \<not> c"
| "flags_ok (Dispatching ps) l e c \<longleftrightarrow> l \<and> e \<and> \<not> c"
| "flags_ok Swapping l e c \<longleftrightarrow> l \<and> \<not> e \<and> c"
| "flags_ok (Running fs) l e c \<longleftrightarrow> l \<and> \<not> e \<and> c"

definition loop_inv :: "('a, 'f) event_loop \<Rightarrow> bool" where
  "loop_inv L \<longleftrightarrow> el_queued L = el_ran L @ pc_batch (el_pc L) @ el_pendingFunctors L
     \<and> flags_ok (el_pc L) (el_looping L) (el_eventHandling L) (el_callingPendingFunctors L)
     \<and> (pc_taken (el_pc L) \<and> el_pendingFunctors L \<noteq> [] \<and> \<not> el_early L \<longrightarrow> awake L)
     \<and> (el_pc L \<in> {Testing, Polling, Swapping} \<longrightarrow> el_calls L = [])
     \<and> (el_pc L = Polling \<and> el_quit L \<longrightarrow> awake L)"

lemma wakeup_fields [simp]:
  "el_pc (wakeup L) = el_pc L" "el_calls (wakeup L) = el_calls L" "el_pendingFunctors (wakeup L) = el_pendingFunctors L"
  "el_queued (wakeup L) = el_queued L" "el_ran (wakeup L) = el_ran L" "el_looping (wakeup L) = el_looping L"
  "el_eventHandling (wakeup L) = el_eventHandling L" "el_callingPendingFunctors (wakeup L) = el_callingPendingFunctors L"
  "el_quit (wakeup L) = el_quit L" "el_early (wakeup L) = el_early L" "el_poller (wakeup L) = el_poller L"
  "el_threadId (wakeup L) = el_threadId L" "el_self (wakeup L) = el_self L" "el_waking (wakeup L) = el_waking L"
  "el_activeChannels (wakeup L) = el_activeChannels L" "el_currentActiveChannel (wakeup L) = el_currentActiveChannel L"
  by (simp_all add: wakeup_def)

lemma wakeup_counts [simp]: "0 < el_wakeups (wakeup L)"
  by (simp add: wakeup_def eventfd_max_def)

lemma el_updateChannel_frame:
  "el_updateChannel upd me p L = Inr L' \<Longrightarrow> \<exists>q. L' = L\<lparr>el_poller := q\<rparr>"
  by (auto simp: el_updateChannel_def rbind_eq_Inr_iff)

lemma el_removeChannel_frame:
  "el_removeChannel rem me p L = Inr L' \<Longrightarrow> \<exists>q. L' = L\<lparr>el_poller := q\<rparr>"
  by (auto simp: el_removeChannel_def rbind_eq_Inr_iff split: if_splits)

lemma el_mask_frame: "el_mask upd me m p L = Inr L' \<Longrightarrow> \<exists>q. L' = L\<lparr>el_poller := q\<rparr>"
  by (auto simp: el_mask_def split: option.splits dest!: el_updateChannel_frame)

lemma el_remove_frame: "el_remove rem me p L = Inr L' \<Longrightarrow> \<exists>q. L' = L\<lparr>el_poller := q\<rparr>"
  by (auto simp: el_remove_def split: option.splits if_splits dest!: el_removeChannel_frame)

lemma el_request_frame: "el_request upd rem me req L = Inr L' \<Longrightarrow> \<exists>q. L' = L\<lparr>el_poller := q\<rparr>"
  by (cases req) (auto simp: rbind_eq_Inr_iff dest!: el_mask_frame el_remove_frame)

lemma loop_inv_poller [simp]: "loop_inv (L\<lparr>el_poller := q\<rparr>) = loop_inv L"
  by (simp add: loop_inv_def awake_def)

lemma exec_loop_call_inv:
  assumes "loop_inv L" "el_pc L \<notin> {Testing, Polling, Swapping}" "exec_loop_call upd rem env call L = Inr L'"
  shows "loop_inv L'"
proof (cases call)
  case (QueueInLoop f)
  then show ?thesis
    using assms by (cases "el_pc L") (auto simp: loop_inv_def awake_def queueInLoop_def el_push_def isInLoopThread_def Let_def)
next
  case (RunInLoop f)
  then show ?thesis using assms by (auto simp: loop_inv_def awake_def runInLoop_def isInLoopThread_def)
next
  case Quit
  then show ?thesis using assms by (auto simp: loop_inv_def awake_def quit_def isInLoopThread_def Let_def)
next
  case (Request req)
  then show ?thesis using assms by (auto dest!: el_request_frame)
qed

lemma loop_advance_inv:
  assumes "loop_inv L" "el_calls L = []" "el_pc L \<notin> {Outside, Polling}"
  shows "loop_inv (loop_advance env L)"
  using assms
  by (auto simp: loop_advance_def loop_inv_def awake_def el_handleRead_def Let_def
      split: loop_pc.splits list.splits)

lemma loop_step_inv:
  assumes inv: "loop_inv L" and ok: "loop_event_ok ok L ev" and step: "loop_step upd rem env ev L = Inr L'"
  shows "loop_inv L'"
proof (cases ev)
  case Start
  then show ?thesis
    using assms by (auto simp: start_loop_def rbind_eq_Inr_iff loop_inv_def awake_def split: if_splits)
next
  case (Outer call)
  then show ?thesis using exec_loop_call_inv[OF inv, of upd rem env call L'] ok step by simp
next
  case (PollReturn t act q)
  then show ?thesis using assms by (auto simp: poll_return_def loop_inv_def awake_def)
next
  case Advance
  show ?thesis
  proof (cases "el_calls L")
    case Nil
    then show ?thesis using Advance ok step loop_advance_inv[OF inv, of env] by simp
  next
    case (Cons call rest)
    then have "el_pc L \<notin> {Testing, Polling, Swapping}" using inv by (auto simp: loop_inv_def)
    moreover have "loop_inv (L\<lparr>el_calls := rest\<rparr>)"
      using inv calculation by (simp add: loop_inv_def awake_def)
    ultimately show ?thesis
      using Advance step Cons exec_loop_call_inv[of "L\<lparr>el_calls := rest\<rparr>" upd rem env call L'] by simp
  qed
next
  case (OtherQueue f)
  then have "L' = (el_push f L)\<lparr>el_waking := Suc (el_waking L)\<rparr>" using step by simp
  then show ?thesis using inv by (simp add: loop_inv_def awake_def el_push_def)
next
  case OtherQuit
  then have "L' = L\<lparr>el_quit := True, el_waking := Suc (el_waking L)\<rparr>" using step by simp
  then show ?thesis using inv by (simp add: loop_inv_def awake_def)
next
  case OtherWakeup
  then have "L' = wakeup (L\<lparr>el_waking := el_waking L - 1\<rparr>)" using step by simp
  then show ?thesis using inv by (simp add: loop_inv_def awake_def)
qed

lemma new_event_loop_frame:
  assumes "new_event_loop upd me self wch wfd q tls = Inr (L, tls')"
  shows "el_pc L = Outside" "el_calls L = []" "el_pendingFunctors L = []" "el_queued L = []" "el_ran L = []"
    "\<not> el_looping L" "\<not> el_eventHandling L" "\<not> el_callingPendingFunctors L" "el_self L = self" "el_threadId L = me"
    "el_wakeups L = 0" "el_waking L = 0" "\<not> el_early L" "el_wakeupChannel L = wch"
  using assms by (auto simp: new_event_loop_def Let_def rbind_eq_Inr_iff split: if_splits dest!: el_mask_frame)

lemma loop_reach_inv: "loop_reach upd rem ok env L \<Longrightarrow> loop_inv L"
proof (induction rule: loop_reach.induct)
  case (create q self wch wfd tls L tls')
  then show ?case by (simp add: loop_inv_def new_event_loop_frame[OF create(1)])
next
  case (happen L ev L')
  show ?case by (rule loop_step_inv[OF happen.IH happen.hyps(2,3)])
qed

section \<open>Channels whose turn is to come\<close>

lemma el_mask_eq:
  assumes "loop_owns L p" "me = el_threadId L"
  shows "el_mask upd me m p L = rbind (ch_update upd me m p (el_poller L)) (\<lambda>q. Inr (L\<lparr>el_poller := q\<rparr>))"
  using assms
  by (auto simp: el_mask_def el_updateChannel_def ch_update_def owned_def loop_owns_def el_assertInLoopThread_def
      isInLoopThread_def po_set_def ch_mask_def)

definition may_remove :: "ptr \<Rightarrow> ('a, 'f) event_loop \<Rightarrow> bool" where
  "may_remove p L \<longleftrightarrow> el_eventHandling L \<longrightarrow> el_currentActiveChannel L = Some p \<or> p \<notin> set (el_activeChannels L)"

lemma el_remove_eq:
  assumes "loop_owns L p" "me = el_threadId L"
  shows "el_remove rem me p L =
    (if may_remove p L then rbind (ch_remove rem me p (el_poller L)) (\<lambda>q. Inr (L\<lparr>el_poller := q\<rparr>))
     else Inl AssertFail)"
  using assms
  by (auto simp: el_remove_def el_removeChannel_def ch_remove_def owned_def loop_owns_def el_assertInLoopThread_def
      isInLoopThread_def po_set_def may_remove_def)

lemma po_step_registered:
  assumes step: "po_step q q' p c'" and fd: "ch_fd c' = ch_fd c" and p: "po_heap q p = Some c"
    and chans: "po_channels q' = (po_channels q)(ch_fd c := x)" and r: "registered q r" "r \<noteq> p"
    and free: "po_channels q (ch_fd c) \<in> {None, Some p}"
  shows "registered q' r"
proof -
  obtain d where d: "po_heap q r = Some d" "po_channels q (ch_fd d) = Some r"
    using r(1) by (auto simp: registered_def)
  have "rel_option same_but_index (po_heap q' r) (Some d)" using step d(1) r(2) by (auto simp: po_step_def)
  then obtain d' where "po_heap q' r = Some d'" "ch_fd d' = ch_fd d"
    by (auto simp: option_rel_Some2 dest: same_but_indexD)
  moreover have "ch_fd d \<noteq> ch_fd c" using free d(2) r(2) by auto
  ultimately show ?thesis using chans d(2) by (auto simp: registered_def)
qed

text \<open>
  While channels are being dispatched, those whose turn is still to come are registered; the one
  being handled is not among them.
\<close>

definition turns_ok :: "('a, 'f) event_loop \<Rightarrow> bool" where
  "turns_ok L \<longleftrightarrow> po_threadId (el_poller L) = el_threadId L \<and>
     (case el_pc L of
       Dispatching ps \<Rightarrow> distinct ps \<and> set ps \<subseteq> set (el_activeChannels L)
         \<and> (\<forall>p \<in> set ps. registered (el_poller L) p \<and> el_currentActiveChannel L \<noteq> Some p)
     | _ \<Rightarrow> el_currentActiveChannel L = None)"

lemma turns_ok_same:
  assumes "turns_ok L" "el_pc L' = el_pc L" "el_activeChannels L' = el_activeChannels L"
    "el_currentActiveChannel L' = el_currentActiveChannel L" "el_poller L' = el_poller L"
    "el_threadId L' = el_threadId L"
  shows "turns_ok L'"
  using assms unfolding turns_ok_def by (cases "el_pc L") simp_all

lemma queueInLoop_fields [simp]:
  "el_pc (queueInLoop me f L) = el_pc L" "el_activeChannels (queueInLoop me f L) = el_activeChannels L"
  "el_currentActiveChannel (queueInLoop me f L) = el_currentActiveChannel L" "el_poller (queueInLoop me f L) = el_poller L"
  "el_threadId (queueInLoop me f L) = el_threadId L"
  by (simp_all add: queueInLoop_def el_push_def Let_def)

lemma turns_advance:
  assumes "turns_ok L"
  shows "turns_ok (loop_advance env L)"
  using assms
  by (auto simp: turns_ok_def loop_advance_def el_handleRead_def Let_def split: loop_pc.splits list.splits)

lemma poll_outcome_registered:
  assumes "poll_outcome ok q act q'" "p \<in> set act"
  shows "registered q' p"
proof -
  obtain c where c: "po_heap q p = Some c" "po_channels q (ch_fd c) = Some p"
    using assms by (auto simp: poll_outcome_def registered_def)
  have "without_revents q' p = without_revents q p" using assms(1) by (simp add: poll_outcome_def)
  then obtain c' where "po_heap q' p = Some c'" "c'\<lparr>ch_revents := 0\<rparr> = c\<lparr>ch_revents := 0\<rparr>"
    using c(1) by (auto simp: without_revents_def)
  moreover from this(2) have "ch_fd c' = ch_fd c" by (cases c; cases c') simp
  ultimately show ?thesis using assms(1) c(2) by (auto simp: poll_outcome_def registered_def)
qed

context poller_contract
begin

lemma loop_request_law:
  assumes ok: "ok (el_poller L)" and law: "call_lawful (Request req) L"
    and me: "me = el_threadId L" "po_threadId (el_poller L) = el_threadId L"
  shows "rpost (insert AssertFail E) (\<lambda>L'. ok (el_poller L') \<and> po_threadId (el_poller L') = el_threadId L
      \<and> (\<forall>r. registered (el_poller L) r \<longrightarrow> registered (el_poller L') r \<or> (req = Close r \<and> may_remove r L)))
    (el_request upd rem me req L)"
proof (cases req)
  case (Mask m p)
  let ?q = "el_poller L"
  obtain c where c: "po_heap ?q p = Some c" "usable ?q p c" "0 \<le> ch_fd c" and own: "loop_owns L p"
    using law Mask by auto
  have free: "po_channels ?q (ch_fd c) \<in> {None, Some p}" using c(2) by (auto simp: usable_def)
  have "rpost E (\<lambda>q'. ok q' \<and> po_step ?q q' p (ch_mask m c) \<and> po_channels q' = (po_channels ?q)(ch_fd c \<mapsto> p))
      (ch_update upd me m p ?q)"
    by (rule update_law[OF ok c(1) _ c(2,3)]) (simp add: me)
  moreover have "po_threadId q' = el_threadId L \<and> (\<forall>r. registered ?q r \<longrightarrow> registered q' r)"
    if "po_step ?q q' p (ch_mask m c)" "po_channels q' = (po_channels ?q)(ch_fd c \<mapsto> p)" for q'
  proof -
    have f: "ch_fd (ch_mask m c) = ch_fd c" by (simp add: ch_mask_def)
    have "registered q' p"
      using that by (auto simp: registered_def po_step_def option_rel_Some2 ch_mask_def dest!: same_but_indexD)
    then show ?thesis
      using po_step_registered[OF that(1) f c(1) that(2) _ _ free] that(1) me(2) by (auto simp: po_step_def)
  qed
  ultimately show ?thesis
    using Mask el_mask_eq[OF own me(1), of upd m]
    by (cases "ch_update upd me m p ?q") auto
next
  case (Close p)
  let ?q = "el_poller L"
  obtain c where c: "po_heap ?q p = Some c" "po_channels ?q (ch_fd c) = Some p" "0 \<le> ch_fd c"
    and own: "loop_owns L p"
    using law Close by (auto simp: registered_def)
  have u: "usable ?q p c" using c(2) by (simp add: usable_def)
  have upd: "rpost E (\<lambda>q'. ok q' \<and> po_step ?q q' p (ch_mask DisableAll c)
      \<and> po_channels q' = (po_channels ?q)(ch_fd c \<mapsto> p)) (ch_update upd me DisableAll p ?q)"
    by (rule update_law[OF ok c(1) _ u c(3)]) (simp add: me)
  have own': "loop_owns (L\<lparr>el_poller := q1\<rparr>) p" if "po_step ?q q1 p (ch_mask DisableAll c)" for q1
    using that own c(1) by (auto simp: loop_owns_def po_step_def option_rel_Some2 ch_mask_def dest!: same_but_indexD)
  have same: "el_request upd rem me req L =
      (case ch_update upd me DisableAll p ?q of Inl e \<Rightarrow> Inl e
       | Inr q1 \<Rightarrow> if may_remove p L then rbind (ch_remove rem me p q1) (\<lambda>q. Inr (L\<lparr>el_poller := q\<rparr>))
                  else Inl AssertFail)"
  proof (cases "ch_update upd me DisableAll p ?q")
    case (Inl e)
    then show ?thesis using Close el_mask_eq[OF own me(1), of upd DisableAll] by simp
  next
    case (Inr q1)
    then have "loop_owns (L\<lparr>el_poller := q1\<rparr>) p" using upd own' by simp
    from el_remove_eq[OF this, of me rem] show ?thesis
      using Inr Close el_mask_eq[OF own me(1), of upd DisableAll] me(1) by (simp add: may_remove_def)
  qed
  show ?thesis
  proof (cases "may_remove p L")
    case False
    then show ?thesis using same upd by (auto split: sum.splits)
  next
    case True
    have cl: "rpost E (\<lambda>q'. ok q' \<and> po_step ?q q' p ((ch_mask DisableAll c)\<lparr>ch_addedToLoop := False\<rparr>)
                 \<and> po_channels q' = (po_channels ?q)(ch_fd c := None)) (run_req upd rem me (Close p) ?q)"
      by (rule close_law[OF ok c(1) _ c(2)]) (simp add: me)
    have keep: "registered q' r" if "po_step ?q q' p ((ch_mask DisableAll c)\<lparr>ch_addedToLoop := False\<rparr>)"
      "po_channels q' = (po_channels ?q)(ch_fd c := None)" "registered ?q r" "r \<noteq> p" for q' r
      by (rule po_step_registered[OF that(1) _ c(1) that(2,3,4)]) (simp_all add: ch_mask_def c(2))
    have "el_request upd rem me req L = rbind (run_req upd rem me (Close p) ?q) (\<lambda>q. Inr (L\<lparr>el_poller := q\<rparr>))"
      using same True by (cases "ch_update upd me DisableAll p ?q") simp_all
    moreover have "rpost (insert AssertFail E) (\<lambda>L'. ok (el_poller L') \<and> po_threadId (el_poller L') = el_threadId L
      \<and> (\<forall>r. registered ?q r \<longrightarrow> registered (el_poller L') r \<or> (req = Close r \<and> may_remove r L)))
      (rbind (run_req upd rem me (Close p) ?q) (\<lambda>q. Inr (L\<lparr>el_poller := q\<rparr>)))"
      using cl keep True Close me(2)
      by (cases "run_req upd rem me (Close p) ?q") (auto simp: po_step_def)
    ultimately show ?thesis by simp
  qed
qed

lemma exec_loop_call_turns:
  assumes ok: "ok (el_poller L)" and t: "turns_ok L" and inv: "loop_inv L" and law: "call_lawful call L"
    and step: "exec_loop_call upd rem env call L = Inr L'"
  shows "ok (el_poller L') \<and> turns_ok L'"
proof (cases call)
  case (Request req)
  from step obtain q where q: "L' = L\<lparr>el_poller := q\<rparr>" unfolding Request by (auto dest!: el_request_frame)
  have me: "po_threadId (el_poller L) = el_threadId L" using t by (simp add: turns_ok_def)
  have r: "ok q \<and> po_threadId q = el_threadId L
      \<and> (\<forall>r. registered (el_poller L) r \<longrightarrow> registered q r \<or> (req = Close r \<and> may_remove r L))"
    using loop_request_law[OF ok law[unfolded Request] refl me] step q by (simp add: Request)
  have "registered q p" if d: "el_pc L = Dispatching ps" "p \<in> set ps" for p ps
  proof -
    have "el_eventHandling L" using inv d(1) by (simp add: loop_inv_def)
    then have "\<not> may_remove p L" using t d by (auto simp: turns_ok_def may_remove_def)
    then show ?thesis using r t d by (auto simp: turns_ok_def)
  qed
  then show ?thesis using r t q by (auto simp: turns_ok_def split: loop_pc.splits)
qed (use assms in \<open>auto simp: runInLoop_def quit_def isInLoopThread_def Let_def elim!: turns_ok_same\<close>)

lemma loop_step_turns:
  assumes ok: "ok (el_poller L)" and t: "turns_ok L" and inv: "loop_inv L" and ev: "loop_event_ok ok L ev"
    and step: "loop_step upd rem env ev L = Inr L'"
  shows "ok (el_poller L') \<and> turns_ok L'"
proof (cases ev)
  case Start
  then show ?thesis
    using assms by (auto simp: start_loop_def rbind_eq_Inr_iff turns_ok_def split: if_splits)
next
  case (Outer call)
  then have "call_lawful call L" "exec_loop_call upd rem env call L = Inr L'" using ev step by simp_all
  then show ?thesis by (rule exec_loop_call_turns[OF ok t inv])
next
  case (PollReturn s act q)
  then have o: "poll_outcome ok (el_poller L) act q" "L' = poll_return s act q L" "el_pc L = Polling"
    using ev step by simp_all
  then show ?thesis
    using t poll_outcome_registered[OF o(1)] by (auto simp: poll_return_def turns_ok_def poll_outcome_def)
next
  case Advance
  show ?thesis
  proof (cases "el_calls L")
    case Nil
    have "el_poller (loop_advance env L) = el_poller L"
      by (auto simp: loop_advance_def el_handleRead_def Let_def split: loop_pc.splits list.splits)
    then show ?thesis using Advance Nil step turns_advance[OF t] ok by auto
  next
    case (Cons call rest)
    let ?L = "L\<lparr>el_calls := rest\<rparr>"
    have "turns_ok ?L" by (rule turns_ok_same[OF t]) simp_all
    moreover have "el_pc L \<notin> {Testing, Polling, Swapping}" using inv Cons by (auto simp: loop_inv_def)
    then have "loop_inv ?L" using inv by (simp add: loop_inv_def awake_def)
    ultimately show ?thesis
      using exec_loop_call_turns[of ?L call env L'] ok ev step Advance Cons by simp
  qed
qed (use assms in \<open>auto simp: el_push_def elim!: turns_ok_same\<close>)

lemma loop_reach_turns: "loop_reach upd rem ok env L \<Longrightarrow> ok (el_poller L) \<and> turns_ok L"
proof (induction rule: loop_reach.induct)
  case (create q self wch wfd tls L tls')
  let ?c = "new_channel self wfd" and ?q = "po_set wch (new_channel self wfd) q"
  have c: "po_heap ?q wch = Some ?c" "usable ?q wch ?c" "0 \<le> ch_fd ?c" "po_threadId ?q = po_threadId q"
    using create(3,4) by (simp_all add: po_set_def usable_def new_channel_def is_fresh_def)
  have u: "rpost E (\<lambda>q'. ok q' \<and> po_step ?q q' wch (ch_mask EnableReading ?c)
       \<and> po_channels q' = (po_channels ?q)(ch_fd ?c \<mapsto> wch)) (ch_update upd (po_threadId q) EnableReading wch ?q)"
    by (rule update_law[OF create(2) c(1) _ c(2,3)]) (simp add: c(4))
  from create(1) obtain L0 where L0: "el_mask upd (po_threadId q) EnableReading wch L0 = Inr L"
    "el_poller L0 = ?q" "el_threadId L0 = po_threadId q" "el_self L0 = self" "el_pc L0 = Outside"
    "el_currentActiveChannel L0 = None"
    by (auto simp: new_event_loop_def Let_def rbind_eq_Inr_iff split: if_splits)
  have "loop_owns L0 wch" using L0 c(1) by (simp add: loop_owns_def new_channel_def)
  then have "rbind (ch_update upd (po_threadId q) EnableReading wch ?q) (\<lambda>q. Inr (L0\<lparr>el_poller := q\<rparr>)) = Inr L"
    using el_mask_eq[of L0 wch "po_threadId q" upd EnableReading] L0(1-3) by simp
  then obtain q'
    where q': "ch_update upd (po_threadId q) EnableReading wch ?q = Inr q'" "L = L0\<lparr>el_poller := q'\<rparr>"
    by (auto simp: rbind_eq_Inr_iff)
  then show ?case using u L0 c(4) by (simp add: turns_ok_def po_step_def)
next
  case (happen L ev L')
  show ?case
    using loop_step_turns[OF _ _ loop_reach_inv[OF happen.hyps(1)] happen.hyps(2,3)] happen.IH by blast
qed

end

text \<open>What the \<open>epoll\<close> poller does is such an outcome.\<close>

lemma ep_ok_same:
  assumes ok: "ep_ok interest q" and h: "without_revents q' = without_revents q"
    and k: "po_channels q' = po_channels q" "ep_kernel q' = ep_kernel q"
  shows "ep_ok interest q'"
  unfolding ep_ok_def
proof (intro conjI allI impI)
  fix fd p assume "po_channels q' fd = Some p"
  then have p: "po_channels q fd = Some p" using k by simp
  with ok obtain c where c: "po_heap q p = Some c" "ep_entry interest q fd p c" by (rule ep_okE)
  have "without_revents q' p = without_revents q p" using h by simp
  then obtain c' where c': "po_heap q' p = Some c'" "c'\<lparr>ch_revents := 0\<rparr> = c\<lparr>ch_revents := 0\<rparr>"
    using c(1) by (auto simp: without_revents_def)
  then have "ch_fd c' = ch_fd c" "ch_index c' = ch_index c" "ch_events c' = ch_events c"
    by (cases c; cases c'; simp)+
  then show "\<exists>c. po_heap q' p = Some c \<and> ep_entry interest q' fd p c"
    using c' c(2) k by (auto simp: ep_entry_def)
next
  fix fd assume "po_channels q' fd = None"
  then show "interest (ep_kernel q') fd = None" using ok k by (simp add: ep_ok_def)
qed

lemma ep_poll_outcome:
  assumes ok: "ep_ok interest q" and room: "length evs \<le> ep_events_size q"
    and watched: "\<forall>p \<in> snd ` set evs. \<exists>fd ev'. interest (ep_kernel q) fd = Some (ev', p)"
    and once: "distinct (map snd evs)"
  shows "\<exists>q'. ep_poll now (Inr evs) [] q = Inr (now, map snd evs, q')
      \<and> poll_outcome (ep_ok interest) q (map snd evs) q'"
proof -
  have reg: "registered q p" if p: "p \<in> snd ` set evs" for p
  proof -
    obtain fd ev' where i: "interest (ep_kernel q) fd = Some (ev', p)"
      using bspec[OF watched p] by blast
    then have "po_channels q fd \<noteq> None" using ok by (auto simp: ep_ok_def)
    then obtain r where r: "po_channels q fd = Some r" by blast
    with ok obtain c where "po_heap q r = Some c" "ep_entry interest q fd r c" by (rule ep_okE)
    then show ?thesis using r i by (auto simp: ep_entry_def registered_def)
  qed
  have out: "poll_outcome (ep_ok interest) q (map snd evs) q'"
    if "without_revents q' = without_revents q" "po_channels q' = po_channels q" "ep_kernel q' = ep_kernel q"
      "po_threadId q' = po_threadId q" for q'
    using that reg once ep_ok_same[OF ok that(1-3)] by (simp add: poll_outcome_def)
  show ?thesis
  proof (cases "evs = []")
    case True
    then show ?thesis using out[of q] by (simp add: ep_poll_def)
  next
    case False
    obtain q' where q': "rfold ep_fill_one evs ([], q) = Inr (map snd evs, q')"
      "without_revents q' = without_revents q"
      "po_channels q' = po_channels q" "po_threadId q' = po_threadId q" "ep_kernel q' = ep_kernel q"
      "ep_events_size q' = ep_events_size q"
      using ep_fill_ok[OF ok watched, of "[]"] by (auto simp: rpost_total without_revents_def fun_eq_iff)
    let ?q = "if length evs = ep_events_size q' then q'\<lparr>ep_events_size := ep_events_size q' * 2\<rparr> else q'"
    have "ep_poll now (Inr evs) [] q = Inr (now, map snd evs, ?q)"
      using False room q'(1,6) by (simp add: ep_poll_def ep_fillActiveChannels_def)
    moreover have "without_revents ?q = without_revents q"
      using q'(2) by (auto simp: without_revents_def fun_eq_iff)
    then have "poll_outcome (ep_ok interest) q (map snd evs) ?q"
      by (rule out) (use q' in auto)
    ultimately show ?thesis by blast
  qed
qed

section \<open>Properties\<close>


text \<open>A loop over the \<open>poll\<close> poller, with functors that do nothing.\<close>

definition idle_env :: "(unit poll_poller_ext, nat) loop_env" where
  "idle_env = \<lparr>le_functor = (\<lambda>_ _. []), le_handler = (\<lambda>_ _. [])\<rparr>"

definition idle_reach :: "(unit poll_poller_ext, nat) event_loop \<Rightarrow> bool" where
  "idle_reach = loop_reach pp_updateChannel pp_removeChannel pp_ok idle_env"

lemma idle_created:
  obtains L where "idle_reach L" "el_pc L = Outside" "el_calls L = []" "el_pendingFunctors L = []"
    "el_wakeups L = 0" "el_waking L = 0" "\<not> el_looping L" "\<not> el_early L" "\<not> el_callingPendingFunctors L"
    "registered (el_poller L) 99" "pp_ok (el_poller L)"
proof -
  let ?q = "new_poll_poller 3 (\<lambda>_. None)"
  have "\<exists>r. new_event_loop pp_updateChannel (po_threadId ?q) 1 99 7 ?q (\<lambda>_. None)
      = (Inr r :: ((unit poll_poller_ext, nat) event_loop \<times> (int \<Rightarrow> ptr option)) result)"
    by (simp add: new_event_loop_def new_poll_poller_def el_mask_def el_updateChannel_def owned_def
        el_assertInLoopThread_def isInLoopThread_def po_set_def new_channel_def ch_mask_def
        pp_updateChannel_def po_assertInLoopThread_def set_index_def Let_def)
  then obtain L :: "(unit poll_poller_ext, nat) event_loop" and tls where
    n: "new_event_loop pp_updateChannel (po_threadId ?q) 1 99 7 ?q (\<lambda>_. None) = Inr (L, tls)"
    by auto
  have r: "idle_reach L"
    unfolding idle_reach_def
    by (rule loop_reach.create[OF n]) (auto simp: new_poll_poller_def po_set_def pp_ok_def)
  have g: "registered (el_poller L) 99"
    using n by (auto simp: new_event_loop_def new_poll_poller_def el_mask_def el_updateChannel_def owned_def
        el_assertInLoopThread_def isInLoopThread_def po_set_def new_channel_def ch_mask_def
        pp_updateChannel_def po_assertInLoopThread_def set_index_def Let_def registered_def)
  have k: "pp_ok (el_poller L)"
    using poll.loop_reach_turns r by (auto simp: idle_reach_def)
  show ?thesis by (rule that[OF r]) (simp_all add: new_event_loop_frame[OF n] g k)
qed

lemma idle_happen:
  "idle_reach L \<Longrightarrow> loop_event_ok pp_ok L ev \<Longrightarrow> loop_step pp_updateChannel pp_removeChannel idle_env ev L = Inr L' \<Longrightarrow>
   idle_reach L'"
  unfolding idle_reach_def by (rule loop_reach.happen)

lemma idle_polling:
  assumes "idle_reach L" "el_pc L = Outside" "el_calls L = []"
  shows "idle_reach (L\<lparr>el_looping := True, el_quit := False, el_activeChannels := [], el_pc := Polling\<rparr>)"
proof -
  let ?L = "L\<lparr>el_looping := True, el_quit := False, el_pc := Testing\<rparr>"
  have "\<not> el_looping L" using loop_reach_inv assms by (fastforce simp: idle_reach_def loop_inv_def)
  then have "idle_reach ?L"
    by (intro idle_happen[OF assms(1), of Start])
      (simp_all add: assms start_loop_def el_assertInLoopThread_def isInLoopThread_def)
  from idle_happen[OF this, of Advance] show ?thesis using assms(3) by (simp add: loop_advance_def)
qed


text \<open>
  Functors run in the order in which they were queued, each once: those run, then those of the
  batch being run, then those waiting, are exactly the functors queued so far.
\<close>

theorem loop_runs_in_order:
  assumes "loop_reach upd rem ok env L"
  shows "el_queued L = el_ran L @ pc_batch (el_pc L) @ el_pendingFunctors L"
  using loop_reach_inv[OF assms] by (simp add: loop_inv_def)

lemma loop_runs_in_order_witness:
  "\<exists>L. idle_reach L \<and> el_queued L = el_ran L @ pc_batch (el_pc L) @ el_pendingFunctors L"
proof -
  obtain L where "idle_reach L" by (rule idle_created)
  then show ?thesis using loop_runs_in_order[of pp_updateChannel pp_removeChannel pp_ok idle_env L]
    by (intro exI[of _ L]) (simp add: idle_reach_def)
qed

lemma early_functor_waits:
  "\<exists>L. idle_reach L \<and> el_pc L = Polling \<and> el_pendingFunctors L = [42] \<and> el_wakeups L = 0 \<and> el_waking L = 0"
proof -
  obtain L where L: "idle_reach L" "el_pc L = Outside" "el_calls L = []" "el_pendingFunctors L = []"
    "el_wakeups L = 0" "el_waking L = 0" "\<not> el_callingPendingFunctors L"
    by (rule idle_created)
  let ?L1 = "(queueInLoop (el_threadId L) 42 L)\<lparr>el_early := (el_early L \<or> el_pc L = Outside)\<rparr>"
  have q: "queueInLoop (el_threadId L) 42 L = el_push 42 L"
    using L by (simp add: queueInLoop_def isInLoopThread_def el_push_def)
  have "idle_reach ?L1"
    by (rule idle_happen[OF L(1), of "Outer (QueueInLoop 42)"]) (simp_all add: L)
  then have "idle_reach (?L1\<lparr>el_looping := True, el_quit := False, el_activeChannels := [], el_pc := Polling\<rparr>)"
    by (rule idle_polling) (simp_all add: q L el_push_def)
  then show ?thesis
    unfolding q by (intro exI conjI, assumption) (simp_all add: el_push_def L)
qed

text \<open>
  The exception is real: a functor that the loop's thread queues before \<open>loop()\<close> does not
  wake the loop up; its first \<open>poll\<close> may block with the functor waiting.
\<close>

theorem early_functor_not_woken:
  "\<exists>L. loop_reach pp_updateChannel pp_removeChannel pp_ok idle_env L \<and> el_pc L = Polling
     \<and> el_pendingFunctors L = [42] \<and> el_wakeups L = 0 \<and> el_waking L = 0"
  using early_functor_waits by (simp add: idle_reach_def)

text \<open>
  \<open>quit()\<close> before \<open>loop()\<close> is lost: \<open>loop()\<close> resets the flag, and polls.
\<close>

theorem quit_before_loop_lost:
  assumes "loop_reach upd rem ok env L" and "el_pc L = Outside" and "el_calls L = []" and "me \<noteq> el_threadId L"
  shows "\<exists>L'. loop_step upd rem env Start (quit me L) = Inr L' \<and> loop_step upd rem env Advance L'
      = Inr (L'\<lparr>el_activeChannels := [], el_pc := Polling\<rparr>)"
  using loop_reach_inv[OF assms(1)] assms(2-)
  by (simp add: loop_inv_def quit_def isInLoopThread_def start_loop_def el_assertInLoopThread_def loop_advance_def
      Let_def wakeup_def)

lemma quit_before_loop_lost_witness:
  "\<exists>L L'. loop_step pp_updateChannel pp_removeChannel idle_env Start (quit (el_threadId L + 1) L) = Inr L'
      \<and> loop_step pp_updateChannel pp_removeChannel idle_env Advance L'
        = Inr (L'\<lparr>el_activeChannels := [], el_pc := Polling\<rparr>)"
proof -
  obtain L where L: "idle_reach L" "el_pc L = Outside" "el_calls L = []" by (rule idle_created)
  show ?thesis
    using quit_before_loop_lost[OF L(1)[unfolded idle_reach_def] L(2,3), of "el_threadId L + 1"] by auto
qed

text \<open>
  C24. A channel that is handled is alive: when \<open>loop()\<close> reaches a channel of the active list, with
  either poller, the channel is still registered, whatever the channels before it did, because
  \<open>removeChannel\<close> refuses to remove a channel whose turn is still to come.
\<close>

theorem active_channel_registered:
  assumes kernel: "epoll_kernel kctl interest"
  shows "(\<forall>L p ps. loop_reach pp_updateChannel pp_removeChannel pp_ok env L \<longrightarrow> el_pc L = Dispatching ps \<longrightarrow>
           p \<in> set ps \<longrightarrow> registered (el_poller L) p)
    \<and> (\<forall>L p ps. loop_reach (ep_updateChannel kctl) (ep_removeChannel kctl) (ep_ok interest) env' L \<longrightarrow>
           el_pc L = Dispatching ps \<longrightarrow> p \<in> set ps \<longrightarrow> registered (el_poller L) p)"
proof (intro conjI allI impI)
  fix L p ps
  assume "loop_reach pp_updateChannel pp_removeChannel pp_ok env L" "el_pc L = Dispatching ps" "p \<in> set ps"
  then show "registered (el_poller L) p" using poll.loop_reach_turns by (fastforce simp: turns_ok_def)
next
  fix L p ps
  assume a: "loop_reach (ep_updateChannel kctl) (ep_removeChannel kctl) (ep_ok interest) env' L"
    "el_pc L = Dispatching ps" "p \<in> set ps"
  then show "registered (el_poller L) p"
    using poller_contract.loop_reach_turns[OF ep_contract[OF kernel] a(1)] by (simp add: turns_ok_def)
qed

lemma active_channel_registered_witness:
  "\<exists>L. el_pc L = Dispatching [99] \<and> idle_reach L \<and> registered (el_poller L) 99"
proof -
  obtain L where L: "idle_reach L" "el_pc L = Outside" "el_calls L = []"
    "registered (el_poller L) 99" "pp_ok (el_poller L)"
    by (rule idle_created)
  let ?L1 = "L\<lparr>el_looping := True, el_quit := False, el_activeChannels := [], el_pc := Polling\<rparr>"
  let ?L2 = "poll_return (Timestamp 5) [99] (el_poller L) ?L1"
  have "poll_outcome pp_ok (el_poller L) [99] (el_poller L)" using L by (simp add: poll_outcome_def)
  then have r: "idle_reach ?L2"
    by (intro idle_happen[OF idle_polling[OF L(1-3)], of "PollReturn (Timestamp 5) [99] (el_poller L)"]) simp_all
  have pc: "el_pc ?L2 = Dispatching [99]" by (simp add: poll_return_def)
  have "registered (el_poller ?L2) 99"
    using conjunct1[OF active_channel_registered[OF map_ctl_kernel, of idle_env undefined]] r[unfolded idle_reach_def] pc
    by (metis list.set_intros(1))
  then show ?thesis using r pc by blast
qed

section \<open>Every functor that waits is run\<close>

text \<open>Callbacks that only queue functors and quit.\<close>

definition simple_env :: "('a, 'f) loop_env \<Rightarrow> bool" where
  "simple_env env \<longleftrightarrow> (\<forall>f p L. set (le_functor env f L) \<union> set (le_handler env p L) \<subseteq> insert Quit (range QueueInLoop))"

primrec advances ::
  "'a poller_op \<Rightarrow> 'a poller_op \<Rightarrow> ('a, 'f) loop_env \<Rightarrow> nat \<Rightarrow> ('a, 'f) event_loop \<Rightarrow> ('a, 'f) event_loop result" where
  "advances upd rem env 0 L = Inr L"
| "advances upd rem env (Suc n) L = rbind (loop_step upd rem env Advance L) (advances upd rem env n)"

lemma advances_trans:
  "advances upd rem env m L = Inr L1 \<Longrightarrow> advances upd rem env n L1 = Inr L2 \<Longrightarrow> advances upd rem env (m + n) L = Inr L2"
  by (induction m arbitrary: L) (auto simp: rbind_eq_Inr_iff)

lemma run_calls:
  assumes "set (el_calls L) \<subseteq> insert Quit (range QueueInLoop)"
  obtains n L' xs where "advances upd rem env n L = Inr L'" "el_calls L' = []" "el_pc L' = el_pc L"
    "el_ran L' = el_ran L" "el_pendingFunctors L' = el_pendingFunctors L @ xs"
  using assms
proof (induction "el_calls L" arbitrary: L thesis)
  case Nil
  show ?case by (rule Nil(2)[of 0 L "[]"]) (simp_all add: Nil(1)[symmetric])
next
  case (Cons call rest)
  have e: "el_calls L = call # rest" using Cons.hyps(2) by simp
  have c: "call \<in> insert Quit (range QueueInLoop)" using Cons.prems(2) e by auto
  let ?L = "L\<lparr>el_calls := rest\<rparr>"
  obtain L1 ys where L1: "exec_loop_call upd rem env call ?L = Inr L1" "el_calls L1 = rest" "el_pc L1 = el_pc L"
    "el_ran L1 = el_ran L" "el_pendingFunctors L1 = el_pendingFunctors L @ ys"
  proof (cases "call = Quit")
    case True
    show ?thesis by (rule that[of "quit (el_threadId L) ?L" "[]"]) (simp_all add: True quit_def Let_def)
  next
    case False
    then obtain cb where cb: "call = QueueInLoop cb" using c by blast
    show ?thesis
      by (rule that[of "(queueInLoop (el_threadId L) cb ?L)\<lparr>el_early := (el_early L \<or> el_pc L = Outside)\<rparr>" "[cb]"])
        (simp_all add: cb queueInLoop_def el_push_def Let_def)
  qed
  then have s: "loop_step upd rem env Advance L = Inr L1" by (simp add: e)
  obtain n L' xs where "advances upd rem env n L1 = Inr L'" "el_calls L' = []" "el_pc L' = el_pc L1"
    "el_ran L' = el_ran L1" "el_pendingFunctors L' = el_pendingFunctors L1 @ xs"
    using Cons.hyps(1)[of L1] L1(2) Cons.prems(2) e by auto
  then show ?case using L1 s by (intro Cons.prems(1)[of "Suc n" L' "ys @ xs"]) simp_all
qed

lemma run_batch:
  assumes "simple_env env" "el_pc L = Running fs" "el_calls L = []"
  obtains n L' where "advances upd rem env n L = Inr L'" "el_calls L' = []" "el_pc L' = Testing"
    "el_ran L' = el_ran L @ fs"
  using assms(2,3)
proof (induction fs arbitrary: L thesis)
  case Nil
  show ?case
    by (rule Nil(1)[of 1 "L\<lparr>el_callingPendingFunctors := False, el_pc := Testing\<rparr>"])
      (simp_all add: Nil(2,3) loop_advance_def)
next
  case (Cons f fs)
  let ?L = "L\<lparr>el_ran := el_ran L @ [f], el_pc := Running fs\<rparr>"
  let ?L1 = "?L\<lparr>el_calls := le_functor env f ?L\<rparr>"
  have s: "advances upd rem env 1 L = Inr ?L1" using Cons.prems by (simp add: loop_advance_def Let_def)
  have "set (el_calls ?L1) \<subseteq> insert Quit (range QueueInLoop)" using assms(1) by (simp add: simple_env_def)
  then obtain m L2 xs where L2: "advances upd rem env m ?L1 = Inr L2" "el_calls L2 = []" "el_pc L2 = el_pc ?L1"
    "el_ran L2 = el_ran ?L1" by (rule run_calls)
  obtain k L' where L': "advances upd rem env k L2 = Inr L'" "el_calls L' = []" "el_pc L' = Testing"
    "el_ran L' = el_ran L2 @ fs"
    by (rule Cons.IH[of L2]) (use L2 in simp_all)
  show ?case
    by (rule Cons.prems(1)[OF advances_trans[OF s advances_trans[OF L2(1) L'(1)]]]) (use L2 L' in simp_all)
qed

lemma run_dispatch:
  assumes "simple_env env" "el_pc L = Dispatching ps" "el_calls L = []"
  obtains n L' xs where "advances upd rem env n L = Inr L'" "el_calls L' = []" "el_pc L' = Swapping"
    "el_ran L' = el_ran L" "el_pendingFunctors L' = el_pendingFunctors L @ xs"
  using assms(2,3)
proof (induction ps arbitrary: L thesis)
  case Nil
  show ?case
    by (rule Nil(1)[of 1 "L\<lparr>el_currentActiveChannel := None, el_eventHandling := False,
          el_callingPendingFunctors := True, el_pc := Swapping\<rparr>" "[]"])
      (simp_all add: Nil(2,3) loop_advance_def)
next
  case (Cons p ps)
  let ?L = "L\<lparr>el_currentActiveChannel := Some p, el_pc := Dispatching ps\<rparr>"
  let ?L1 = "if p = el_wakeupChannel L then el_handleRead ?L else ?L\<lparr>el_calls := le_handler env p ?L\<rparr>"
  have s: "advances upd rem env 1 L = Inr ?L1" using Cons.prems by (simp add: loop_advance_def Let_def)
  have "set (el_calls ?L1) \<subseteq> insert Quit (range QueueInLoop)"
    using assms(1) Cons.prems(3) by (simp add: simple_env_def el_handleRead_def)
  then obtain m L2 xs where L2: "advances upd rem env m ?L1 = Inr L2" "el_calls L2 = []" "el_pc L2 = el_pc ?L1"
    "el_ran L2 = el_ran ?L1" "el_pendingFunctors L2 = el_pendingFunctors ?L1 @ xs" by (rule run_calls)
  obtain k L' ys where L': "advances upd rem env k L2 = Inr L'" "el_calls L' = []" "el_pc L' = Swapping"
    "el_ran L' = el_ran L2" "el_pendingFunctors L' = el_pendingFunctors L2 @ ys"
    by (rule Cons.IH[of L2]) (use L2 in \<open>simp_all add: el_handleRead_def split: if_splits\<close>)
  show ?case
    by (rule Cons.prems(1)[OF advances_trans[OF s advances_trans[OF L2(1) L'(1)]], of "xs @ ys"])
      (use L2 L' in \<open>simp_all add: el_handleRead_def split: if_splits\<close>)
qed



end
