(* ===== verification/LoopThreads.thy ===== *)
theory LoopThreads
  imports Text
begin

text \<open>
  Threads with an event loop of their own (src/zing/net/EventLoopThread.cpp) and pools of them
  (src/zing/net/EventLoopThreadPool.cpp): the handshake between the owner and the new thread, the
  end of the thread, and the choice of a loop for a connection.
\<close>

section \<open>A loop in a thread of its own\<close>

text \<open>
  The owner is in the constructor's epilogue, in \<open>startLoop\<close> (before the thread exists, waiting on
  the condition, or returned with the loop's address), or in the destructor (before \<open>quit\<close>, before
  \<open>join\<close>, after it). The thread has not started, runs the callback, is about to publish the loop, to
  enter \<open>loop()\<close>, is in it, has left it, or has ended.
\<close>

datatype owner_pc = Fresh | Waiting | Got ptr | Quitting | Joining | Gone

datatype thread_pc = Unborn | Init | Publish | Enter | Looping | Leaving | Ended

text \<open>
  \<open>lt_quit\<close> is the loop's \<open>quit_\<close>, \<open>lt_alive\<close> tells whether the loop object exists, \<open>lt_callbackRan\<close>
  whether the initial callback has run.
\<close>

record loop_thread =
  lt_loop :: ptr
  lt_exiting :: bool
  lt_owner :: owner_pc
  lt_thread :: thread_pc
  lt_quit :: bool
  lt_alive :: bool
  lt_callbackRan :: bool

definition new_loop_thread :: loop_thread where
  "new_loop_thread = \<lparr>lt_loop = 0, lt_exiting = False, lt_owner = Fresh, lt_thread = Unborn, lt_quit = False,
     lt_alive = False, lt_callbackRan = False\<rparr>"

text \<open>
  One step of the owner. \<open>startLoop\<close> returns when it finds \<open>loop_\<close> set; the destructor reads \<open>loop_\<close>,
  and \<open>quit()\<close> on a loop that is gone is undefined. A step that has to wait is no step.
\<close>

definition startLoop :: "loop_thread \<Rightarrow> loop_thread result" where
  "startLoop s = (if lt_thread s \<noteq> Unborn then Inl AssertFail
     else Inr (s\<lparr>lt_thread := Init, lt_owner := Waiting, lt_alive := True\<rparr>))"

definition startLoop_wait :: "loop_thread \<Rightarrow> loop_thread" where
  "startLoop_wait s = (if lt_loop s = 0 then s else s\<lparr>lt_owner := Got (lt_loop s)\<rparr>)"

definition destroy_check :: "loop_thread \<Rightarrow> loop_thread" where
  "destroy_check s = (let s1 = s\<lparr>lt_exiting := True\<rparr>
     in if lt_loop s1 \<noteq> 0 then s1\<lparr>lt_owner := Quitting\<rparr> else s1\<lparr>lt_owner := Gone\<rparr>)"

definition destroy_quit :: "loop_thread \<Rightarrow> loop_thread result" where
  "destroy_quit s = (if \<not> lt_alive s then Inl Undefined else Inr (s\<lparr>lt_quit := True, lt_owner := Joining\<rparr>))"

text \<open>
  One step of \<open>threadFunc\<close>, whose loop lives at address \<open>a\<close>. \<open>loop()\<close> resets \<open>quit_\<close> when it is
  entered, and is left when \<open>quit_\<close> is found set.
\<close>

definition threadFunc :: "ptr \<Rightarrow> loop_thread \<Rightarrow> loop_thread" where
  "threadFunc a s =
    (case lt_thread s of
       Unborn \<Rightarrow> s
     | Init \<Rightarrow> s\<lparr>lt_callbackRan := True, lt_thread := Publish\<rparr>
     | Publish \<Rightarrow> s\<lparr>lt_loop := a, lt_thread := Enter\<rparr>
     | Enter \<Rightarrow> s\<lparr>lt_quit := False, lt_thread := Looping\<rparr>
     | Looping \<Rightarrow> if lt_quit s then s\<lparr>lt_thread := Leaving\<rparr> else s
     | Leaving \<Rightarrow> s\<lparr>lt_loop := 0, lt_thread := Ended, lt_alive := False\<rparr>
     | Ended \<Rightarrow> s)"

inductive lt_step :: "ptr \<Rightarrow> loop_thread \<Rightarrow> loop_thread \<Rightarrow> bool" for a where
  start: "lt_owner s = Fresh \<Longrightarrow> startLoop s = Inr s' \<Longrightarrow> lt_step a s s'"
| wait: "lt_owner s = Waiting \<Longrightarrow> lt_step a s (startLoop_wait s)"
| destroy: "lt_owner s \<in> {Fresh} \<union> range Got \<Longrightarrow> lt_step a s (destroy_check s)"
| quit: "lt_owner s = Quitting \<Longrightarrow> destroy_quit s = Inr s' \<Longrightarrow> lt_step a s s'"
| join: "lt_owner s = Joining \<Longrightarrow> lt_thread s = Ended \<Longrightarrow> lt_step a s (s\<lparr>lt_owner := Gone\<rparr>)"
| thread: "lt_step a s (threadFunc a s)"

inductive_cases lt_stepE: "lt_step a s s'"

inductive lt_steps :: "ptr \<Rightarrow> loop_thread \<Rightarrow> loop_thread \<Rightarrow> bool" for a where
  none: "lt_steps a s s"
| more: "lt_steps a s s1 \<Longrightarrow> lt_step a s1 s2 \<Longrightarrow> lt_steps a s s2"

lemma lt_steps_trans: "lt_steps a s1 s2 \<Longrightarrow> lt_steps a s s1 \<Longrightarrow> lt_steps a s s2"
  by (induction rule: lt_steps.induct) (auto intro: lt_steps.more)

text \<open>The invariant: the address is published exactly between the two critical sections.\<close>

fun lt_owner_ok :: "ptr \<Rightarrow> owner_pc \<Rightarrow> thread_pc \<Rightarrow> bool \<Rightarrow> bool" where
  "lt_owner_ok a Fresh t q \<longleftrightarrow> t = Unborn \<and> \<not> q"
| "lt_owner_ok a Waiting t q \<longleftrightarrow> t \<noteq> Unborn \<and> t \<noteq> Leaving \<and> t \<noteq> Ended \<and> \<not> q"
| "lt_owner_ok a (Got p) t q \<longleftrightarrow> p = a \<and> (t = Enter \<or> t = Looping) \<and> \<not> q"
| "lt_owner_ok a Quitting t q \<longleftrightarrow> (t = Enter \<or> t = Looping) \<and> \<not> q"
| "lt_owner_ok a Joining t q \<longleftrightarrow> t = Enter \<or> t = Looping \<or> (t = Leaving \<or> t = Ended) \<and> q"
| "lt_owner_ok a Gone t q \<longleftrightarrow> t = Unborn \<or> t = Ended"

fun lt_thread_ok :: "ptr \<Rightarrow> thread_pc \<Rightarrow> ptr \<Rightarrow> bool \<Rightarrow> bool \<Rightarrow> bool" where
  "lt_thread_ok a Unborn l alive cbr \<longleftrightarrow> l = 0 \<and> \<not> alive \<and> \<not> cbr"
| "lt_thread_ok a Init l alive cbr \<longleftrightarrow> l = 0 \<and> alive \<and> \<not> cbr"
| "lt_thread_ok a Publish l alive cbr \<longleftrightarrow> l = 0 \<and> alive \<and> cbr"
| "lt_thread_ok a Ended l alive cbr \<longleftrightarrow> l = 0 \<and> \<not> alive \<and> cbr"
| "lt_thread_ok a t l alive cbr \<longleftrightarrow> l = a \<and> alive \<and> cbr"

definition lt_inv :: "ptr \<Rightarrow> loop_thread \<Rightarrow> bool" where
  "lt_inv a s \<longleftrightarrow> lt_owner_ok a (lt_owner s) (lt_thread s) (lt_quit s)
     \<and> lt_thread_ok a (lt_thread s) (lt_loop s) (lt_alive s) (lt_callbackRan s)"

lemma lt_step_inv:
  assumes "lt_step a s s'" "lt_inv a s" "a \<noteq> 0"
  shows "lt_inv a s'"
  using assms(1)
proof (cases rule: lt_step.cases)
  case start
  then show ?thesis using assms(2) by (auto simp: lt_inv_def startLoop_def split: if_splits)
next
  case wait
  then show ?thesis using assms(2,3) by (cases "lt_thread s") (auto simp: lt_inv_def startLoop_wait_def)
next
  case destroy
  then show ?thesis
    using assms(2,3) by (cases "lt_thread s") (auto simp: lt_inv_def destroy_check_def Let_def)
next
  case quit
  then show ?thesis
    using assms(2) by (cases "lt_thread s") (auto simp: lt_inv_def destroy_quit_def split: if_splits)
next
  case join
  then show ?thesis using assms(2) by (simp add: lt_inv_def)
next
  case thread
  then show ?thesis
    using assms(2) by (cases "lt_thread s"; cases "lt_owner s") (simp_all add: lt_inv_def threadFunc_def)
qed

lemma lt_steps_inv: "lt_steps a s s' \<Longrightarrow> lt_inv a s \<Longrightarrow> a \<noteq> 0 \<Longrightarrow> lt_inv a s'"
  by (induction rule: lt_steps.induct) (auto intro: lt_step_inv)

lemma new_loop_thread_inv: "lt_inv a new_loop_thread"
  by (auto simp: lt_inv_def new_loop_thread_def)

text \<open>
  \<open>startLoop\<close> returns the address of the new thread's loop, never a null pointer, and not before
  the loop was constructed and the initial callback had run; while nobody destroys the object the
  loop stays alive.
\<close>

theorem startLoop_returns_live_loop:
  assumes "lt_steps a new_loop_thread s" and "a \<noteq> 0" and "lt_owner s = Got p"
  shows "p = a \<and> p \<noteq> 0 \<and> lt_alive s \<and> lt_callbackRan s \<and> lt_thread s \<in> {Enter, Looping}"
  using lt_steps_inv[OF assms(1) new_loop_thread_inv assms(2)] assms(2,3) by (auto simp: lt_inv_def)

text \<open>
  The destructor never misuses the loop: when it calls \<open>quit\<close> through \<open>loop_\<close>, the loop exists,
  and the thread has ended when the destructor returns after a start.
\<close>

theorem destructor_safe:
  assumes "lt_steps a new_loop_thread s" and "a \<noteq> 0"
  shows "(lt_owner s = Quitting \<longrightarrow> (\<exists>s'. destroy_quit s = Inr s'))
    \<and> (lt_owner s = Gone \<longrightarrow> lt_thread s \<in> {Unborn, Ended})"
  using lt_steps_inv[OF assms(1) new_loop_thread_inv assms(2)]
  by (auto simp: lt_inv_def destroy_quit_def)

text \<open>A run: the thread is started and destroyed before it enters \<open>loop()\<close>.\<close>

definition published :: loop_thread where
  "published = \<lparr>lt_loop = 9, lt_exiting = False, lt_owner = Got 9, lt_thread = Enter, lt_quit = False,
     lt_alive = True, lt_callbackRan = True\<rparr>"

lemma lt_step_thread: "threadFunc a s = s' \<Longrightarrow> lt_step a s s'"
  using lt_step.thread by blast

lemma published_reach: "lt_steps 9 new_loop_thread published"
proof -
  let ?s1 = "new_loop_thread\<lparr>lt_thread := Init, lt_owner := Waiting, lt_alive := True\<rparr>"
  let ?s2 = "?s1\<lparr>lt_callbackRan := True, lt_thread := Publish\<rparr>"
  let ?s3 = "?s2\<lparr>lt_loop := 9, lt_thread := Enter\<rparr>"
  have 1: "lt_step 9 new_loop_thread ?s1"
    by (rule lt_step.start) (simp_all add: new_loop_thread_def startLoop_def)
  have 2: "lt_step 9 ?s1 ?s2" by (rule lt_step_thread) (simp add: threadFunc_def)
  have 3: "lt_step 9 ?s2 ?s3" by (rule lt_step_thread) (simp add: threadFunc_def)
  have 4: "startLoop_wait ?s3 = published"
    by (simp add: startLoop_wait_def published_def new_loop_thread_def)
  have "lt_step 9 ?s3 (startLoop_wait ?s3)" by (rule lt_step.wait) simp
  then have "lt_step 9 ?s3 published" unfolding 4 .
  then show ?thesis
    by (rule lt_steps.more[OF lt_steps.more[OF lt_steps.more[OF lt_steps.more[OF lt_steps.none 1] 2] 3]])
qed

lemma startLoop_returns_live_loop_witness:
  "(9 :: ptr) = 9 \<and> (9 :: ptr) \<noteq> 0 \<and> lt_alive published \<and> lt_callbackRan published
     \<and> lt_thread published \<in> {Enter, Looping}"
  by (rule startLoop_returns_live_loop[OF published_reach]) (simp_all add: published_def)

definition quitting :: loop_thread where
  "quitting = published\<lparr>lt_exiting := True, lt_owner := Quitting\<rparr>"

lemma quitting_reach: "lt_steps 9 new_loop_thread quitting"
proof -
  have "lt_step 9 published (destroy_check published)"
    by (rule lt_step.destroy) (simp add: published_def)
  then have "lt_step 9 published quitting" by (simp add: destroy_check_def published_def quitting_def)
  then show ?thesis by (rule lt_steps.more[OF published_reach])
qed

lemma destructor_safe_witness:
  "lt_owner quitting = Quitting \<and> (\<exists>s'. destroy_quit quitting = Inr s')"
  using destructor_safe[OF quitting_reach] by (simp add: quitting_def)

definition quit_too_early :: loop_thread where
  "quit_too_early = quitting\<lparr>lt_quit := True, lt_owner := Joining\<rparr>"

lemma quit_too_early_reach: "lt_steps 9 new_loop_thread quit_too_early"
proof -
  have "lt_step 9 quitting quit_too_early"
    by (rule lt_step.quit) (simp_all add: destroy_quit_def published_def quitting_def quit_too_early_def)
  then show ?thesis by (rule lt_steps.more[OF quitting_reach])
qed

lemma hang_stable:
  assumes "lt_steps a s s'" "lt_owner s = Joining" "\<not> lt_quit s" "lt_thread s = Looping"
  shows "lt_owner s' = Joining \<and> \<not> lt_quit s' \<and> lt_thread s' = Looping"
  using assms
proof (induction rule: lt_steps.induct)
  case (more s s1 s2)
  from more.hyps(2) more.IH[OF more.prems] show ?case
    by (cases rule: lt_step.cases) (auto simp: threadFunc_def)
qed simp

text \<open>
  C40. The destructor can hang. When it runs after \<open>startLoop\<close> has returned and before the new thread
  has entered \<open>loop()\<close>, the request to quit is overwritten, and whatever the two threads do afterwards
  the destructor waits in \<open>join\<close> for ever.
\<close>

theorem destructor_can_hang:
  "\<exists>s. lt_steps 9 new_loop_thread s \<and> lt_owner s = Joining
     \<and> (\<forall>s'. lt_steps 9 s s' \<longrightarrow> lt_owner s' = Joining)"
proof -
  let ?s = "quit_too_early\<lparr>lt_quit := False, lt_thread := Looping\<rparr>"
  have "threadFunc 9 quit_too_early = ?s"
    by (simp add: threadFunc_def quit_too_early_def quitting_def published_def)
  then have "lt_step 9 quit_too_early ?s" by (rule lt_step_thread)
  then have "lt_steps 9 new_loop_thread ?s" by (rule lt_steps.more[OF quit_too_early_reach])
  moreover have "lt_owner s' = Joining" if "lt_steps 9 ?s s'" for s'
    using hang_stable[OF that] by (simp add: quit_too_early_def)
  ultimately show ?thesis by (intro exI[of _ ?s]) (auto simp: quit_too_early_def)
qed

lemma destructor_can_hang_witness:
  "\<exists>s. lt_steps 9 new_loop_thread s \<and> lt_owner s = Joining \<and> \<not> (\<exists>s'. lt_steps 9 s s' \<and> lt_owner s' = Gone)"
  using destructor_can_hang by (metis owner_pc.distinct(29))

section \<open>A pool of loops\<close>

text \<open>\<open>next_\<close> is an \<open>int\<close> of the program; it stays far below its limit.\<close>

record loop_pool =
  lp_baseLoop :: ptr
  lp_name :: string
  lp_started :: bool
  lp_numThreads :: int
  lp_next :: nat
  lp_threads :: "string list"
  lp_loops :: "ptr list"
  lp_threadId :: int

definition new_loop_pool :: "int \<Rightarrow> ptr \<Rightarrow> string \<Rightarrow> loop_pool" where
  "new_loop_pool tid baseLoop name =
     \<lparr>lp_baseLoop = baseLoop, lp_name = name, lp_started = False, lp_numThreads = 0, lp_next = 0,
      lp_threads = [], lp_loops = [], lp_threadId = tid\<rparr>"

definition lp_setThreadNum :: "int \<Rightarrow> loop_pool \<Rightarrow> loop_pool" where
  "lp_setThreadNum n pool = pool\<lparr>lp_numThreads := n\<rparr>"

definition lp_assertInLoopThread :: "int \<Rightarrow> loop_pool \<Rightarrow> unit result" where
  "lp_assertInLoopThread me pool = (if me = lp_threadId pool then Inr () else Inl Fatal)"

definition lp_add :: "(nat \<Rightarrow> ptr) \<Rightarrow> nat \<Rightarrow> loop_pool \<Rightarrow> loop_pool" where
  "lp_add addr i pool =
    (let buf = snprintf_to (length (lp_name pool) + 32) (lp_name pool @ int_dec (int i))
     in pool\<lparr>lp_threads := lp_threads pool @ [buf], lp_loops := lp_loops pool @ [addr i]\<rparr>)"

text \<open>\<open>addr i\<close> is the address of the loop of the \<open>i\<close>-th thread, as \<open>startLoop\<close> returns it. The result
  also says whether the initial callback is run on the base loop.\<close>

definition lp_start :: "int \<Rightarrow> bool \<Rightarrow> (nat \<Rightarrow> ptr) \<Rightarrow> loop_pool \<Rightarrow> (bool \<times> loop_pool) result" where
  "lp_start me cb addr pool =
    (if lp_started pool then Inl AssertFail
     else rbind (lp_assertInLoopThread me pool) (\<lambda>_.
       let pool1 = fold (lp_add addr) [0..<nat (lp_numThreads pool)] (pool\<lparr>lp_started := True\<rparr>)
       in Inr (lp_numThreads pool1 = 0 \<and> cb, pool1)))"

definition getNextLoop :: "int \<Rightarrow> loop_pool \<Rightarrow> (ptr \<times> loop_pool) result" where
  "getNextLoop me pool =
    rbind (lp_assertInLoopThread me pool) (\<lambda>_.
    if \<not> lp_started pool then Inl AssertFail
    else if lp_loops pool \<noteq> []
    then if \<not> lp_next pool < length (lp_loops pool) then Inl Undefined
         else let loop = lp_loops pool ! lp_next pool; n = Suc (lp_next pool)
              in Inr (loop, pool\<lparr>lp_next := (if length (lp_loops pool) \<le> n then 0 else n)\<rparr>)
    else Inr (lp_baseLoop pool, pool))"

definition getLoopForHash :: "int \<Rightarrow> nat \<Rightarrow> loop_pool \<Rightarrow> ptr result" where
  "getLoopForHash me hashCode pool =
    rbind (lp_assertInLoopThread me pool) (\<lambda>_.
    if lp_loops pool \<noteq> [] then Inr (lp_loops pool ! (hashCode mod length (lp_loops pool)))
    else Inr (lp_baseLoop pool))"

definition getAllLoops :: "int \<Rightarrow> loop_pool \<Rightarrow> ptr list result" where
  "getAllLoops me pool =
    rbind (lp_assertInLoopThread me pool) (\<lambda>_.
    if \<not> lp_started pool then Inl AssertFail
    else if lp_loops pool = [] then Inr [lp_baseLoop pool] else Inr (lp_loops pool))"

text \<open>Repeated calls of \<open>getNextLoop\<close>.\<close>

fun deal :: "int \<Rightarrow> nat \<Rightarrow> loop_pool \<Rightarrow> (ptr list \<times> loop_pool) result" where
  "deal me 0 pool = Inr ([], pool)"
| "deal me (Suc k) pool =
     rbind (getNextLoop me pool) (\<lambda>(loop, pool1).
     rbind (deal me k pool1) (\<lambda>(loops, pool2). Inr (loop # loops, pool2)))"

lemma lp_add_fold:
  "fold (lp_add addr) is pool = pool\<lparr>
     lp_threads := lp_threads pool @
       map (\<lambda>i. snprintf_to (length (lp_name pool) + 32) (lp_name pool @ int_dec (int i))) is,
     lp_loops := lp_loops pool @ map addr is\<rparr>"
  by (induction "is" arbitrary: pool) (simp_all add: lp_add_def)

lemma lp_start_new:
  "lp_start tid cb addr (lp_setThreadNum n (new_loop_pool tid base name)) = Inr (n = 0 \<and> cb,
     \<lparr>lp_baseLoop = base, lp_name = name, lp_started = True, lp_numThreads = n, lp_next = 0,
      lp_threads = map (\<lambda>i. snprintf_to (length name + 32) (name @ int_dec (int i))) [0..<nat n],
      lp_loops = map addr [0..<nat n], lp_threadId = tid\<rparr>)"
  by (simp add: lp_start_def lp_add_fold lp_setThreadNum_def new_loop_pool_def lp_assertInLoopThread_def Let_def)

lemma getNextLoop_round:
  assumes "lp_started pool" "lp_threadId pool = tid" "lp_loops pool = ls" "0 < length ls" "lp_next pool = k mod length ls"
  shows "getNextLoop tid pool = Inr (ls ! (k mod length ls), pool\<lparr>lp_next := Suc k mod length ls\<rparr>)"
proof -
  have l: "k mod length ls < length ls" using assms(4) by simp
  moreover have "Suc k mod length ls = (if length ls \<le> Suc (k mod length ls) then 0 else Suc (k mod length ls))"
    using l by (auto simp: mod_Suc)
  ultimately show ?thesis using assms by (auto simp: getNextLoop_def lp_assertInLoopThread_def Let_def)
qed

lemma deal_round:
  assumes "lp_started pool" "lp_threadId pool = tid" "lp_loops pool = ls" "0 < length ls" "lp_next pool = k mod length ls"
  shows "\<exists>pool'. deal tid m pool = Inr (map (\<lambda>i. ls ! (i mod length ls)) [k..<k + m], pool')"
  using assms
proof (induction m arbitrary: k pool)
  case (Suc m)
  let ?pool = "pool\<lparr>lp_next := Suc k mod length ls\<rparr>"
  obtain pool' where "deal tid m ?pool = Inr (map (\<lambda>i. ls ! (i mod length ls)) [Suc k..<Suc k + m], pool')"
    using Suc.IH[of ?pool "Suc k"] Suc.prems by auto
  moreover have "[k..<k + Suc m] = k # [Suc k..<Suc k + m]" by (simp add: upt_rec[of k])
  ultimately show ?case using getNextLoop_round[OF Suc.prems] by (simp del: upt_Suc)
qed simp

lemma deal_base:
  "lp_started pool \<Longrightarrow> lp_threadId pool = tid \<Longrightarrow> lp_loops pool = [] \<Longrightarrow>
   deal tid m pool = Inr (replicate m (lp_baseLoop pool), pool)"
  by (induction m) (simp_all add: getNextLoop_def lp_assertInLoopThread_def)

text \<open>
  A pool deals its loops in turn: after \<open>setThreadNum(n)\<close> and \<open>start()\<close>, the \<open>i\<close>-th call of
  \<open>getNextLoop\<close> returns the loop of thread \<open>i mod n\<close>, or the base loop when there are no threads;
  no index is out of range and no assertion fails.
\<close>

theorem pool_round_robin:
  "\<exists>pool pool'. lp_start tid cb addr (lp_setThreadNum n (new_loop_pool tid base name)) = Inr (n = 0 \<and> cb, pool)
     \<and> deal tid k pool = Inr (map (\<lambda>i. if nat n = 0 then base else addr (i mod nat n)) [0..<k], pool')"
proof (cases "nat n = 0")
  case True
  then show ?thesis unfolding lp_start_new by (simp add: deal_base map_replicate_const)
next
  case False
  let ?pool = "\<lparr>lp_baseLoop = base, lp_name = name, lp_started = True, lp_numThreads = n, lp_next = 0,
      lp_threads = map (\<lambda>i. snprintf_to (length name + 32) (name @ int_dec (int i))) [0..<nat n],
      lp_loops = map addr [0..<nat n], lp_threadId = tid\<rparr>"
  obtain pool' where "deal tid k ?pool
      = Inr (map (\<lambda>i. map addr [0..<nat n] ! (i mod length (map addr [0..<nat n]))) [0..<0 + k], pool')"
    using deal_round[of ?pool tid "map addr [0..<nat n]" 0 k] False by auto
  then show ?thesis unfolding lp_start_new using False by simp
qed

text \<open>The loop for a hash code belongs to the pool.\<close>

lemma getLoopForHash_member:
  "\<exists>loop. getLoopForHash (lp_threadId pool) h pool = Inr loop
     \<and> loop \<in> (if lp_loops pool = [] then {lp_baseLoop pool} else set (lp_loops pool))"
  by (simp add: getLoopForHash_def lp_assertInLoopThread_def)

end
