(* ===== verification/Endian.thy ===== *)
theory Endian
  imports Zing_Prelude
begin

text \<open>
  Byte order (src/zing/net/Endian.h) and the byte image of an integer in memory, which
  \<open>memcpy\<close> and \<open>append(&x, sizeof x)\<close> expose. The conversions are glibc's
  \<open>htobe64\<close> and its kin: a byte swap on a little-endian host and the identity on a
  big-endian one. The model takes the host's order as an argument, so that the facts hold
  on either kind of host.
\<close>

unbundle bit_operations_syntax

type_synonym byte = "8 word"

datatype byte_order = LittleEndian | BigEndian

section \<open>The bytes of a word\<close>

definition le_bytes :: "'a::len word \<Rightarrow> byte list" where
  "le_bytes w = map (\<lambda>i. ucast (drop_bit (8 * i) w)) [0..<LENGTH('a) div 8]"

definition from_le :: "byte list \<Rightarrow> 'a::len word" where
  "from_le bs = foldr (\<lambda>b acc. push_bit 8 acc OR ucast b) bs 0"

definition mem_bytes :: "byte_order \<Rightarrow> 'a::len word \<Rightarrow> byte list" where
  "mem_bytes host w = (case host of LittleEndian \<Rightarrow> le_bytes w | BigEndian \<Rightarrow> rev (le_bytes w))"

definition mem_read :: "byte_order \<Rightarrow> byte list \<Rightarrow> 'a::len word" where
  "mem_read host bs = (case host of LittleEndian \<Rightarrow> from_le bs | BigEndian \<Rightarrow> from_le (rev bs))"

definition be_bytes :: "'a::len word \<Rightarrow> byte list" where
  "be_bytes w = rev (le_bytes w)"

definition bswap :: "'a::len word \<Rightarrow> 'a word" where
  "bswap w = from_le (rev (le_bytes w))"

definition htobe :: "byte_order \<Rightarrow> 'a::len word \<Rightarrow> 'a word" where
  "htobe host w = (case host of LittleEndian \<Rightarrow> bswap w | BigEndian \<Rightarrow> w)"

section \<open>The conversions of Endian.h\<close>

definition hostToNetwork64 :: "byte_order \<Rightarrow> 64 word \<Rightarrow> 64 word" where
  "hostToNetwork64 host host64 = htobe host host64"

definition hostToNetwork32 :: "byte_order \<Rightarrow> 32 word \<Rightarrow> 32 word" where
  "hostToNetwork32 host host32 = htobe host host32"

definition hostToNetwork16 :: "byte_order \<Rightarrow> 16 word \<Rightarrow> 16 word" where
  "hostToNetwork16 host host16 = htobe host host16"

definition networkToHost64 :: "byte_order \<Rightarrow> 64 word \<Rightarrow> 64 word" where
  "networkToHost64 host net64 = htobe host net64"

definition networkToHost32 :: "byte_order \<Rightarrow> 32 word \<Rightarrow> 32 word" where
  "networkToHost32 host net32 = htobe host net32"

definition networkToHost16 :: "byte_order \<Rightarrow> 16 word \<Rightarrow> 16 word" where
  "networkToHost16 host net16 = htobe host net16"

lemmas endian_conv_defs =
  hostToNetwork64_def hostToNetwork32_def hostToNetwork16_def
  networkToHost64_def networkToHost32_def networkToHost16_def

section \<open>Facts on byte images\<close>

lemma length_le_bytes [simp]: "length (le_bytes (w :: 'a::len word)) = LENGTH('a) div 8"
  by (simp add: le_bytes_def)

lemma length_be_bytes [simp]: "length (be_bytes (w :: 'a::len word)) = LENGTH('a) div 8"
  by (simp add: be_bytes_def)

lemma length_mem_bytes [simp]:
  "length (mem_bytes host (w :: 'a::len word)) = LENGTH('a) div 8"
  by (simp add: mem_bytes_def split: byte_order.split)

lemma bit_le_bytes:
  "i < LENGTH('a) div 8 \<Longrightarrow> bit (le_bytes (w :: 'a::len word) ! i) j \<longleftrightarrow> j < 8 \<and> bit w (8 * i + j)"
  by (auto simp: le_bytes_def bit_simps dest: bit_imp_le_length)

lemma bit_from_le:
  "bit (from_le bs :: 'a::len word) k \<longleftrightarrow>
   k < LENGTH('a) \<and> k div 8 < length bs \<and> bit (bs ! (k div 8)) (k mod 8)"
proof (induction bs arbitrary: k)
  case Nil
  then show ?case by (simp add: from_le_def)
next
  case (Cons b bs)
  have step: "from_le (b # bs) = (push_bit 8 (from_le bs) OR ucast b :: 'a word)"
    by (simp add: from_le_def)
  show ?case
  proof (cases "k < 8")
    case True
    then show ?thesis
      by (auto simp: step bit_simps dest: bit_imp_le_length)
  next
    case False
    then have eq: "k div 8 = Suc ((k - 8) div 8)" "(k - 8) mod 8 = k mod 8"
      by (auto simp: le_div_geq le_mod_geq)
    have "\<not> bit b k" using False by (auto dest: bit_imp_le_length)
    with False show ?thesis
      by (auto simp: step bit_simps Cons.IH eq)
  qed
qed

lemma from_le_bytes [simp]:
  assumes "8 dvd LENGTH('a)"
  shows "from_le (le_bytes w) = (w :: 'a::len word)"
proof (rule bit_eqI)
  fix k
  assume "possible_bit TYPE('a word) k"
  then have k: "k < LENGTH('a)" by simp
  with assms have "k div 8 < LENGTH('a) div 8"
    by (simp add: less_mult_imp_div_less)
  with k show "bit (from_le (le_bytes w) :: 'a word) k = bit w k"
    by (simp add: bit_from_le bit_le_bytes)
qed

lemma le_bytes_from_le [simp]:
  assumes "8 * length bs = LENGTH('a)"
  shows "le_bytes (from_le bs :: 'a::len word) = bs"
proof (rule nth_equalityI)
  show "length (le_bytes (from_le bs :: 'a word)) = length bs"
    using assms by simp
next
  fix i
  assume "i < length (le_bytes (from_le bs :: 'a word))"
  then have i: "i < LENGTH('a) div 8" "i < length bs" using assms by auto
  show "le_bytes (from_le bs :: 'a word) ! i = bs ! i"
  proof (rule bit_eqI)
    fix j
    assume "possible_bit TYPE(8 word) j"
    then have j: "j < 8" by simp
    then have "8 * i + j < LENGTH('a)" using i assms by simp
    with i j show "bit (le_bytes (from_le bs :: 'a word) ! i) j = bit (bs ! i) j"
      by (simp add: bit_le_bytes bit_from_le)
  qed
qed

lemma mem_read_bytes [simp]:
  "8 dvd LENGTH('a) \<Longrightarrow> mem_read host (mem_bytes host w) = (w :: 'a::len word)"
  by (simp add: mem_read_def mem_bytes_def split: byte_order.split)

lemma le_bytes_bswap:
  "8 dvd LENGTH('a) \<Longrightarrow> le_bytes (bswap (w :: 'a::len word)) = rev (le_bytes w)"
  by (simp add: bswap_def)

lemma bswap_bswap [simp]: "8 dvd LENGTH('a) \<Longrightarrow> bswap (bswap w) = (w :: 'a::len word)"
  by (simp add: bswap_def[of "bswap w"] le_bytes_bswap)

lemma htobe_htobe [simp]: "8 dvd LENGTH('a) \<Longrightarrow> htobe host (htobe host w) = (w :: 'a::len word)"
  by (simp add: htobe_def split: byte_order.split)

text \<open>The image of a converted word is its big-endian bytes, whatever the host.\<close>

lemma mem_bytes_htobe:
  "8 dvd LENGTH('a) \<Longrightarrow> mem_bytes host (htobe host (w :: 'a::len word)) = be_bytes w"
  by (simp add: mem_bytes_def htobe_def be_bytes_def le_bytes_bswap split: byte_order.split)

lemma htobe_mem_read:
  assumes "8 dvd LENGTH('a)"
  shows "htobe host (mem_read host (be_bytes w)) = (w :: 'a::len word)"
  by (metis assms htobe_htobe mem_bytes_htobe mem_read_bytes)

end
