(* ===== verification/Buffer.thy ===== *)
theory Buffer
  imports Endian
begin

text \<open>
  The byte buffer of a connection (src/zing/net/Buffer.h and Buffer.cpp): a vector with a
  reader and a writer index. Pointers into the buffer are offsets from \<open>begin()\<close>.
  Every size is a \<open>size_t\<close> (sums and differences wrap around), every \<open>assert\<close> and
  the vector's \<open>length_error\<close> are branches.
\<close>

section \<open>State and observers\<close>

record buffer =
  buffer_vec :: "byte list"
  readerIndex :: nat
  writerIndex :: nat

definition kCheapPrepend :: nat where "kCheapPrepend = 8"

definition kInitialSize :: nat where "kInitialSize = 1024"

definition kCRLF :: "byte list" where "kCRLF = [13, 10]"

definition readableBytes :: "buffer \<Rightarrow> nat" where
  "readableBytes b = sz_sub (writerIndex b) (readerIndex b)"

definition writableBytes :: "buffer \<Rightarrow> nat" where
  "writableBytes b = sz_sub (length (buffer_vec b)) (writerIndex b)"

definition prependableBytes :: "buffer \<Rightarrow> nat" where
  "prependableBytes b = readerIndex b"

definition peek :: "buffer \<Rightarrow> nat" where
  "peek b = readerIndex b"

definition beginWrite :: "buffer \<Rightarrow> nat" where
  "beginWrite b = writerIndex b"

text \<open>The constructor: \<open>vector(kCheapPrepend + initialSize)\<close>, zero-initialised.\<close>

definition newBuffer :: "nat \<Rightarrow> buffer result" where
  "newBuffer initialSize =
    (let sz = sz_add kCheapPrepend initialSize
     in if max_vec < sz then Inl LengthError
        else let b = \<lparr>buffer_vec = replicate sz 0,
                      readerIndex = kCheapPrepend, writerIndex = kCheapPrepend\<rparr>
             in if readableBytes b = 0 \<and> writableBytes b = initialSize
                   \<and> prependableBytes b = kCheapPrepend
                then Inr b else Inl AssertFail)"

definition swap_buffers :: "buffer \<Rightarrow> buffer \<Rightarrow> buffer \<times> buffer" where
  "swap_buffers b rhs =
     (b\<lparr>buffer_vec := buffer_vec rhs, readerIndex := readerIndex rhs,
        writerIndex := writerIndex rhs\<rparr>,
      rhs\<lparr>buffer_vec := buffer_vec b, readerIndex := readerIndex b,
          writerIndex := writerIndex b\<rparr>)"

section \<open>Searching\<close>

text \<open>\<open>std::search\<close> and \<open>memchr\<close> over positions of the vector.\<close>

definition std_search :: "'a list \<Rightarrow> nat \<Rightarrow> nat \<Rightarrow> 'a list \<Rightarrow> nat" where
  "std_search xs fst_pos lst_pos pat =
     (case List.find (\<lambda>i. take (length pat) (drop i xs) = pat) [fst_pos..<lst_pos + 1 - length pat] of
        None \<Rightarrow> lst_pos | Some i \<Rightarrow> i)"

definition memchr_from :: "'a list \<Rightarrow> nat \<Rightarrow> 'a \<Rightarrow> nat \<Rightarrow> nat option" where
  "memchr_from xs start c n = List.find (\<lambda>i. xs ! i = c) [start..<start + n]"

definition findCRLF :: "buffer \<Rightarrow> nat option" where
  "findCRLF b =
    (let crlf = std_search (buffer_vec b) (peek b) (beginWrite b) kCRLF
     in if crlf = beginWrite b then None else Some crlf)"

definition findCRLF_from :: "nat \<Rightarrow> buffer \<Rightarrow> nat option result" where
  "findCRLF_from start b =
    (if \<not> peek b \<le> start then Inl AssertFail
     else if \<not> start \<le> beginWrite b then Inl AssertFail
     else let crlf = std_search (buffer_vec b) start (beginWrite b) kCRLF
          in Inr (if crlf = beginWrite b then None else Some crlf))"

definition findEOL :: "buffer \<Rightarrow> nat option" where
  "findEOL b = memchr_from (buffer_vec b) (peek b) 10 (readableBytes b)"

definition findEOL_from :: "nat \<Rightarrow> buffer \<Rightarrow> nat option result" where
  "findEOL_from start b =
    (if \<not> peek b \<le> start then Inl AssertFail
     else if \<not> start \<le> beginWrite b then Inl AssertFail
     else Inr (memchr_from (buffer_vec b) start 10 (sz_sub (beginWrite b) start)))"

section \<open>Taking bytes out\<close>

definition retrieveAll :: "buffer \<Rightarrow> buffer" where
  "retrieveAll b = b\<lparr>readerIndex := kCheapPrepend, writerIndex := kCheapPrepend\<rparr>"

definition retrieve :: "nat \<Rightarrow> buffer \<Rightarrow> buffer result" where
  "retrieve len b =
    (if \<not> len \<le> readableBytes b then Inl AssertFail
     else if len < readableBytes b then Inr (b\<lparr>readerIndex := sz_add (readerIndex b) len\<rparr>)
     else Inr (retrieveAll b))"

definition retrieveUntil :: "nat \<Rightarrow> buffer \<Rightarrow> buffer result" where
  "retrieveUntil end b =
    (if \<not> peek b \<le> end then Inl AssertFail
     else if \<not> end \<le> beginWrite b then Inl AssertFail
     else retrieve (sz_sub end (peek b)) b)"

definition retrieveInt64 :: "buffer \<Rightarrow> buffer result" where
  "retrieveInt64 b = retrieve 8 b"

definition retrieveInt32 :: "buffer \<Rightarrow> buffer result" where
  "retrieveInt32 b = retrieve 4 b"

definition retrieveInt16 :: "buffer \<Rightarrow> buffer result" where
  "retrieveInt16 b = retrieve 2 b"

definition retrieveInt8 :: "buffer \<Rightarrow> buffer result" where
  "retrieveInt8 b = retrieve 1 b"

definition retrieveAsString :: "nat \<Rightarrow> buffer \<Rightarrow> (byte list \<times> buffer) result" where
  "retrieveAsString len b =
    (if \<not> len \<le> readableBytes b then Inl AssertFail
     else let res = take len (drop (peek b) (buffer_vec b))
          in rbind (retrieve len b) (\<lambda>b'. Inr (res, b')))"

definition retrieveAllAsString :: "buffer \<Rightarrow> (byte list \<times> buffer) result" where
  "retrieveAllAsString b = retrieveAsString (readableBytes b) b"

text \<open>
  A \<open>StringPiece\<close> is a pointer and an \<open>int\<close> length: here the memory from the pointer on,
  and the length after the narrowing cast from \<open>size_t\<close>.
\<close>

definition toStringPiece :: "buffer \<Rightarrow> byte list \<times> int" where
  "toStringPiece b =
     (drop (peek b) (buffer_vec b), sint (of_nat (readableBytes b) :: 32 word))"

section \<open>Making room and putting bytes in\<close>

definition vec_resize :: "nat \<Rightarrow> byte list \<Rightarrow> byte list result" where
  "vec_resize n xs =
     (if max_vec < n then Inl LengthError else Inr (take n xs @ replicate (n - length xs) 0))"

definition makeSpace :: "nat \<Rightarrow> buffer \<Rightarrow> buffer result" where
  "makeSpace len b =
    (if sz_add (writableBytes b) (prependableBytes b) < sz_add len kCheapPrepend
     then rbind (vec_resize (sz_add (writerIndex b) len) (buffer_vec b))
            (\<lambda>v. Inr (b\<lparr>buffer_vec := v\<rparr>))
     else if \<not> kCheapPrepend < readerIndex b then Inl AssertFail
     else let readable = readableBytes b;
              v = overwrite kCheapPrepend
                    (take (writerIndex b - readerIndex b) (drop (readerIndex b) (buffer_vec b)))
                    (buffer_vec b);
              b' = b\<lparr>buffer_vec := v, readerIndex := kCheapPrepend,
                     writerIndex := sz_add kCheapPrepend readable\<rparr>
          in if readable = readableBytes b' then Inr b' else Inl AssertFail)"

definition ensureWritableBytes :: "nat \<Rightarrow> buffer \<Rightarrow> buffer result" where
  "ensureWritableBytes len b =
     rbind (if writableBytes b < len then makeSpace len b else Inr b)
       (\<lambda>b'. if len \<le> writableBytes b' then Inr b' else Inl AssertFail)"

definition hasWritten :: "nat \<Rightarrow> buffer \<Rightarrow> buffer result" where
  "hasWritten len b =
     (if \<not> len \<le> writableBytes b then Inl AssertFail
      else Inr (b\<lparr>writerIndex := sz_add (writerIndex b) len\<rparr>))"

definition unwrite :: "nat \<Rightarrow> buffer \<Rightarrow> buffer result" where
  "unwrite len b =
     (if \<not> len \<le> readableBytes b then Inl AssertFail
      else Inr (b\<lparr>writerIndex := sz_sub (writerIndex b) len\<rparr>))"

text \<open>
  \<open>append_raw mem len\<close> is \<open>append(data, len)\<close> for a pointer with the bytes \<open>mem\<close> behind
  it: reading past them is undefined. \<open>append ds\<close> passes the whole of \<open>ds\<close>.
\<close>

definition append_raw :: "byte list \<Rightarrow> nat \<Rightarrow> buffer \<Rightarrow> buffer result" where
  "append_raw mem len b =
     rbind (ensureWritableBytes len b)
       (\<lambda>b'. if length mem < len then Inl Undefined
             else hasWritten len
                    (b'\<lparr>buffer_vec := overwrite (beginWrite b') (take len mem) (buffer_vec b')\<rparr>))"

definition append :: "byte list \<Rightarrow> buffer \<Rightarrow> buffer result" where
  "append ds b = append_raw ds (length ds) b"

definition append_piece :: "byte list \<times> int \<Rightarrow> buffer \<Rightarrow> buffer result" where
  "append_piece str b = append_raw (fst str) (unat (word_of_int (snd str) :: 64 word)) b"

definition prepend :: "byte list \<Rightarrow> buffer \<Rightarrow> buffer result" where
  "prepend ds b =
     (if \<not> length ds \<le> prependableBytes b then Inl AssertFail
      else let r = sz_sub (readerIndex b) (length ds)
           in Inr (b\<lparr>readerIndex := r, buffer_vec := overwrite r ds (buffer_vec b)\<rparr>))"

definition shrink :: "nat \<Rightarrow> buffer \<Rightarrow> buffer result" where
  "shrink reserve b =
     rbind (newBuffer kInitialSize)
       (\<lambda>other. rbind (ensureWritableBytes (sz_add (readableBytes b) reserve) other)
          (\<lambda>other. rbind (append_piece (toStringPiece b) other)
             (\<lambda>other. Inr (fst (swap_buffers b other)))))"

section \<open>Integers in network byte order\<close>

definition appendInt64 :: "byte_order \<Rightarrow> 64 word \<Rightarrow> buffer \<Rightarrow> buffer result" where
  "appendInt64 host x b = append (mem_bytes host (hostToNetwork64 host x)) b"

definition appendInt32 :: "byte_order \<Rightarrow> 32 word \<Rightarrow> buffer \<Rightarrow> buffer result" where
  "appendInt32 host x b = append (mem_bytes host (hostToNetwork32 host x)) b"

definition appendInt16 :: "byte_order \<Rightarrow> 16 word \<Rightarrow> buffer \<Rightarrow> buffer result" where
  "appendInt16 host x b = append (mem_bytes host (hostToNetwork16 host x)) b"

definition appendInt8 :: "byte \<Rightarrow> buffer \<Rightarrow> buffer result" where
  "appendInt8 x b = append [x] b"

definition peekInt64 :: "byte_order \<Rightarrow> buffer \<Rightarrow> 64 word result" where
  "peekInt64 host b =
     (if \<not> 8 \<le> readableBytes b then Inl AssertFail
      else Inr (networkToHost64 host (mem_read host (take 8 (drop (peek b) (buffer_vec b))))))"

definition peekInt32 :: "byte_order \<Rightarrow> buffer \<Rightarrow> 32 word result" where
  "peekInt32 host b =
     (if \<not> 4 \<le> readableBytes b then Inl AssertFail
      else Inr (networkToHost32 host (mem_read host (take 4 (drop (peek b) (buffer_vec b))))))"

definition peekInt16 :: "byte_order \<Rightarrow> buffer \<Rightarrow> 16 word result" where
  "peekInt16 host b =
     (if \<not> 2 \<le> readableBytes b then Inl AssertFail
      else Inr (networkToHost16 host (mem_read host (take 2 (drop (peek b) (buffer_vec b))))))"

definition peekInt8 :: "buffer \<Rightarrow> byte result" where
  "peekInt8 b =
     (if \<not> 1 \<le> readableBytes b then Inl AssertFail else Inr (buffer_vec b ! peek b))"

definition readInt64 :: "byte_order \<Rightarrow> buffer \<Rightarrow> (64 word \<times> buffer) result" where
  "readInt64 host b =
     rbind (peekInt64 host b) (\<lambda>x. rbind (retrieveInt64 b) (\<lambda>b'. Inr (x, b')))"

definition readInt32 :: "byte_order \<Rightarrow> buffer \<Rightarrow> (32 word \<times> buffer) result" where
  "readInt32 host b =
     rbind (peekInt32 host b) (\<lambda>x. rbind (retrieveInt32 b) (\<lambda>b'. Inr (x, b')))"

definition readInt16 :: "byte_order \<Rightarrow> buffer \<Rightarrow> (16 word \<times> buffer) result" where
  "readInt16 host b =
     rbind (peekInt16 host b) (\<lambda>x. rbind (retrieveInt16 b) (\<lambda>b'. Inr (x, b')))"

definition readInt8 :: "buffer \<Rightarrow> (byte \<times> buffer) result" where
  "readInt8 b = rbind (peekInt8 b) (\<lambda>x. rbind (retrieveInt8 b) (\<lambda>b'. Inr (x, b')))"

definition prependInt64 :: "byte_order \<Rightarrow> 64 word \<Rightarrow> buffer \<Rightarrow> buffer result" where
  "prependInt64 host x b = prepend (mem_bytes host (hostToNetwork64 host x)) b"

definition prependInt32 :: "byte_order \<Rightarrow> 32 word \<Rightarrow> buffer \<Rightarrow> buffer result" where
  "prependInt32 host x b = prepend (mem_bytes host (hostToNetwork32 host x)) b"

definition prependInt16 :: "byte_order \<Rightarrow> 16 word \<Rightarrow> buffer \<Rightarrow> buffer result" where
  "prependInt16 host x b = prepend (mem_bytes host (hostToNetwork16 host x)) b"

definition prependInt8 :: "byte \<Rightarrow> buffer \<Rightarrow> buffer result" where
  "prependInt8 x b = prepend [x] b"

section \<open>Reading from a descriptor\<close>

text \<open>
  What \<open>readv\<close> did is the argument: an error with its \<open>errno\<close>, or the bytes received.
  The kernel fills the first area and then the second, and never more than both hold.
\<close>

datatype read_result = ReadErr int | ReadData "byte list"

definition extrabuf_size :: nat where "extrabuf_size = 65536"

definition readFd_iov :: "buffer \<Rightarrow> nat list" where
  "readFd_iov b =
     (let writable = writableBytes b
      in if writable < extrabuf_size then [writable, extrabuf_size] else [writable])"

definition readv_ok :: "nat list \<Rightarrow> read_result \<Rightarrow> bool" where
  "readv_ok iov r = (case r of ReadErr _ \<Rightarrow> True | ReadData ds \<Rightarrow> length ds \<le> sum_list iov)"

fun readFd :: "read_result \<Rightarrow> buffer \<Rightarrow> (int \<times> int option \<times> buffer) result" where
  "readFd (ReadErr e) b = Inr (- 1, Some e, b)"
| "readFd (ReadData ds) b =
    (let writable = writableBytes b; n = length ds;
         b1 = b\<lparr>buffer_vec := overwrite (writerIndex b) (take writable ds) (buffer_vec b)\<rparr>;
         extrabuf = drop writable ds
     in if n \<le> writable
        then Inr (int n, None, b1\<lparr>writerIndex := sz_add (writerIndex b1) n\<rparr>)
        else rbind (append_raw extrabuf (sz_sub n writable)
                      (b1\<lparr>writerIndex := length (buffer_vec b1)\<rparr>))
               (\<lambda>b2. Inr (int n, None, b2)))"


section \<open>The abstract view and the invariant\<close>

text \<open>
  What a client sees is the byte sequence between the two indices. The invariant is the
  picture in Buffer.h: \<open>readerIndex <= writerIndex <= size\<close>, with room for the cheap
  prepend and a size that a vector can have.
\<close>

definition contents :: "buffer \<Rightarrow> byte list" where
  "contents b = take (writerIndex b - readerIndex b) (drop (readerIndex b) (buffer_vec b))"

definition buf_inv :: "buffer \<Rightarrow> bool" where
  "buf_inv b \<longleftrightarrow> readerIndex b \<le> writerIndex b \<and> writerIndex b \<le> length (buffer_vec b)
     \<and> kCheapPrepend \<le> length (buffer_vec b) \<and> length (buffer_vec b) \<le> max_vec"

lemma max_vec_lt: "x \<le> max_vec \<Longrightarrow> x < 2 ^ 64"
  by (simp add: max_vec_def)

lemma buf_inv_sizes:
  assumes "buf_inv b"
  shows "readableBytes b = writerIndex b - readerIndex b"
    and "writableBytes b = length (buffer_vec b) - writerIndex b"
    and "writerIndex b < 2 ^ 64" and "readerIndex b < 2 ^ 64" and "length (buffer_vec b) < 2 ^ 64"
  using assms
  by (auto simp: buf_inv_def readableBytes_def writableBytes_def max_vec_def)

lemma length_contents [simp]: "buf_inv b \<Longrightarrow> length (contents b) = readableBytes b"
  by (simp add: contents_def buf_inv_sizes) (auto simp: buf_inv_def min_def)

lemma buf_inv_intro:
  "r \<le> w \<Longrightarrow> w \<le> length v \<Longrightarrow> kCheapPrepend \<le> length v \<Longrightarrow> length v \<le> max_vec \<Longrightarrow>
   buf_inv (b\<lparr>buffer_vec := v, readerIndex := r, writerIndex := w\<rparr>)"
  by (simp add: buf_inv_def)

lemma newBuffer_ok:
  assumes "n \<le> max_vec - kCheapPrepend"
  obtains b where "newBuffer n = Inr b" "buf_inv b" "contents b = []"
    "writableBytes b = n" "readerIndex b = kCheapPrepend"
proof -
  let ?b = "\<lparr>buffer_vec = replicate (8 + n) 0, readerIndex = 8, writerIndex = 8\<rparr>"
  have lt: "8 + n \<le> max_vec" using assms by (simp add: kCheapPrepend_def max_vec_def)
  then have sz: "sz_add 8 n = 8 + n" by (simp add: max_vec_def)
  have inv: "buf_inv ?b" using lt by (simp add: buf_inv_def kCheapPrepend_def)
  have "newBuffer n = Inr ?b"
    using lt sz buf_inv_sizes[OF inv]
    by (simp add: newBuffer_def kCheapPrepend_def prependableBytes_def Let_def)
  with inv show ?thesis
    by (intro that[of ?b]) (simp_all add: contents_def kCheapPrepend_def buf_inv_sizes)
qed

subsection \<open>Taking bytes out\<close>

lemma retrieveAll_ok [simp]:
  "buf_inv b \<Longrightarrow> buf_inv (retrieveAll b)" "contents (retrieveAll b) = []"
  by (simp_all add: retrieveAll_def buf_inv_def contents_def)

lemma retrieveAll_fields [simp]:
  "readerIndex (retrieveAll b) = kCheapPrepend" "writerIndex (retrieveAll b) = kCheapPrepend"
  "buffer_vec (retrieveAll b) = buffer_vec b"
  by (simp_all add: retrieveAll_def)

lemma retrieve_ok:
  assumes "buf_inv b" and "n \<le> readableBytes b"
  obtains b' where "retrieve n b = Inr b'" "buf_inv b'" "contents b' = drop n (contents b)"
    "buffer_vec b' = buffer_vec b" "writerIndex b' \<le> max kCheapPrepend (writerIndex b)"
proof (cases "n < readableBytes b")
  case True
  let ?b = "b\<lparr>readerIndex := readerIndex b + n\<rparr>"
  have lt: "readerIndex b + n < writerIndex b"
    using True assms(1) by (simp add: buf_inv_sizes)
  then have "readerIndex b + n < 2 ^ 64" using buf_inv_sizes(3)[OF assms(1)] by simp
  with True have "retrieve n b = Inr ?b" by (simp add: retrieve_def)
  moreover have "buf_inv ?b" using assms(1) lt by (simp add: buf_inv_def)
  moreover have "contents ?b = drop n (contents b)"
    by (simp add: contents_def drop_take add.commute)
  ultimately show ?thesis by (intro that[of ?b]) simp_all
next
  case False
  with assms have "n = readableBytes b" by simp
  with assms(1) have "drop n (contents b) = []" by simp
  with False assms show ?thesis
    by (intro that[of "retrieveAll b"]) (simp_all add: retrieve_def)
qed

lemma retrieve_error: "\<not> n \<le> readableBytes b \<Longrightarrow> retrieve n b = Inl AssertFail"
  by (simp add: retrieve_def)

lemma retrieveAsString_ok:
  assumes "buf_inv b" and "n \<le> readableBytes b"
  obtains b' where "retrieveAsString n b = Inr (take n (contents b), b')" "buf_inv b'"
    "contents b' = drop n (contents b)"
proof -
  obtain b' where b': "retrieve n b = Inr b'" "buf_inv b'" "contents b' = drop n (contents b)"
    using assms by (rule retrieve_ok)
  have "take n (drop (peek b) (buffer_vec b)) = take n (contents b)"
    using assms by (simp add: contents_def peek_def buf_inv_sizes min_def)
  with b' assms(2) show ?thesis
    by (intro that[of b']) (simp_all add: retrieveAsString_def)
qed

lemma unwrite_ok:
  assumes "buf_inv b" and "n \<le> readableBytes b"
  obtains b' where "unwrite n b = Inr b'" "buf_inv b'"
    "contents b' = take (readableBytes b - n) (contents b)"
proof -
  let ?b = "b\<lparr>writerIndex := writerIndex b - n\<rparr>"
  have le: "n \<le> writerIndex b - readerIndex b" "readerIndex b \<le> writerIndex b"
    using assms by (auto simp: buf_inv_sizes buf_inv_def)
  then have "n \<le> writerIndex b" by simp
  then have "unwrite n b = Inr ?b"
    using assms buf_inv_sizes(3)[OF assms(1)] by (simp add: unwrite_def)
  moreover have "buf_inv ?b" using assms(1) le by (auto simp: buf_inv_def)
  moreover have "contents ?b = take (readableBytes b - n) (contents b)"
    using assms(1) le by (simp add: contents_def buf_inv_sizes min_def ac_simps)
  ultimately show ?thesis by (rule that)
qed

subsection \<open>Making room\<close>

lemma vec_resize_grow:
  "length v \<le> n \<Longrightarrow> n \<le> max_vec \<Longrightarrow> vec_resize n v = Inr (v @ replicate (n - length v) 0)"
  by (simp add: vec_resize_def)

text \<open>
  When the free space at both ends is enough the readable bytes are moved to the front; the
  assertion \<open>kCheapPrepend < readerIndex_\<close> then holds, because the space behind the writer
  alone was not enough.
\<close>

lemma makeSpace_move:
  assumes inv: "buf_inv b" and less: "writableBytes b < len"
    and room: "len + kCheapPrepend \<le> writableBytes b + prependableBytes b"
  obtains b' where "makeSpace len b = Inr b'" "buf_inv b'" "contents b' = contents b"
    "len \<le> writableBytes b'" "length (buffer_vec b') = length (buffer_vec b)"
    "readerIndex b' = kCheapPrepend" "writerIndex b' \<le> writerIndex b"
proof -
  let ?k = kCheapPrepend and ?n = "writerIndex b - readerIndex b"
  let ?v = "overwrite ?k (contents b) (buffer_vec b)"
  let ?b = "b\<lparr>buffer_vec := ?v, readerIndex := ?k, writerIndex := ?k + ?n\<rparr>"
  note [simp] = buf_inv_sizes[OF inv]
  have idx: "readerIndex b \<le> writerIndex b" "writerIndex b \<le> length (buffer_vec b)"
    "length (buffer_vec b) < 2 ^ 63"
    using inv by (auto simp: buf_inv_def max_vec_def)
  have k: "?k < readerIndex b" using less room by (simp add: prependableBytes_def)
  have sums: "sz_add (writableBytes b) (prependableBytes b) = writableBytes b + prependableBytes b"
    "sz_add len ?k = len + ?k" "sz_add ?k ?n = ?k + ?n"
    using room idx k by (auto simp: prependableBytes_def)
  have lenv: "length ?v = length (buffer_vec b)"
    using idx k by (simp add: contents_def)
  have invb: "buf_inv ?b"
    using inv idx k lenv by (intro buf_inv_intro) (auto simp: buf_inv_def)
  have r: "readableBytes ?b = ?n"
    using buf_inv_sizes(1)[OF invb] by simp
  have "makeSpace len b = Inr ?b"
    using room k sums r
    by (simp add: makeSpace_def Let_def contents_def[symmetric] not_less)
  moreover have "contents ?b = contents b"
    using idx k by (simp add: contents_def drop_overwrite_self)
  moreover have "len \<le> writableBytes ?b"
    using buf_inv_sizes(2)[OF invb] lenv room idx k by (simp add: prependableBytes_def)
  ultimately show ?thesis using invb lenv idx k by (intro that[of ?b]) simp_all
qed

lemma makeSpace_grow:
  assumes inv: "buf_inv b" and less: "writableBytes b < len"
    and room: "writableBytes b + prependableBytes b < len + kCheapPrepend"
    and small: "writerIndex b + len \<le> max_vec"
  obtains b' where "makeSpace len b = Inr b'" "buf_inv b'" "contents b' = contents b"
    "len \<le> writableBytes b'" "readerIndex b' = readerIndex b" "writerIndex b' = writerIndex b"
proof -
  note [simp] = buf_inv_sizes[OF inv]
  have idx: "readerIndex b \<le> writerIndex b" "writerIndex b \<le> length (buffer_vec b)"
    "length (buffer_vec b) < writerIndex b + len" "length (buffer_vec b) < 2 ^ 63"
    using inv less by (auto simp: buf_inv_def max_vec_def)
  let ?v = "buffer_vec b @ replicate (writerIndex b + len - length (buffer_vec b)) 0"
  let ?b = "b\<lparr>buffer_vec := ?v\<rparr>"
  have sums: "sz_add (writableBytes b) (prependableBytes b) = writableBytes b + prependableBytes b"
    "sz_add len kCheapPrepend = len + kCheapPrepend" "sz_add (writerIndex b) len = writerIndex b + len"
    using idx small by (auto simp: prependableBytes_def max_vec_def kCheapPrepend_def)
  have eq: "makeSpace len b = Inr ?b"
    using room sums idx small by (simp add: makeSpace_def vec_resize_grow)
  have lenv: "length ?v = writerIndex b + len" using idx by simp
  have invb: "buf_inv ?b"
    using inv idx small lenv by (auto simp: buf_inv_def)
  have "writableBytes ?b = len"
    using buf_inv_sizes(2)[OF invb] lenv by simp
  with eq invb show ?thesis
    using idx by (intro that[of ?b]) (simp_all add: contents_def)
qed

lemma ensureWritableBytes_ok:
  assumes inv: "buf_inv b" and small: "writerIndex b + len \<le> max_vec"
  obtains b' where "ensureWritableBytes len b = Inr b'" "buf_inv b'" "contents b' = contents b"
    "len \<le> writableBytes b'" "min kCheapPrepend (readerIndex b) \<le> readerIndex b'"
    "writerIndex b' \<le> writerIndex b"
proof (cases "writableBytes b < len")
  case False
  with inv show ?thesis
    by (intro that[of b]) (simp_all add: ensureWritableBytes_def)
next
  case True
  show ?thesis
  proof (cases "writableBytes b + prependableBytes b < len + kCheapPrepend")
    case grow: True
    obtain b' where "makeSpace len b = Inr b'" "buf_inv b'" "contents b' = contents b"
      "len \<le> writableBytes b'" "readerIndex b' = readerIndex b" "writerIndex b' = writerIndex b"
      using inv True grow small by (rule makeSpace_grow)
    with True show ?thesis by (intro that[of b']) (simp_all add: ensureWritableBytes_def)
  next
    case False
    then have "len + kCheapPrepend \<le> writableBytes b + prependableBytes b" by simp
    with inv True obtain b' where "makeSpace len b = Inr b'" "buf_inv b'"
      "contents b' = contents b" "len \<le> writableBytes b'" "readerIndex b' = kCheapPrepend"
      "writerIndex b' \<le> writerIndex b"
      by (rule makeSpace_move)
    with True show ?thesis by (intro that[of b']) (simp_all add: ensureWritableBytes_def)
  qed
qed

subsection \<open>Putting bytes in\<close>

lemma append_room:
  assumes inv: "buf_inv b" and room: "length ds \<le> writableBytes b"
  shows "let b' = b\<lparr>buffer_vec := overwrite (writerIndex b) ds (buffer_vec b),
                   writerIndex := writerIndex b + length ds\<rparr>
         in hasWritten (length ds) (b\<lparr>buffer_vec := overwrite (writerIndex b) ds (buffer_vec b)\<rparr>)
              = Inr b'
            \<and> buf_inv b' \<and> contents b' = contents b @ ds"
proof -
  note sizes = buf_inv_sizes[OF inv]
  have idx: "readerIndex b \<le> writerIndex b" "writerIndex b + length ds \<le> length (buffer_vec b)"
    using inv room sizes by (auto simp: buf_inv_def)
  let ?v = "overwrite (writerIndex b) ds (buffer_vec b)"
  have lenv: "length ?v = length (buffer_vec b)" using idx by simp
  have "buf_inv (b\<lparr>buffer_vec := ?v\<rparr>)" using inv lenv by (simp add: buf_inv_def)
  then have w: "writableBytes (b\<lparr>buffer_vec := ?v\<rparr>) = length (buffer_vec b) - writerIndex b"
    by (simp add: buf_inv_sizes lenv)
  have "sz_add (writerIndex b) (length ds) = writerIndex b + length ds"
    using idx sizes by simp
  moreover have "contents (b\<lparr>buffer_vec := ?v, writerIndex := writerIndex b + length ds\<rparr>)
      = contents b @ ds"
  proof -
    have "drop (readerIndex b) ?v
        = drop (readerIndex b) (take (writerIndex b) (buffer_vec b)) @ ds
          @ drop (writerIndex b + length ds) (buffer_vec b)"
      using idx by (intro drop_overwrite_before) simp_all
    moreover have "writerIndex b + length ds - readerIndex b
        = (writerIndex b - readerIndex b) + length ds" using idx by simp
    ultimately show ?thesis using idx by (simp add: contents_def drop_take)
  qed
  ultimately show ?thesis
    using inv idx w lenv room sizes by (simp add: Let_def hasWritten_def buf_inv_def)
qed

lemma append_ok:
  assumes inv: "buf_inv b" and small: "writerIndex b + length ds \<le> max_vec"
  obtains b' where "append ds b = Inr b'" "buf_inv b'" "contents b' = contents b @ ds"
    "min kCheapPrepend (readerIndex b) \<le> readerIndex b'"
    "writerIndex b' \<le> writerIndex b + length ds"
proof -
  obtain b1 where b1: "ensureWritableBytes (length ds) b = Inr b1" "buf_inv b1"
    "contents b1 = contents b" "length ds \<le> writableBytes b1"
    "min kCheapPrepend (readerIndex b) \<le> readerIndex b1" "writerIndex b1 \<le> writerIndex b"
    using inv small by (rule ensureWritableBytes_ok)
  let ?b = "b1\<lparr>buffer_vec := overwrite (writerIndex b1) ds (buffer_vec b1),
                writerIndex := writerIndex b1 + length ds\<rparr>"
  show ?thesis
    using append_room[OF b1(2,4)] b1
    by (intro that[of ?b]) (simp_all add: append_def append_raw_def Let_def beginWrite_def)
qed

lemma prepend_ok:
  assumes inv: "buf_inv b" and room: "length ds \<le> prependableBytes b"
  obtains b' where "prepend ds b = Inr b'" "buf_inv b'" "contents b' = ds @ contents b"
proof -
  let ?r = "readerIndex b - length ds"
  let ?b = "b\<lparr>readerIndex := ?r, buffer_vec := overwrite ?r ds (buffer_vec b)\<rparr>"
  have idx: "length ds \<le> readerIndex b" "readerIndex b \<le> writerIndex b"
    "writerIndex b \<le> length (buffer_vec b)"
    using inv room by (auto simp: buf_inv_def prependableBytes_def)
  have "prepend ds b = Inr ?b"
    using idx buf_inv_sizes(4)[OF inv] by (simp add: prepend_def prependableBytes_def Let_def)
  moreover have "buf_inv ?b"
    using inv idx by (auto simp: buf_inv_def)
  moreover have "contents ?b = ds @ contents b"
  proof -
    have "writerIndex b - ?r = length ds + (writerIndex b - readerIndex b)" using idx by simp
    then show ?thesis
      using idx by (simp add: contents_def drop_overwrite_self)
  qed
  ultimately show ?thesis by (rule that)
qed


section \<open>The interface a connection relies on: a FIFO of bytes\<close>

text \<open>
  \<open>put\<close> adds bytes at the back, \<open>get n\<close> drops \<open>n\<close> bytes from the front, \<open>view\<close> is the
  byte sequence and \<open>room k\<close> says that \<open>k\<close> more bytes can still be put.
\<close>

datatype fifo_op = Put "byte list" | Get nat

fun fifo_run :: "(byte list \<Rightarrow> 'q \<Rightarrow> 'q result) \<Rightarrow> (nat \<Rightarrow> 'q \<Rightarrow> 'q result) \<Rightarrow> ('q \<Rightarrow> byte list)
    \<Rightarrow> fifo_op list \<Rightarrow> 'q \<Rightarrow> (byte list \<times> 'q) result" where
  "fifo_run put get view [] q = Inr ([], q)"
| "fifo_run put get view (Put ds # os) q =
     rbind (put ds q) (\<lambda>q'. fifo_run put get view os q')"
| "fifo_run put get view (Get n # os) q =
     rbind (get n q) (\<lambda>q'. rbind (fifo_run put get view os q')
       (\<lambda>(out, q''). Inr (take n (view q) @ out, q'')))"

fun fifo_puts :: "fifo_op list \<Rightarrow> byte list" where
  "fifo_puts [] = []"
| "fifo_puts (Put ds # os) = ds @ fifo_puts os"
| "fifo_puts (Get n # os) = fifo_puts os"

text \<open>No \<open>Get\<close> asks for more than is there.\<close>

fun fifo_fits :: "nat \<Rightarrow> fifo_op list \<Rightarrow> bool" where
  "fifo_fits k [] = True"
| "fifo_fits k (Put ds # os) = fifo_fits (k + length ds) os"
| "fifo_fits k (Get n # os) = (n \<le> k \<and> fifo_fits (k - n) os)"

locale byte_fifo =
  fixes put :: "byte list \<Rightarrow> 'q \<Rightarrow> 'q result"
    and get :: "nat \<Rightarrow> 'q \<Rightarrow> 'q result"
    and view :: "'q \<Rightarrow> byte list"
    and ok :: "'q \<Rightarrow> bool"
    and room :: "nat \<Rightarrow> 'q \<Rightarrow> bool"
  assumes put_law: "ok q \<Longrightarrow> room (length ds + k) q \<Longrightarrow>
      \<exists>q'. put ds q = Inr q' \<and> ok q' \<and> view q' = view q @ ds \<and> room k q'"
    and get_law: "ok q \<Longrightarrow> n \<le> length (view q) \<Longrightarrow>
      \<exists>q'. get n q = Inr q' \<and> ok q' \<and> view q' = drop n (view q) \<and> (\<forall>k. room k q \<longrightarrow> room k q')"
begin

lemma run_conserves:
  assumes "ok q" and "room (length (fifo_puts os)) q" and "fifo_fits (length (view q)) os"
  shows "\<exists>out q'. fifo_run put get view os q = Inr (out, q') \<and> ok q'
           \<and> view q @ fifo_puts os = out @ view q'"
  using assms
proof (induction os arbitrary: q)
  case Nil
  then show ?case by simp
next
  case (Cons op os)
  show ?case
  proof (cases op)
    case (Put ds)
    with Cons.prems obtain q1 where q1: "put ds q = Inr q1" "ok q1" "view q1 = view q @ ds"
      "room (length (fifo_puts os)) q1"
      using put_law[of q ds "length (fifo_puts os)"] by auto
    with Cons.prems(3) Put Cons.IH[of q1] show ?thesis by auto
  next
    case (Get n)
    with Cons.prems obtain q1 where q1: "get n q = Inr q1" "ok q1" "view q1 = drop n (view q)"
      "room (length (fifo_puts os)) q1"
      using get_law[of q n] by auto
    with Cons.prems(3) Get Cons.IH[of q1] obtain out q' where
      "fifo_run put get view os q1 = Inr (out, q')" "ok q'"
      "drop n (view q) @ fifo_puts os = out @ view q'"
      by auto
    with q1 Get show ?thesis
      by (auto simp: rbind_eq_Inr_iff) (metis append.assoc append_take_drop_id)
  qed
qed

end

definition buf_room :: "nat \<Rightarrow> buffer \<Rightarrow> bool" where
  "buf_room k b \<longleftrightarrow> max kCheapPrepend (writerIndex b) + k \<le> max_vec"

lemma buf_put_law:
  assumes "buf_inv b" and "buf_room (length ds + k) b"
  shows "\<exists>b'. append ds b = Inr b' \<and> buf_inv b' \<and> contents b' = contents b @ ds \<and> buf_room k b'"
proof -
  have "writerIndex b + length ds \<le> max_vec" using assms(2) by (simp add: buf_room_def)
  with assms(1) obtain b' where "append ds b = Inr b'" "buf_inv b'" "contents b' = contents b @ ds"
    "writerIndex b' \<le> writerIndex b + length ds"
    by (rule append_ok)
  with assms(2) show ?thesis by (auto simp: buf_room_def)
qed

lemma buf_get_law:
  assumes "buf_inv b" and "n \<le> length (contents b)"
  shows "\<exists>b'. retrieve n b = Inr b' \<and> buf_inv b' \<and> contents b' = drop n (contents b)
           \<and> (\<forall>k. buf_room k b \<longrightarrow> buf_room k b')"
proof -
  have "n \<le> readableBytes b" using assms by simp
  with assms(1) obtain b' where "retrieve n b = Inr b'" "buf_inv b'"
    "contents b' = drop n (contents b)" "writerIndex b' \<le> max kCheapPrepend (writerIndex b)"
    by (rule retrieve_ok)
  then show ?thesis by (auto simp: buf_room_def)
qed

interpretation buf: byte_fifo append retrieve contents buf_inv buf_room
  by unfold_locales (rule buf_put_law buf_get_law; assumption)+


section \<open>Integers read back\<close>

lemma contents_prefix:
  assumes inv: "buf_inv b" and c: "contents b = xs @ rest"
  shows "take (length xs) (drop (peek b) (buffer_vec b)) = xs" and "length xs \<le> readableBytes b"
proof -
  from inv have "length (contents b) = readableBytes b" by simp
  with c show le: "length xs \<le> readableBytes b" by simp
  have "take (length xs) (drop (peek b) (buffer_vec b)) = take (length xs) (contents b)"
    using le inv by (simp add: contents_def peek_def buf_inv_sizes min_def)
  with c show "take (length xs) (drop (peek b) (buffer_vec b)) = xs" by simp
qed

lemma retrieve_prefix:
  assumes "buf_inv b" and "contents b = xs @ rest" and "n = length xs"
  obtains b' where "retrieve n b = Inr b'" "buf_inv b'" "contents b' = rest"
proof -
  have "n \<le> readableBytes b" using contents_prefix(2)[OF assms(1,2)] assms(3) by simp
  with assms(1) obtain b' where "retrieve n b = Inr b'" "buf_inv b'" "contents b' = drop n (contents b)"
    by (rule retrieve_ok)
  with assms(2,3) show ?thesis by (intro that[of b']) simp_all
qed

lemmas read_int_defs =
  readInt64_def readInt32_def readInt16_def readInt8_def
  peekInt64_def peekInt32_def peekInt16_def peekInt8_def
  retrieveInt64_def retrieveInt32_def retrieveInt16_def retrieveInt8_def

lemma readInt64_bytes:
  assumes "buf_inv b" and "contents b = be_bytes x @ rest"
  obtains b' where "readInt64 host b = Inr (x, b')" "buf_inv b'" "contents b' = rest"
proof -
  have "8 = length (be_bytes x)" by simp
  with assms obtain b' where "retrieve 8 b = Inr b'" "buf_inv b'" "contents b' = rest"
    by (rule retrieve_prefix)
  with contents_prefix[OF assms] show ?thesis
    by (intro that[of b']) (simp_all add: read_int_defs endian_conv_defs htobe_mem_read)
qed

lemma readInt32_bytes:
  assumes "buf_inv b" and "contents b = be_bytes x @ rest"
  obtains b' where "readInt32 host b = Inr (x, b')" "buf_inv b'" "contents b' = rest"
proof -
  have "4 = length (be_bytes x)" by simp
  with assms obtain b' where "retrieve 4 b = Inr b'" "buf_inv b'" "contents b' = rest"
    by (rule retrieve_prefix)
  with contents_prefix[OF assms] show ?thesis
    by (intro that[of b']) (simp_all add: read_int_defs endian_conv_defs htobe_mem_read)
qed

lemma readInt16_bytes:
  assumes "buf_inv b" and "contents b = be_bytes x @ rest"
  obtains b' where "readInt16 host b = Inr (x, b')" "buf_inv b'" "contents b' = rest"
proof -
  have "2 = length (be_bytes x)" by simp
  with assms obtain b' where "retrieve 2 b = Inr b'" "buf_inv b'" "contents b' = rest"
    by (rule retrieve_prefix)
  with contents_prefix[OF assms] show ?thesis
    by (intro that[of b']) (simp_all add: read_int_defs endian_conv_defs htobe_mem_read)
qed

lemma readInt8_bytes:
  assumes "buf_inv b" and "contents b = x # rest"
  obtains b' where "readInt8 b = Inr (x, b')" "buf_inv b'" "contents b' = rest"
proof -
  have c: "contents b = [x] @ rest" using assms(2) by simp
  have "take 1 (drop (peek b) (buffer_vec b)) = [x]" "1 \<le> readableBytes b"
    using contents_prefix[OF assms(1) c] by simp_all
  then have "buffer_vec b ! peek b = x"
    by (cases "drop (peek b) (buffer_vec b)") (auto simp: Cons_nth_drop_Suc[symmetric] nth_via_drop)
  moreover have "1 = length [x]" by simp
  with assms(1) c obtain b' where "retrieve 1 b = Inr b'" "buf_inv b'" "contents b' = rest"
    by (rule retrieve_prefix)
  ultimately show ?thesis
    using \<open>1 \<le> readableBytes b\<close> by (intro that[of b']) (simp_all add: read_int_defs)
qed

lemma append_view:
  assumes "buf_inv b" and "buf_room k b" and "length ds \<le> k"
  obtains b' where "append ds b = Inr b'" "buf_inv b'" "contents b' = contents b @ ds"
    "buf_room (k - length ds) b'"
proof -
  have "buf_room (length ds + (k - length ds)) b" using assms by simp
  from buf_put_law[OF assms(1) this] show ?thesis using that by blast
qed

lemmas append_int_defs = appendInt64_def appendInt32_def appendInt16_def appendInt8_def
  endian_conv_defs

text \<open>
  Whatever the byte orders of the two hosts, a receiver whose buffer holds the bytes that
  \<open>appendInt64\<close>, \<open>appendInt32\<close>, \<open>appendInt16\<close> and \<open>appendInt8\<close> put into an empty buffer of
  the sender reads back the same four integers and is left with an empty buffer; none of the
  assertions of these operations fails.
\<close>

theorem network_ints_roundtrip:
  assumes "buf_inv b" and "buf_room 15 b" and "contents b = []"
  shows "\<exists>b1 b2 b3 b4. appendInt64 h x b = Inr b1 \<and> appendInt32 h y b1 = Inr b2
      \<and> appendInt16 h z b2 = Inr b3 \<and> appendInt8 w b3 = Inr b4 \<and> buf_inv b4
      \<and> (\<forall>r. buf_inv r \<and> contents r = contents b4 \<longrightarrow>
           (\<exists>r1 r2 r3 r4. readInt64 g r = Inr (x, r1) \<and> readInt32 g r1 = Inr (y, r2)
              \<and> readInt16 g r2 = Inr (z, r3) \<and> readInt8 r3 = Inr (w, r4)
              \<and> buf_inv r4 \<and> contents r4 = []))"
proof -
  obtain b1 where b1: "appendInt64 h x b = Inr b1" "buf_inv b1" "contents b1 = be_bytes x"
    "buf_room 7 b1"
    using append_view[OF assms(1,2), of "be_bytes x"] assms(3)
    by (auto simp: append_int_defs mem_bytes_htobe)
  obtain b2 where b2: "appendInt32 h y b1 = Inr b2" "buf_inv b2"
    "contents b2 = be_bytes x @ be_bytes y" "buf_room 3 b2"
    using append_view[OF b1(2,4), of "be_bytes y"] b1(3)
    by (auto simp: append_int_defs mem_bytes_htobe)
  obtain b3 where b3: "appendInt16 h z b2 = Inr b3" "buf_inv b3"
    "contents b3 = be_bytes x @ be_bytes y @ be_bytes z" "buf_room 1 b3"
    using append_view[OF b2(2,4), of "be_bytes z"] b2(3)
    by (auto simp: append_int_defs mem_bytes_htobe)
  obtain b4 where b4: "appendInt8 w b3 = Inr b4" "buf_inv b4"
    "contents b4 = be_bytes x @ be_bytes y @ be_bytes z @ [w]"
    using append_view[OF b3(2,4), of "[w]"] b3(3) by (auto simp: append_int_defs)
  have "\<exists>r1 r2 r3 r4. readInt64 g r = Inr (x, r1) \<and> readInt32 g r1 = Inr (y, r2)
      \<and> readInt16 g r2 = Inr (z, r3) \<and> readInt8 r3 = Inr (w, r4) \<and> buf_inv r4 \<and> contents r4 = []"
    if r: "buf_inv r" "contents r = contents b4" for r
    using r b4(3)
    by (metis readInt64_bytes readInt32_bytes readInt16_bytes readInt8_bytes)
  with b1(1) b2(1) b3(1) b4(1,2) show ?thesis by blast
qed


text \<open>A small buffer for the concrete instances: eight bytes of room in front, none behind.\<close>

definition tiny_buffer :: buffer where
  "tiny_buffer = \<lparr>buffer_vec = replicate 8 0, readerIndex = 8, writerIndex = 8\<rparr>"

lemma tiny_buffer_ok [simp]:
  "buf_inv tiny_buffer" "contents tiny_buffer = []" "buf_room k tiny_buffer \<longleftrightarrow> 8 + k \<le> max_vec"
  by (simp_all add: tiny_buffer_def buf_inv_def contents_def buf_room_def kCheapPrepend_def max_vec_def)

theorem network_ints_roundtrip_witness:
  "\<exists>b1 b2 b3 b4. appendInt64 LittleEndian 7 tiny_buffer = Inr b1
      \<and> appendInt32 LittleEndian 258 b1 = Inr b2
      \<and> appendInt16 LittleEndian 513 b2 = Inr b3 \<and> appendInt8 5 b3 = Inr b4 \<and> buf_inv b4
      \<and> (\<forall>r. buf_inv r \<and> contents r = contents b4 \<longrightarrow>
           (\<exists>r1 r2 r3 r4. readInt64 BigEndian r = Inr (7, r1) \<and> readInt32 BigEndian r1 = Inr (258, r2)
              \<and> readInt16 BigEndian r2 = Inr (513, r3) \<and> readInt8 r3 = Inr (5, r4)
              \<and> buf_inv r4 \<and> contents r4 = []))"
  by (rule network_ints_roundtrip) (simp_all add: max_vec_def)

text \<open>
  C7. Over any sequence of appends and retrieves that never asks for more than is readable,
  the buffer is a FIFO byte stream: what was readable before followed by everything appended
  is everything retrieved followed by what is readable at the end. No assertion fails and the
  index invariant is kept, through growth, compaction and reset alike.
\<close>

theorem buffer_is_fifo:
  assumes "buf_inv b" and "buf_room (length (fifo_puts os)) b"
    and "fifo_fits (length (contents b)) os"
  shows "\<exists>out b'. fifo_run append retrieve contents os b = Inr (out, b') \<and> buf_inv b'
           \<and> contents b @ fifo_puts os = out @ contents b'"
  using assms by (rule buf.run_conserves)

theorem buffer_is_fifo_witness:
  "\<exists>out b'. fifo_run append retrieve contents [Put [1, 2, 3], Get 2, Put [4], Get 2] tiny_buffer
              = Inr (out, b') \<and> buf_inv b' \<and> [1, 2, 3, 4] = out @ contents b'"
  using buffer_is_fifo[of tiny_buffer "[Put [1, 2, 3], Get 2, Put [4], Get 2]"]
  by (simp add: max_vec_def)

section \<open>Prepending a length header\<close>

text \<open>
  A message whose length is prepended in network byte order (\<open>prependInt32\<close>, the use the
  cheap prepend space is there for) is decoded on any host as that length followed by the
  unchanged message.
\<close>

theorem prepended_header_read_back:
  assumes "buf_inv b" and "4 \<le> prependableBytes b"
  shows "\<exists>b1 b2. prependInt32 h x b = Inr b1 \<and> buf_inv b1
           \<and> readInt32 h b1 = Inr (x, b2) \<and> buf_inv b2 \<and> contents b2 = contents b"
proof -
  have "length (be_bytes x) \<le> prependableBytes b" using assms(2) by simp
  with assms(1) obtain b1 where b1: "prepend (be_bytes x) b = Inr b1" "buf_inv b1"
    "contents b1 = be_bytes x @ contents b"
    by (rule prepend_ok)
  from b1(2,3) obtain b2 where "readInt32 h b1 = Inr (x, b2)" "buf_inv b2" "contents b2 = contents b"
    by (rule readInt32_bytes)
  with b1 show ?thesis by (simp add: prependInt32_def endian_conv_defs mem_bytes_htobe)
qed

theorem prepended_header_read_back_witness:
  "\<exists>b1 b2. prependInt32 LittleEndian 99 tiny_buffer = Inr b1 \<and> buf_inv b1
     \<and> readInt32 LittleEndian b1 = Inr (99, b2) \<and> buf_inv b2 \<and> contents b2 = contents tiny_buffer"
  by (rule prepended_header_read_back) (simp, simp add: tiny_buffer_def prependableBytes_def)

section \<open>Reading from a descriptor\<close>

lemma append_raw_exact: "append_raw ds (length ds) b = append ds b"
  by (simp add: append_def)

lemma readFd_direct:
  assumes inv: "buf_inv b" and fits: "length ds \<le> writableBytes b"
  shows "\<exists>b'. readFd (ReadData ds) b = Inr (int (length ds), None, b') \<and> buf_inv b'
           \<and> contents b' = contents b @ ds"
proof -
  let ?b = "b\<lparr>buffer_vec := overwrite (writerIndex b) ds (buffer_vec b),
              writerIndex := writerIndex b + length ds\<rparr>"
  have "writerIndex b + length ds \<le> length (buffer_vec b)"
    using inv fits by (auto simp: buf_inv_sizes buf_inv_def)
  then have "sz_add (writerIndex b) (length ds) = writerIndex b + length ds"
    using buf_inv_sizes(5)[OF inv] by simp
  then have "readFd (ReadData ds) b = Inr (int (length ds), None, ?b)"
    using fits by (simp add: Let_def)
  with append_room[OF inv fits] show ?thesis by (auto simp: Let_def)
qed

lemma readFd_extra:
  assumes inv: "buf_inv b" and over: "writableBytes b < length ds"
    and room: "length (buffer_vec b) + (length ds - writableBytes b) \<le> max_vec"
  shows "\<exists>b'. readFd (ReadData ds) b = Inr (int (length ds), None, b') \<and> buf_inv b'
           \<and> contents b' = contents b @ ds"
proof -
  let ?w = "writableBytes b"
  let ?b = "b\<lparr>buffer_vec := overwrite (writerIndex b) (take ?w ds) (buffer_vec b),
              writerIndex := length (buffer_vec b)\<rparr>"
  have w: "writerIndex b + ?w = length (buffer_vec b)" "length (take ?w ds) = ?w"
    using inv over by (auto simp: buf_inv_sizes buf_inv_def)
  with append_room[OF inv, of "take ?w ds"] have b: "buf_inv ?b" "contents ?b = contents b @ take ?w ds"
    by (auto simp: Let_def)
  have lt: "length ds < 2 ^ 64" using room over w by (simp add: max_vec_def)
  have len: "length (buffer_vec ?b) = length (buffer_vec b)" using w over by simp
  from b(1) room len have "writerIndex ?b + length (drop ?w ds) \<le> max_vec" by simp
  with b(1) obtain b' where b': "append (drop ?w ds) ?b = Inr b'" "buf_inv b'"
    "contents b' = contents ?b @ drop ?w ds"
    by (rule append_ok)
  have "append_raw (drop ?w ds) (sz_sub (length ds) ?w) ?b = Inr b'"
    using b'(1) lt over by (simp add: append_def)
  then have "readFd (ReadData ds) b = Inr (int (length ds), None, b')"
    using over w by (simp add: Let_def)
  with b' b(2) show ?thesis by simp
qed

text \<open>
  \<open>readFd\<close> appends exactly the bytes the kernel delivered, whether they fit behind the
  writer or spill into the stack buffer, reports their number and keeps the invariant; and
  when the stack buffer takes part at most 128k-1 bytes are read, as the comment in the code
  says.
\<close>

theorem readFd_appends:
  assumes inv: "buf_inv b" and kernel: "readv_ok (readFd_iov b) (ReadData ds)"
    and room: "length (buffer_vec b) + extrabuf_size \<le> max_vec"
  shows "\<exists>b'. readFd (ReadData ds) b = Inr (int (length ds), None, b') \<and> buf_inv b'
           \<and> contents b' = contents b @ ds
           \<and> (length (readFd_iov b) = 2 \<longrightarrow> length ds \<le> 128 * 1024 - 1)"
proof -
  have "length ds \<le> writableBytes b + extrabuf_size"
    "length (readFd_iov b) = 2 \<longrightarrow> length ds \<le> 128 * 1024 - 1"
    using kernel by (auto simp: readv_ok_def readFd_iov_def Let_def extrabuf_size_def split: if_splits)
  with room readFd_direct[OF inv] readFd_extra[OF inv] show ?thesis
    by (cases "length ds \<le> writableBytes b") (fastforce simp del: readFd.simps)+
qed

theorem readFd_appends_witness:
  "\<exists>b'. readFd (ReadData [9, 8]) tiny_buffer = Inr (2, None, b') \<and> buf_inv b'
     \<and> contents b' = [9, 8] \<and> (length (readFd_iov tiny_buffer) = 2 \<longrightarrow> length [9, 8 :: byte] \<le> 131071)"
proof -
  have "readv_ok (readFd_iov tiny_buffer) (ReadData [9, 8])"
    by (simp add: readv_ok_def readFd_iov_def Let_def extrabuf_size_def)
  moreover have "length (buffer_vec tiny_buffer) + extrabuf_size \<le> max_vec"
    by (simp add: tiny_buffer_def extrabuf_size_def max_vec_def)
  ultimately show ?thesis
    using readFd_appends[of tiny_buffer "[9, 8]"] by (simp del: readFd.simps)
qed


section \<open>Searching for line ends\<close>

lemma find_upt_Some:
  "List.find P [m..<n] = Some i \<longleftrightarrow> m \<le> i \<and> i < n \<and> P i \<and> (\<forall>j. m \<le> j \<and> j < i \<longrightarrow> \<not> P j)"
proof -
  have "List.find P [m..<n] = Some i \<longleftrightarrow>
      (\<exists>k < n - m. P (m + k) \<and> i = m + k \<and> (\<forall>j<k. \<not> P (m + j)))"
    by (auto simp: find_Some_iff)
  also have "\<dots> \<longleftrightarrow> m \<le> i \<and> i < n \<and> P i \<and> (\<forall>j. m \<le> j \<and> j < i \<longrightarrow> \<not> P j)"
  proof (intro iffI)
    assume "m \<le> i \<and> i < n \<and> P i \<and> (\<forall>j. m \<le> j \<and> j < i \<longrightarrow> \<not> P j)"
    then show "\<exists>k < n - m. P (m + k) \<and> i = m + k \<and> (\<forall>j<k. \<not> P (m + j))"
      by (intro exI[of _ "i - m"]) auto
  next
    assume "\<exists>k < n - m. P (m + k) \<and> i = m + k \<and> (\<forall>j<k. \<not> P (m + j))"
    then obtain k where k: "k < n - m" "P (m + k)" "i = m + k" "\<forall>j<k. \<not> P (m + j)" by blast
    have "\<not> P j" if "m \<le> j" "j < i" for j
      using k(3,4) that by (metis add_less_cancel_left le_Suc_ex)
    with k show "m \<le> i \<and> i < n \<and> P i \<and> (\<forall>j. m \<le> j \<and> j < i \<longrightarrow> \<not> P j)" by auto
  qed
  finally show ?thesis .
qed

lemma find_upt_None: "List.find P [m..<n] = None \<longleftrightarrow> (\<forall>j. m \<le> j \<and> j < n \<longrightarrow> \<not> P j)"
  by (auto simp: find_None_iff)

definition crlf_at :: "byte list \<Rightarrow> nat \<Rightarrow> bool" where
  "crlf_at xs i \<longleftrightarrow> i + 2 \<le> length xs \<and> xs ! i = 13 \<and> xs ! (i + 1) = 10"

lemma take_two_eq:
  "take (Suc (Suc 0)) (drop i xs) = [a, b] \<longleftrightarrow> i + 2 \<le> length xs \<and> xs ! i = a \<and> xs ! (i + 1) = b"
proof (cases "i + 2 \<le> length xs")
  case True
  then have "drop i xs = xs ! i # xs ! (i + 1) # drop (i + 2) xs"
    by (simp add: Cons_nth_drop_Suc)
  with True show ?thesis by simp
next
  case False
  then have "length (take (Suc (Suc 0)) (drop i xs)) < 2" by auto
  then have "take (Suc (Suc 0)) (drop i xs) \<noteq> [a, b]" by (metis length_Cons list.size(3) numeral_2_eq_2 less_irrefl)
  with False show ?thesis by simp
qed

lemma search_crlf:
  assumes inv: "buf_inv b"
  shows "List.find (\<lambda>i. take (length kCRLF) (drop i (buffer_vec b)) = kCRLF)
           [peek b..<beginWrite b + 1 - length kCRLF] = Some p
     \<longleftrightarrow> (\<exists>k. p = readerIndex b + k \<and> crlf_at (contents b) k \<and> (\<forall>j<k. \<not> crlf_at (contents b) j))"
    (is "?l = _ \<longleftrightarrow> ?r")
proof -
  let ?r' = "readerIndex b" and ?w = "writerIndex b" and ?v = "buffer_vec b"
  have idx: "?r' \<le> ?w" "?w \<le> length ?v" using inv by (auto simp: buf_inv_def)
  have at: "crlf_at (contents b) k \<longleftrightarrow> ?r' + k + 2 \<le> ?w \<and> ?v ! (?r' + k) = 13 \<and> ?v ! (?r' + k + 1) = 10" for k
    using idx by (auto simp: crlf_at_def contents_def min_def)
  have "?l = Some p \<longleftrightarrow> ?r' \<le> p \<and> p + 1 < ?w \<and> ?v ! p = 13 \<and> ?v ! (p + 1) = 10
      \<and> (\<forall>j. ?r' \<le> j \<and> j < p \<longrightarrow> \<not> (?v ! j = 13 \<and> ?v ! (j + 1) = 10))"
    using idx by (auto simp: find_upt_Some kCRLF_def take_two_eq peek_def beginWrite_def)
  also have "\<dots> \<longleftrightarrow> ?r"
  proof (intro iffI)
    assume l: "?r' \<le> p \<and> p + 1 < ?w \<and> ?v ! p = 13 \<and> ?v ! (p + 1) = 10
      \<and> (\<forall>j. ?r' \<le> j \<and> j < p \<longrightarrow> \<not> (?v ! j = 13 \<and> ?v ! (j + 1) = 10))"
    then show ?r by (intro exI[of _ "p - ?r'"]) (auto simp: at)
  next
    assume ?r
    then obtain k where k: "p = ?r' + k" "crlf_at (contents b) k" "\<forall>j<k. \<not> crlf_at (contents b) j"
      by blast
    have "\<not> (?v ! j = 13 \<and> ?v ! (j + 1) = 10)" if "?r' \<le> j" "j < p" for j
    proof -
      have "\<not> crlf_at (contents b) (j - ?r')" using k that by auto
      with that k show ?thesis by (auto simp: at)
    qed
    with k show "?r' \<le> p \<and> p + 1 < ?w \<and> ?v ! p = 13 \<and> ?v ! (p + 1) = 10
      \<and> (\<forall>j. ?r' \<le> j \<and> j < p \<longrightarrow> \<not> (?v ! j = 13 \<and> ?v ! (j + 1) = 10))"
      by (auto simp: at)
  qed
  finally show ?thesis .
qed

text \<open>
  \<open>findCRLF\<close> points at the first CR LF of the readable bytes, and is null exactly when
  they hold none; bytes outside the readable area never take part.
\<close>

theorem findCRLF_first:
  assumes "buf_inv b"
  shows "findCRLF b = Some p \<longleftrightarrow> (\<exists>k. p = readerIndex b + k \<and> crlf_at (contents b) k
            \<and> (\<forall>j<k. \<not> crlf_at (contents b) j))"
proof (cases "List.find (\<lambda>i. take (length kCRLF) (drop i (buffer_vec b)) = kCRLF)
           [peek b..<beginWrite b + 1 - length kCRLF]")
  case None
  with search_crlf[OF assms, of p] show ?thesis
    by (simp add: findCRLF_def std_search_def)
next
  case (Some q)
  then have "q < beginWrite b" by (auto simp: find_upt_Some kCRLF_def)
  with Some search_crlf[OF assms, of p] show ?thesis
    by (auto simp: findCRLF_def std_search_def)
qed

theorem findCRLF_first_witness:
  "findCRLF \<lparr>buffer_vec = [13, 10, 0, 0, 0, 0, 0, 0, 65, 13, 13, 10, 13, 10], readerIndex = 8,
             writerIndex = 13\<rparr> = Some 10"
proof -
  let ?b = "\<lparr>buffer_vec = [13, 10, 0, 0, 0, 0, 0, 0, 65, 13, 13, 10, 13, 10], readerIndex = 8,
             writerIndex = 13\<rparr>"
  have "buf_inv ?b" by (simp add: buf_inv_def kCheapPrepend_def max_vec_def)
  moreover have "crlf_at (contents ?b) 2 \<and> (\<forall>j<2. \<not> crlf_at (contents ?b) j)"
    by (auto simp: contents_def crlf_at_def less_2_cases_iff)
  ultimately show ?thesis using findCRLF_first[of ?b 10] by auto
qed

section \<open>Shrinking\<close>

lemma toStringPiece_small:
  assumes "buf_inv b" and "readableBytes b < 2 ^ 31"
  shows "snd (toStringPiece b) = int (readableBytes b)"
    and "unat (word_of_int (snd (toStringPiece b)) :: 64 word) = readableBytes b"
proof -
  have "signed_take_bit 31 (int (readableBytes b)) = int (readableBytes b)"
    using assms(2) by (intro signed_take_bit_int_eq_self) auto
  then show s: "snd (toStringPiece b) = int (readableBytes b)"
    by (simp add: toStringPiece_def signed_of_nat)
  show "unat (word_of_int (snd (toStringPiece b)) :: 64 word) = readableBytes b"
    using assms(2) by (simp add: s unsigned_of_nat take_bit_nat_eq_self)
qed


lemma append_in_place:
  assumes "buf_inv b" and "length ds \<le> writableBytes b"
  obtains b' where "append ds b = Inr b'" "buf_inv b'" "contents b' = contents b @ ds"
    "writableBytes b' = writableBytes b - length ds" "readerIndex b' = readerIndex b"
proof -
  let ?b = "b\<lparr>buffer_vec := overwrite (writerIndex b) ds (buffer_vec b),
              writerIndex := writerIndex b + length ds\<rparr>"
  have e: "ensureWritableBytes (length ds) b = Inr b"
    using assms(2) by (simp add: ensureWritableBytes_def)
  have f: "buf_inv ?b" "contents ?b = contents b @ ds" "append ds b = Inr ?b"
    using append_room[OF assms] e
    by (simp_all add: Let_def append_def append_raw_def beginWrite_def)
  have "writerIndex b + length ds \<le> length (buffer_vec b)"
    using assms by (auto simp: buf_inv_sizes buf_inv_def)
  then have "writableBytes ?b = writableBytes b - length ds"
    using buf_inv_sizes(2)[OF f(1)] buf_inv_sizes(2)[OF assms(1)] by simp
  with f show ?thesis by (intro that[of ?b]) simp_all
qed

text \<open>
  \<open>shrink(reserve)\<close> keeps the readable bytes, leaves the cheap prepend in front of them and
  at least \<open>reserve\<close> writable bytes behind, as long as the readable size fits the \<open>int\<close> length
  of a \<open>StringPiece\<close>.
\<close>

theorem shrink_keeps_contents:
  assumes inv: "buf_inv b" and small: "readableBytes b < 2 ^ 31"
    and fits: "readableBytes b + reserve + kCheapPrepend \<le> max_vec"
  shows "\<exists>b'. shrink reserve b = Inr b' \<and> buf_inv b' \<and> contents b' = contents b
           \<and> readerIndex b' = kCheapPrepend \<and> reserve \<le> writableBytes b'"
proof -
  obtain o0 where o0: "newBuffer kInitialSize = Inr o0" "buf_inv o0" "contents o0 = []"
    "readerIndex o0 = kCheapPrepend" "writableBytes o0 = kInitialSize"
    by (rule newBuffer_ok[of kInitialSize]) (simp_all add: kInitialSize_def kCheapPrepend_def max_vec_def)
  have w0: "writerIndex o0 = kCheapPrepend"
    using o0 by (auto simp: contents_def buf_inv_def)
  have add: "sz_add (readableBytes b) reserve = readableBytes b + reserve"
    using fits by (simp add: max_vec_def kCheapPrepend_def)
  have "writerIndex o0 + (readableBytes b + reserve) \<le> max_vec" using fits w0 by simp
  with o0(2) obtain o1 where o1: "ensureWritableBytes (readableBytes b + reserve) o0 = Inr o1"
    "buf_inv o1" "contents o1 = contents o0" "readableBytes b + reserve \<le> writableBytes o1"
    "min kCheapPrepend (readerIndex o0) \<le> readerIndex o1" "writerIndex o1 \<le> writerIndex o0"
    by (rule ensureWritableBytes_ok)
  have r1: "readerIndex o1 = kCheapPrepend"
    using o1 o0(4) w0 by (auto simp: buf_inv_def)
  have len: "length (contents b) = readableBytes b" using inv by simp
  then have "length (contents b) \<le> writableBytes o1" using o1(4) by simp
  with o1(2) obtain o2 where o2: "append (contents b) o1 = Inr o2" "buf_inv o2"
    "contents o2 = contents o1 @ contents b"
    "writableBytes o2 = writableBytes o1 - length (contents b)" "readerIndex o2 = readerIndex o1"
    by (rule append_in_place)
  have take: "take (readableBytes b) (fst (toStringPiece b)) = contents b"
    using inv by (simp add: toStringPiece_def contents_def peek_def buf_inv_sizes)
  have short: "\<not> length (fst (toStringPiece b)) < readableBytes b"
    using take len by (metis length_take min.cobounded1 not_less)
  have "append_piece (toStringPiece b) o1 = Inr o2"
    using o2(1) len take short
    by (simp add: append_piece_def toStringPiece_small(2)[OF inv small] append_def append_raw_def)
  with o0(1) o1(1) add have "shrink reserve b = Inr (fst (swap_buffers b o2))"
    by (simp add: shrink_def)
  moreover have "fst (swap_buffers b o2) = o2" by (simp add: swap_buffers_def)
  ultimately show ?thesis
    using o2 o1(3,4) o0(3) r1 len by auto
qed

theorem shrink_keeps_contents_witness:
  "\<exists>b'. shrink 5 tiny_buffer = Inr b' \<and> buf_inv b' \<and> contents b' = contents tiny_buffer
      \<and> readerIndex b' = kCheapPrepend \<and> 5 \<le> writableBytes b'"
proof (rule shrink_keeps_contents)
  have "readableBytes tiny_buffer = 0"
    using length_contents[of tiny_buffer] by simp
  then show "readableBytes tiny_buffer < 2 ^ 31"
    "readableBytes tiny_buffer + 5 + kCheapPrepend \<le> max_vec"
    by (simp_all add: max_vec_def kCheapPrepend_def)
qed simp

section \<open>Outcomes without an assumption on the room left\<close>

text \<open>
  When the buffer would outgrow what a vector can hold, \<open>length_error\<close> is thrown; nothing else
  can go wrong with the bytes of an object that exists in memory.
\<close>

lemma append_rpost:
  assumes inv: "buf_inv b" and len: "length ds \<le> max_vec"
  shows "rpost {LengthError} (\<lambda>b'. buf_inv b' \<and> contents b' = contents b @ ds) (append ds b)"
proof (cases "writerIndex b + length ds \<le> max_vec")
  case True
  with inv obtain b' where "append ds b = Inr b'" "buf_inv b'" "contents b' = contents b @ ds"
    by (rule append_ok)
  then show ?thesis by simp
next
  case False
  have idx: "readerIndex b \<le> writerIndex b" "writerIndex b \<le> length (buffer_vec b)"
    "length (buffer_vec b) \<le> max_vec"
    using inv by (auto simp: buf_inv_def)
  have less: "writableBytes b < length ds"
    using False idx buf_inv_sizes(2)[OF inv] by simp
  show ?thesis
  proof (cases "writableBytes b + prependableBytes b < length ds + kCheapPrepend")
    case True
    have "sz_add (writableBytes b) (prependableBytes b) = writableBytes b + prependableBytes b"
      "sz_add (length ds) kCheapPrepend = length ds + kCheapPrepend"
      "sz_add (writerIndex b) (length ds) = writerIndex b + length ds"
      using idx len buf_inv_sizes(2)[OF inv]
      by (auto simp: prependableBytes_def max_vec_def kCheapPrepend_def)
    then have "makeSpace (length ds) b = Inl LengthError"
      using True False by (simp add: makeSpace_def vec_resize_def)
    then show ?thesis using less by (simp add: append_def append_raw_def ensureWritableBytes_def)
  next
    case False
    then have "length ds + kCheapPrepend \<le> writableBytes b + prependableBytes b" by simp
    with inv less obtain b1 where b1: "makeSpace (length ds) b = Inr b1" "buf_inv b1"
      "contents b1 = contents b" "length ds \<le> writableBytes b1"
      by (rule makeSpace_move)
    then show ?thesis
      using append_room[OF b1(2,4)] less
      by (simp add: append_def append_raw_def ensureWritableBytes_def Let_def beginWrite_def)
  qed
qed

lemma readFd_rpost:
  assumes inv: "buf_inv b" and kernel: "readv_ok (readFd_iov b) (ReadData ds)"
  shows "rpost {LengthError} (\<lambda>(n, e, b'). n = int (length ds) \<and> e = None \<and> buf_inv b'
           \<and> contents b' = contents b @ ds) (readFd (ReadData ds) b)"
proof (cases "length ds \<le> writableBytes b")
  case True
  then show ?thesis using readFd_direct[OF inv True] by (auto simp del: readFd.simps)
next
  case False
  let ?w = "writableBytes b"
  let ?b = "b\<lparr>buffer_vec := overwrite (writerIndex b) (take ?w ds) (buffer_vec b),
              writerIndex := length (buffer_vec b)\<rparr>"
  have w: "writerIndex b + ?w = length (buffer_vec b)" "length (take ?w ds) = ?w"
    using inv False by (auto simp: buf_inv_sizes buf_inv_def)
  with append_room[OF inv, of "take ?w ds"] have b: "buf_inv ?b" "contents ?b = contents b @ take ?w ds"
    by (auto simp: Let_def)
  have ds: "length ds \<le> ?w + extrabuf_size"
    using kernel False by (auto simp: readv_ok_def readFd_iov_def Let_def split: if_splits)
  then have lt: "length ds < 2 ^ 64"
    using w inv by (auto simp: max_vec_def extrabuf_size_def buf_inv_def)
  have "length (drop ?w ds) \<le> max_vec" using ds by (simp add: extrabuf_size_def max_vec_def)
  from append_rpost[OF b(1) this] have ap: "rpost {LengthError}
      (\<lambda>b'. buf_inv b' \<and> contents b' = contents b @ ds) (append (drop ?w ds) ?b)"
    unfolding b(2) by simp
  have "append_raw (drop ?w ds) (sz_sub (length ds) ?w) ?b = append (drop ?w ds) ?b"
    using lt False by (simp add: append_def)
  then have "readFd (ReadData ds) b
      = rbind (append (drop ?w ds) ?b) (\<lambda>b2. Inr (int (length ds), None, b2))"
    using False w by (simp add: Let_def)
  then show ?thesis
    by (simp add: rpost_rbind[OF ap] del: readFd.simps)
qed

end
