(* ===== verification/TcpConnection.thy ===== *)
theory TcpConnection
  imports Buffer Channel
begin

text \<open>
  A TCP connection (src/zing/net/TcpConnection.h and TcpConnection.cpp): the state machine, the
  output path (direct write, output buffer, write events), closing, and the callbacks to the
  user. What \<open>write\<close> and \<open>readv\<close> do is given by the environment; user callbacks are lists of calls
  on the connection, chosen freely from its state. Functors queued in the loop are tasks. The
  poller is represented by the channel's mask, whose agreement with what the kernel watches is
  the subject of the theories of the pollers.
\<close>

section \<open>State\<close>

datatype conn_state = kDisconnected | kConnecting | kConnected | kDisconnecting

text \<open>Functors in the loop's queue that belong to the connection.\<close>

datatype conn_task =
    SendTask "byte list" | ShutdownTask | ForceCloseTask | StartReadTask | StopReadTask
  | WriteCompleteTask | HighWaterMarkTask nat

text \<open>User callbacks that were invoked.\<close>

datatype notice = Up | Down | Message | Closed | WriteCompleted | HighWater nat

text \<open>
  \<open>tc_timers\<close> counts the timers of \<open>forceCloseWithDelay\<close>, \<open>tc_writes\<close> the calls of \<open>write\<close> so far.
  \<open>tc_sent\<close>, \<open>tc_accepted\<close>, \<open>tc_shutAt\<close> and \<open>tc_notices\<close> record what was done: the bytes the kernel
  took, the bytes of all messages the connection took over, what had been taken over when the
  write side was shut down, and the user callbacks.
\<close>

record tcp_connection =
  tc_threadId :: int
  tc_name :: string
  tc_state :: conn_state
  tc_reading :: bool
  tc_channel :: channel
  tc_hasWriteComplete :: bool
  tc_hasHighWaterMark :: bool
  tc_highWaterMark :: nat
  tc_inputBuffer :: buffer
  tc_outputBuffer :: buffer
  tc_pending :: "conn_task list"
  tc_timers :: nat
  tc_writes :: nat
  tc_sent :: "byte list"
  tc_accepted :: "byte list"
  tc_shutAt :: "byte list option"
  tc_notices :: "notice list"

datatype write_result = Wrote nat | WriteErr int

definition EWOULDBLOCK :: int where "EWOULDBLOCK = 11"
definition EPIPE :: int where "EPIPE = 32"
definition ECONNRESET :: int where "ECONNRESET = 104"

datatype conn_call =
    Send "byte list" | SendInput | RetrieveInput nat | Shutdown | ForceClose | ForceCloseWithDelay
  | StartRead | StopRead

text \<open>
  \<open>env_write i ds\<close>: what the \<open>i\<close>-th call of \<open>write\<close> does with the bytes \<open>ds\<close>. The other components are
  the calls that the user's callbacks make.
\<close>

record conn_env =
  env_write :: "nat \<Rightarrow> byte list \<Rightarrow> write_result"
  on_connection :: "tcp_connection \<Rightarrow> conn_call list"
  on_message :: "tcp_connection \<Rightarrow> conn_call list"
  on_writeComplete :: "tcp_connection \<Rightarrow> conn_call list"
  on_highWaterMark :: "nat \<Rightarrow> tcp_connection \<Rightarrow> conn_call list"

definition new_tcp_connection ::
  "int \<Rightarrow> ptr \<Rightarrow> string \<Rightarrow> int \<Rightarrow> bool \<Rightarrow> bool \<Rightarrow> tcp_connection result" where
  "new_tcp_connection threadId loop name sockfd hasWC hasHWM =
    rbind (newBuffer kInitialSize) (\<lambda>input.
    rbind (newBuffer kInitialSize) (\<lambda>output.
    if loop = 0 then Inl Fatal
    else Inr \<lparr>tc_threadId = threadId, tc_name = name, tc_state = kConnecting, tc_reading = True,
      tc_channel = new_channel loop sockfd, tc_hasWriteComplete = hasWC, tc_hasHighWaterMark = hasHWM,
      tc_highWaterMark = 64 * 1024 * 1024, tc_inputBuffer = input, tc_outputBuffer = output,
      tc_pending = [], tc_timers = 0, tc_writes = 0, tc_sent = [], tc_accepted = [], tc_shutAt = None,
      tc_notices = []\<rparr>))"

text \<open>The assertion of the destructor.\<close>

definition destroy_tcp_connection :: "tcp_connection \<Rightarrow> unit result" where
  "destroy_tcp_connection c = (if tc_state c = kDisconnected then Inr () else Inl AssertFail)"

definition tc_assertInLoopThread :: "int \<Rightarrow> tcp_connection \<Rightarrow> unit result" where
  "tc_assertInLoopThread me c = (if me = tc_threadId c then Inr () else Inl Fatal)"

definition setState :: "conn_state \<Rightarrow> tcp_connection \<Rightarrow> tcp_connection" where
  "setState s c = c\<lparr>tc_state := s\<rparr>"

definition tc_mask :: "mask_op \<Rightarrow> tcp_connection \<Rightarrow> tcp_connection" where
  "tc_mask m c = c\<lparr>tc_channel := ch_mask m (tc_channel c)\<rparr>"

definition tc_isWriting :: "tcp_connection \<Rightarrow> bool" where
  "tc_isWriting c = isWriting (tc_channel c)"

definition queueTask :: "conn_task \<Rightarrow> tcp_connection \<Rightarrow> tcp_connection" where
  "queueTask t c = c\<lparr>tc_pending := tc_pending c @ [t]\<rparr>"

definition notify :: "notice \<Rightarrow> tcp_connection \<Rightarrow> tcp_connection" where
  "notify n c = c\<lparr>tc_notices := tc_notices c @ [n]\<rparr>"

definition stateToString :: "conn_state \<Rightarrow> string" where
  "stateToString s =
    (case s of kDisconnected \<Rightarrow> ''kDisconnected'' | kConnecting \<Rightarrow> ''kConnecting''
     | kConnected \<Rightarrow> ''kConnected'' | kDisconnecting \<Rightarrow> ''kDisconnecting'')"

section \<open>Sending\<close>

text \<open>
  The direct write: the number of bytes written, the number that remain, whether the peer is gone,
  and the connection afterwards.
\<close>

definition direct_write :: "conn_env \<Rightarrow> byte list \<Rightarrow> tcp_connection \<Rightarrow> nat \<times> nat \<times> bool \<times> tcp_connection" where
  "direct_write env data c =
    (let c' = c\<lparr>tc_writes := Suc (tc_writes c)\<rparr> in
     case env_write env (tc_writes c) data of
       Wrote n \<Rightarrow>
         let remaining = sz_sub (length data) n;
             c1 = c'\<lparr>tc_sent := tc_sent c' @ take n data\<rparr>
         in (n, remaining, False,
             if remaining = 0 \<and> tc_hasWriteComplete c then queueTask WriteCompleteTask c1 else c1)
     | WriteErr e \<Rightarrow> (0, length data, e \<noteq> EWOULDBLOCK \<and> (e = EPIPE \<or> e = ECONNRESET), c'))"

definition sendInLoop :: "conn_env \<Rightarrow> int \<Rightarrow> byte list \<Rightarrow> tcp_connection \<Rightarrow> tcp_connection result" where
  "sendInLoop env me data c =
    rbind (tc_assertInLoopThread me c) (\<lambda>_.
    if tc_state c = kDisconnected then Inr c
    else let (nwrote, remaining, faultError, c1) =
               (if \<not> tc_isWriting c \<and> readableBytes (tc_outputBuffer c) = 0
                then direct_write env data c else (0, length data, False, c))
         in if \<not> remaining \<le> length data then Inl AssertFail
            else if faultError then Inr c1
            else let c2 = c1\<lparr>tc_accepted := tc_accepted c1 @ data\<rparr> in
              if 0 < remaining
              then let oldLen = readableBytes (tc_outputBuffer c2);
                       c3 = (if tc_highWaterMark c2 \<le> sz_add oldLen remaining \<and> oldLen < tc_highWaterMark c2
                                \<and> tc_hasHighWaterMark c2
                             then queueTask (HighWaterMarkTask (sz_add oldLen remaining)) c2 else c2)
                   in rbind (append_raw (drop nwrote data) remaining (tc_outputBuffer c3)) (\<lambda>b.
                        let c4 = c3\<lparr>tc_outputBuffer := b\<rparr>
                        in Inr (if \<not> tc_isWriting c4 then tc_mask EnableWriting c4 else c4))
              else Inr c2)"

text \<open>\<open>send(const StringPiece&)\<close>; another thread has a copy of the bytes queued.\<close>

definition tc_send :: "conn_env \<Rightarrow> int \<Rightarrow> byte list \<Rightarrow> tcp_connection \<Rightarrow> tcp_connection result" where
  "tc_send env me message c =
    (if tc_state c = kConnected
     then (if me = tc_threadId c then sendInLoop env me message c
           else Inr (queueTask (SendTask message) c))
     else Inr c)"

text \<open>\<open>send(Buffer*)\<close>: the buffer is emptied.\<close>

definition tc_send_buffer ::
  "conn_env \<Rightarrow> int \<Rightarrow> buffer \<Rightarrow> tcp_connection \<Rightarrow> (buffer \<times> tcp_connection) result" where
  "tc_send_buffer env me buf c =
    (if tc_state c = kConnected
     then (if me = tc_threadId c
           then rbind (sendInLoop env me (take (readableBytes buf) (drop (peek buf) (buffer_vec buf))) c)
                  (\<lambda>c'. Inr (retrieveAll buf, c'))
           else rbind (retrieveAllAsString buf) (\<lambda>(str, buf'). Inr (buf', queueTask (SendTask str) c)))
     else Inr (buf, c))"

section \<open>Closing\<close>

text \<open>\<open>socket_->shutdownWrite()\<close>\<close>

definition shutdownWrite :: "tcp_connection \<Rightarrow> tcp_connection" where
  "shutdownWrite c =
    (case tc_shutAt c of None \<Rightarrow> c\<lparr>tc_shutAt := Some (tc_accepted c)\<rparr> | Some _ \<Rightarrow> c)"

definition shutdownInLoop :: "int \<Rightarrow> tcp_connection \<Rightarrow> tcp_connection result" where
  "shutdownInLoop me c =
    rbind (tc_assertInLoopThread me c) (\<lambda>_.
      if \<not> tc_isWriting c then Inr (shutdownWrite c) else Inr c)"

definition tc_shutdown :: "int \<Rightarrow> tcp_connection \<Rightarrow> tcp_connection result" where
  "tc_shutdown me c =
    (if tc_state c = kConnected
     then let c' = setState kDisconnecting c
          in if me = tc_threadId c' then shutdownInLoop me c' else Inr (queueTask ShutdownTask c')
     else Inr c)"

definition tc_forceClose :: "tcp_connection \<Rightarrow> tcp_connection" where
  "tc_forceClose c =
    (if tc_state c = kConnected \<or> tc_state c = kDisconnecting
     then queueTask ForceCloseTask (setState kDisconnecting c) else c)"

definition tc_forceCloseWithDelay :: "tcp_connection \<Rightarrow> tcp_connection" where
  "tc_forceCloseWithDelay c =
    (if tc_state c = kConnected \<or> tc_state c = kDisconnecting
     then (setState kDisconnecting c)\<lparr>tc_timers := Suc (tc_timers c)\<rparr> else c)"

definition startReadInLoop :: "int \<Rightarrow> tcp_connection \<Rightarrow> tcp_connection result" where
  "startReadInLoop me c =
    rbind (tc_assertInLoopThread me c) (\<lambda>_.
      if \<not> tc_reading c \<or> \<not> isReading (tc_channel c)
      then Inr ((tc_mask EnableReading c)\<lparr>tc_reading := True\<rparr>) else Inr c)"

definition stopReadInLoop :: "int \<Rightarrow> tcp_connection \<Rightarrow> tcp_connection result" where
  "stopReadInLoop me c =
    rbind (tc_assertInLoopThread me c) (\<lambda>_.
      if tc_reading c \<or> isReading (tc_channel c)
      then Inr ((tc_mask DisableReading c)\<lparr>tc_reading := False\<rparr>) else Inr c)"

definition run_in_loop ::
  "int \<Rightarrow> conn_task \<Rightarrow> (tcp_connection \<Rightarrow> tcp_connection result) \<Rightarrow> tcp_connection \<Rightarrow> tcp_connection result" where
  "run_in_loop me t f c = (if me = tc_threadId c then f c else Inr (queueTask t c))"

section \<open>Calls made by the user\<close>

text \<open>
  \<open>RetrieveInput n\<close> takes \<open>n\<close> bytes, or all when there are fewer, out of the input buffer;
  \<open>SendInput\<close> is \<open>send(inputBuffer())\<close>.
\<close>

fun conn_exec :: "conn_env \<Rightarrow> int \<Rightarrow> conn_call \<Rightarrow> tcp_connection \<Rightarrow> tcp_connection result" where
  "conn_exec env me (Send ds) c = tc_send env me ds c"
| "conn_exec env me SendInput c =
     rbind (tc_send_buffer env me (tc_inputBuffer c) c) (\<lambda>(b, c'). Inr (c'\<lparr>tc_inputBuffer := b\<rparr>))"
| "conn_exec env me (RetrieveInput n) c =
     rbind (retrieve (min n (readableBytes (tc_inputBuffer c))) (tc_inputBuffer c))
       (\<lambda>b. Inr (c\<lparr>tc_inputBuffer := b\<rparr>))"
| "conn_exec env me Shutdown c = tc_shutdown me c"
| "conn_exec env me ForceClose c = Inr (tc_forceClose c)"
| "conn_exec env me ForceCloseWithDelay c = Inr (tc_forceCloseWithDelay c)"
| "conn_exec env me StartRead c = run_in_loop me StartReadTask (startReadInLoop me) c"
| "conn_exec env me StopRead c = run_in_loop me StopReadTask (stopReadInLoop me) c"

definition run_script ::
  "conn_env \<Rightarrow> int \<Rightarrow> (tcp_connection \<Rightarrow> conn_call list) \<Rightarrow> tcp_connection \<Rightarrow> tcp_connection result" where
  "run_script env me script c = rfold (conn_exec env me) (script c) c"

section \<open>Handlers\<close>

definition connectEstablished :: "conn_env \<Rightarrow> int \<Rightarrow> nat \<Rightarrow> tcp_connection \<Rightarrow> tcp_connection result" where
  "connectEstablished env me self c =
    rbind (tc_assertInLoopThread me c) (\<lambda>_.
    if tc_state c \<noteq> kConnecting then Inl AssertFail
    else let c1 = setState kConnected c;
             c2 = c1\<lparr>tc_channel := ch_tie_to self (tc_channel c1)\<rparr>;
             c3 = tc_mask EnableReading c2
         in run_script env me (on_connection env) (notify Up c3))"

definition connectDestroyed :: "conn_env \<Rightarrow> int \<Rightarrow> tcp_connection \<Rightarrow> tcp_connection result" where
  "connectDestroyed env me c =
    rbind (tc_assertInLoopThread me c) (\<lambda>_.
    rbind (if tc_state c = kConnected
           then run_script env me (on_connection env) (notify Down (tc_mask DisableAll (setState kDisconnected c)))
           else Inr c)
      (\<lambda>c'. if \<not> isNoneEvent (tc_channel c') then Inl AssertFail
            else Inr (c'\<lparr>tc_channel := (tc_channel c')\<lparr>ch_addedToLoop := False\<rparr>\<rparr>)))"

definition handleClose :: "conn_env \<Rightarrow> int \<Rightarrow> tcp_connection \<Rightarrow> tcp_connection result" where
  "handleClose env me c =
    rbind (tc_assertInLoopThread me c) (\<lambda>_.
    if \<not> (tc_state c = kConnected \<or> tc_state c = kDisconnecting) then Inl AssertFail
    else let c1 = tc_mask DisableAll (setState kDisconnected c)
         in rbind (run_script env me (on_connection env) (notify Down c1)) (\<lambda>c2. Inr (notify Closed c2)))"

text \<open>It only logs the pending error of the socket.\<close>

definition handleError :: "tcp_connection \<Rightarrow> tcp_connection result" where
  "handleError c = Inr c"

definition forceCloseInLoop :: "conn_env \<Rightarrow> int \<Rightarrow> tcp_connection \<Rightarrow> tcp_connection result" where
  "forceCloseInLoop env me c =
    rbind (tc_assertInLoopThread me c) (\<lambda>_.
      if tc_state c = kConnected \<or> tc_state c = kDisconnecting then handleClose env me c else Inr c)"

definition tc_handleRead :: "conn_env \<Rightarrow> int \<Rightarrow> read_result \<Rightarrow> tcp_connection \<Rightarrow> tcp_connection result" where
  "tc_handleRead env me r c =
    rbind (tc_assertInLoopThread me c) (\<lambda>_.
    rbind (readFd r (tc_inputBuffer c)) (\<lambda>(n, savedErrno, b).
      let c1 = c\<lparr>tc_inputBuffer := b\<rparr> in
      if 0 < n then run_script env me (on_message env) (notify Message c1)
      else if n = 0 then handleClose env me c1
      else handleError c1))"

definition handleWrite :: "conn_env \<Rightarrow> int \<Rightarrow> tcp_connection \<Rightarrow> tcp_connection result" where
  "handleWrite env me c =
    rbind (tc_assertInLoopThread me c) (\<lambda>_.
    if tc_isWriting c
    then let data = take (readableBytes (tc_outputBuffer c))
                      (drop (peek (tc_outputBuffer c)) (buffer_vec (tc_outputBuffer c)));
             c1 = c\<lparr>tc_writes := Suc (tc_writes c)\<rparr>
         in case env_write env (tc_writes c) data of
              WriteErr e \<Rightarrow> Inr c1
            | Wrote n \<Rightarrow>
              if 0 < n
              then rbind (retrieve n (tc_outputBuffer c1)) (\<lambda>b.
                     let c2 = c1\<lparr>tc_outputBuffer := b, tc_sent := tc_sent c1 @ take n data\<rparr> in
                     if readableBytes b = 0
                     then let c3 = tc_mask DisableWriting c2;
                              c4 = (if tc_hasWriteComplete c3 then queueTask WriteCompleteTask c3 else c3)
                          in if tc_state c4 = kDisconnecting then shutdownInLoop me c4 else Inr c4
                     else Inr c2)
              else Inr c1
    else Inr c)"

section \<open>Events\<close>

text \<open>One event of the channel reaches the handlers as \<open>Channel::handleEvent\<close> dispatches it.\<close>

fun conn_handler :: "conn_env \<Rightarrow> int \<Rightarrow> read_result \<Rightarrow> handler \<Rightarrow> tcp_connection \<Rightarrow> tcp_connection result" where
  "conn_handler env me r OnClose c = handleClose env me c"
| "conn_handler env me r OnError c = handleError c"
| "conn_handler env me r OnRead c = tc_handleRead env me r c"
| "conn_handler env me r OnWrite c = handleWrite env me c"

fun run_task :: "conn_env \<Rightarrow> int \<Rightarrow> conn_task \<Rightarrow> tcp_connection \<Rightarrow> tcp_connection result" where
  "run_task env me (SendTask ds) c = sendInLoop env me ds c"
| "run_task env me ShutdownTask c = shutdownInLoop me c"
| "run_task env me ForceCloseTask c = forceCloseInLoop env me c"
| "run_task env me StartReadTask c = startReadInLoop me c"
| "run_task env me StopReadTask c = stopReadInLoop me c"
| "run_task env me WriteCompleteTask c = run_script env me (on_writeComplete env) (notify WriteCompleted c)"
| "run_task env me (HighWaterMarkTask n) c =
     run_script env me (on_highWaterMark env n) (notify (HighWater n) c)"

text \<open>
  What can happen to a connection: the server establishes it, its channel is ready, a thread calls
  it, the loop runs its oldest task, a delayed close is due, the server destroys it.
\<close>

datatype conn_event =
    Establish | Ready "32 word" read_result | CallFrom int conn_call | RunTask | DelayExpired | Destroy

fun conn_step :: "conn_env \<Rightarrow> conn_event \<Rightarrow> tcp_connection \<Rightarrow> tcp_connection result" where
  "conn_step env Establish c = connectEstablished env (tc_threadId c) 0 c"
| "conn_step env (Ready revt r) c = rfold (conn_handler env (tc_threadId c) r) (dispatch revt) c"
| "conn_step env (CallFrom t call) c = conn_exec env t call c"
| "conn_step env RunTask c =
     (case tc_pending c of [] \<Rightarrow> Inr c
      | t # ts \<Rightarrow> run_task env (tc_threadId c) t (c\<lparr>tc_pending := ts\<rparr>))"
| "conn_step env DelayExpired c = Inr (tc_forceClose (c\<lparr>tc_timers := tc_timers c - 1\<rparr>))"
| "conn_step env Destroy c = connectDestroyed env (tc_threadId c) c"

section \<open>The invariant\<close>

text \<open>While the connection is up it waits for write events exactly when there are bytes to send.\<close>

definition out_ok :: "tcp_connection \<Rightarrow> bool" where
  "out_ok c \<longleftrightarrow>
    (if tc_state c \<in> {kConnected, kDisconnecting}
     then tc_isWriting c = (contents (tc_outputBuffer c) \<noteq> [])
     else isNoneEvent (tc_channel c))"

text \<open>
  No byte is lost, repeated or reordered; and when the write side has been shut down, what was
  taken over before that had been sent. (A shutdown that another thread asked for can also come
  after the connection went down, when there is nothing left to promise.)
\<close>

definition stream_ok :: "tcp_connection \<Rightarrow> bool" where
  "stream_ok c \<longleftrightarrow> tc_sent c @ contents (tc_outputBuffer c) = tc_accepted c
     \<and> (tc_state c \<noteq> kDisconnected \<longrightarrow> (\<forall>a. tc_shutAt c = Some a \<longrightarrow> (\<exists>more. tc_sent c = a @ more)))"

text \<open>The user is told once that the connection is up and once that it is down.\<close>

definition notices_ok :: "tcp_connection \<Rightarrow> bool" where
  "notices_ok c \<longleftrightarrow>
    filter (\<lambda>n. n = Up \<or> n = Down) (tc_notices c) =
      (case tc_state c of kConnecting \<Rightarrow> [] | kConnected \<Rightarrow> [Up] | kDisconnecting \<Rightarrow> [Up]
       | kDisconnected \<Rightarrow> [Up, Down])"

definition tasks_ok :: "tcp_connection \<Rightarrow> bool" where
  "tasks_ok c \<longleftrightarrow> (\<forall>ds. SendTask ds \<in> set (tc_pending c) \<longrightarrow> length ds \<le> max_vec)
     \<and> (tc_state c = kConnecting \<longrightarrow> tc_pending c = [] \<and> contents (tc_outputBuffer c) = [])"

definition conn_inv :: "tcp_connection \<Rightarrow> bool" where
  "conn_inv c \<longleftrightarrow> buf_inv (tc_inputBuffer c) \<and> buf_inv (tc_outputBuffer c)
     \<and> out_ok c \<and> stream_ok c \<and> notices_ok c \<and> tasks_ok c"

text \<open>A connection that is closing is waiting for something that goes on with it.\<close>

definition shut_ok :: "tcp_connection \<Rightarrow> bool" where
  "shut_ok c \<longleftrightarrow> (tc_state c = kDisconnecting \<longrightarrow>
     tc_isWriting c \<or> tc_shutAt c \<noteq> None \<or> ShutdownTask \<in> set (tc_pending c)
     \<or> ForceCloseTask \<in> set (tc_pending c) \<or> 0 < tc_timers c)"

lemmas conn_defs = conn_inv_def out_ok_def stream_ok_def notices_ok_def tasks_ok_def shut_ok_def

text \<open>What calls of the user may do to a connection: it stays up, or starts to close.\<close>

definition keeps :: "tcp_connection \<Rightarrow> tcp_connection \<Rightarrow> bool" where
  "keeps c c' \<longleftrightarrow> conn_inv c' \<and> (shut_ok c \<longrightarrow> shut_ok c') \<and> tc_threadId c' = tc_threadId c
     \<and> (tc_state c' = tc_state c \<or> (tc_state c = kConnected \<and> tc_state c' = kDisconnecting))"

lemma keeps_refl: "conn_inv c \<Longrightarrow> keeps c c"
  by (simp add: keeps_def)

lemma keeps_trans: "keeps c c1 \<Longrightarrow> keeps c1 c2 \<Longrightarrow> keeps c c2"
  by (auto simp: keeps_def)

lemma keeps_rbind:
  assumes "rpost E (keeps c) r" and "\<And>c1. keeps c c1 \<Longrightarrow> rpost E (keeps c1) (f c1)"
  shows "rpost E (keeps c) (rbind r f)"
  using assms(1)
proof (rule rpost_rbind)
  fix c1 assume k: "keeps c c1"
  from assms(2)[OF k] show "rpost E (keeps c) (f c1)"
    by (rule rpost_mono) (rule keeps_trans[OF k])
qed

text \<open>Environments: \<open>write\<close> writes no more than it is given.\<close>

definition write_ok :: "conn_env \<Rightarrow> bool" where
  "write_ok env \<longleftrightarrow> (\<forall>i ds n. env_write env i ds = Wrote n \<longrightarrow> n \<le> length ds)"

lemma tc_isWriting_mask [simp]:
  "tc_isWriting (tc_mask EnableWriting c)" "\<not> tc_isWriting (tc_mask DisableWriting c)"
  "tc_isWriting (tc_mask EnableReading c) = tc_isWriting c"
  "tc_isWriting (tc_mask DisableReading c) = tc_isWriting c"
  by (simp_all add: tc_isWriting_def tc_mask_def)

lemma tc_isWriting_fields [simp]:
  "tc_isWriting (c\<lparr>tc_outputBuffer := b\<rparr>) = tc_isWriting c" "tc_isWriting (c\<lparr>tc_inputBuffer := b\<rparr>) = tc_isWriting c"
  "tc_isWriting (c\<lparr>tc_pending := p\<rparr>) = tc_isWriting c" "tc_isWriting (c\<lparr>tc_sent := l\<rparr>) = tc_isWriting c"
  "tc_isWriting (c\<lparr>tc_accepted := l\<rparr>) = tc_isWriting c" "tc_isWriting (c\<lparr>tc_writes := n\<rparr>) = tc_isWriting c"
  "tc_isWriting (c\<lparr>tc_state := st\<rparr>) = tc_isWriting c" "tc_isWriting (c\<lparr>tc_notices := ns\<rparr>) = tc_isWriting c"
  "tc_isWriting (c\<lparr>tc_timers := n\<rparr>) = tc_isWriting c" "tc_isWriting (c\<lparr>tc_shutAt := a\<rparr>) = tc_isWriting c"
  "tc_isWriting (c\<lparr>tc_reading := r\<rparr>) = tc_isWriting c"
  by (simp_all add: tc_isWriting_def)

lemma tc_mask_fields [simp]:
  "tc_threadId (tc_mask m c) = tc_threadId c" "tc_state (tc_mask m c) = tc_state c"
  "tc_inputBuffer (tc_mask m c) = tc_inputBuffer c" "tc_outputBuffer (tc_mask m c) = tc_outputBuffer c"
  "tc_pending (tc_mask m c) = tc_pending c" "tc_timers (tc_mask m c) = tc_timers c"
  "tc_sent (tc_mask m c) = tc_sent c" "tc_accepted (tc_mask m c) = tc_accepted c"
  "tc_shutAt (tc_mask m c) = tc_shutAt c" "tc_notices (tc_mask m c) = tc_notices c"
  "tc_hasWriteComplete (tc_mask m c) = tc_hasWriteComplete c"
  by (simp_all add: tc_mask_def)

lemma isNone_not_writing: "isNoneEvent (tc_channel c) \<Longrightarrow> \<not> tc_isWriting c"
  by (simp add: tc_isWriting_def isWriting_def isNoneEvent_def has_event_def event_defs)

lemma contents_peek:
  "buf_inv b \<Longrightarrow> take (readableBytes b) (drop (peek b) (buffer_vec b)) = contents b"
  by (simp add: contents_def peek_def buf_inv_sizes)

lemma readable_nil: "buf_inv b \<Longrightarrow> readableBytes b = 0 \<longleftrightarrow> contents b = []"
  by (metis length_contents length_0_conv)

lemma contents_small: "buf_inv b \<Longrightarrow> length (contents b) \<le> max_vec"
  by (simp add: buf_inv_sizes) (auto simp: buf_inv_def)

lemma notices_fields [simp]:
  "notices_ok (c\<lparr>tc_outputBuffer := b\<rparr>) = notices_ok c" "notices_ok (c\<lparr>tc_inputBuffer := b\<rparr>) = notices_ok c"
  "notices_ok (c\<lparr>tc_pending := p\<rparr>) = notices_ok c" "notices_ok (c\<lparr>tc_sent := l\<rparr>) = notices_ok c"
  "notices_ok (c\<lparr>tc_accepted := l\<rparr>) = notices_ok c" "notices_ok (c\<lparr>tc_writes := n\<rparr>) = notices_ok c"
  "notices_ok (c\<lparr>tc_timers := n\<rparr>) = notices_ok c" "notices_ok (c\<lparr>tc_shutAt := a\<rparr>) = notices_ok c"
  "notices_ok (c\<lparr>tc_reading := r\<rparr>) = notices_ok c" "notices_ok (tc_mask m c) = notices_ok c"
  by (simp_all add: notices_ok_def)

section \<open>Sending keeps it\<close>

text \<open>
  The second half of \<open>sendInLoop\<close>: what remains is appended, and write events are awaited. The
  bytes before it were sent already.
\<close>

lemma buffer_remaining:
  assumes inv: "buf_inv (tc_outputBuffer c)" "buf_inv (tc_inputBuffer c)" "notices_ok c"
    and up: "tc_state c \<in> {kConnected, kDisconnecting}"
    and writing: "tc_isWriting c \<longleftrightarrow> contents (tc_outputBuffer c) \<noteq> []"
    and stream: "tc_sent c @ contents (tc_outputBuffer c) @ ds = tc_accepted c"
    and shut: "\<forall>a. tc_shutAt c = Some a \<longrightarrow> (\<exists>more. tc_sent c = a @ more)"
    and tasks: "\<forall>ds. SendTask ds \<in> set (tc_pending c) \<longrightarrow> length ds \<le> max_vec"
    and ds: "ds \<noteq> []" "length ds \<le> max_vec"
  shows "rpost {LengthError} (\<lambda>c'. conn_inv c' \<and> (shut_ok c \<longrightarrow> shut_ok c')
           \<and> tc_threadId c' = tc_threadId c \<and> tc_state c' = tc_state c)
     (rbind (append_raw ds (length ds) (tc_outputBuffer c)) (\<lambda>b.
        let c4 = c\<lparr>tc_outputBuffer := b\<rparr>
        in Inr (if \<not> tc_isWriting c4 then tc_mask EnableWriting c4 else c4)))"
proof (rule rpost_rbind)
  show "rpost {LengthError} (\<lambda>b'. buf_inv b' \<and> contents b' = contents (tc_outputBuffer c) @ ds)
      (append_raw ds (length ds) (tc_outputBuffer c))"
    using append_rpost[OF inv(1) ds(2)] by (simp add: append_raw_exact)
  fix b assume "buf_inv b \<and> contents b = contents (tc_outputBuffer c) @ ds"
  moreover define c' where "c' = (if \<not> tc_isWriting c then tc_mask EnableWriting (c\<lparr>tc_outputBuffer := b\<rparr>)
      else c\<lparr>tc_outputBuffer := b\<rparr>)"
  moreover have "tc_isWriting c'" by (simp add: c'_def)
  ultimately have "conn_inv c' \<and> (shut_ok c \<longrightarrow> shut_ok c') \<and> tc_threadId c' = tc_threadId c \<and> tc_state c' = tc_state c"
    using inv up stream shut tasks ds(1)
    by (auto simp: conn_inv_def out_ok_def stream_ok_def tasks_ok_def shut_ok_def)
  then show "rpost {LengthError} (\<lambda>c'. conn_inv c' \<and> (shut_ok c \<longrightarrow> shut_ok c')
           \<and> tc_threadId c' = tc_threadId c \<and> tc_state c' = tc_state c)
     (let c4 = c\<lparr>tc_outputBuffer := b\<rparr>
        in Inr (if \<not> tc_isWriting c4 then tc_mask EnableWriting c4 else c4))"
    by (simp add: c'_def Let_def)
qed

lemma sendInLoop_keeps:
  assumes inv: "conn_inv c" and st: "tc_state c \<noteq> kConnecting" and me: "me = tc_threadId c"
    and w: "write_ok env" and ds: "length data \<le> max_vec"
  shows "rpost {LengthError} (keeps c) (sendInLoop env me data c)"
proof (cases "tc_state c = kDisconnected")
  case True
  then show ?thesis
    using me keeps_refl[OF inv] by (simp add: sendInLoop_def tc_assertInLoopThread_def)
next
  case False
  then have nd: "tc_state c \<noteq> kDisconnected" .
  with st have up: "tc_state c \<in> {kConnected, kDisconnecting}" by (cases "tc_state c") auto
  have inv': "buf_inv (tc_outputBuffer c)" "buf_inv (tc_inputBuffer c)" "notices_ok c"
    "\<forall>ds. SendTask ds \<in> set (tc_pending c) \<longrightarrow> length ds \<le> max_vec"
    using inv by (simp_all add: conn_inv_def tasks_ok_def)
  have writing: "tc_isWriting c \<longleftrightarrow> contents (tc_outputBuffer c) \<noteq> []"
    using inv up by (simp add: conn_inv_def out_ok_def)
  have stream: "tc_sent c @ contents (tc_outputBuffer c) = tc_accepted c"
    "\<forall>a. tc_shutAt c = Some a \<longrightarrow> (\<exists>more. tc_sent c = a @ more)"
    using inv nd by (simp_all add: conn_inv_def stream_ok_def)
  text \<open>the part after the direct write, from any state that it may have left\<close>
  have rest: "rpost {LengthError} (keeps c)
      (let c2 = c1\<lparr>tc_accepted := tc_accepted c1 @ data\<rparr> in
        if 0 < remaining
        then let oldLen = readableBytes (tc_outputBuffer c2);
                 c3 = (if tc_highWaterMark c2 \<le> sz_add oldLen remaining \<and> oldLen < tc_highWaterMark c2
                          \<and> tc_hasHighWaterMark c2
                       then queueTask (HighWaterMarkTask (sz_add oldLen remaining)) c2 else c2)
             in rbind (append_raw (drop nwrote data) remaining (tc_outputBuffer c3)) (\<lambda>b.
                  let c4 = c3\<lparr>tc_outputBuffer := b\<rparr>
                  in Inr (if \<not> tc_isWriting c4 then tc_mask EnableWriting c4 else c4))
        else Inr c2)"
    if n: "nwrote \<le> length data" "remaining = length data - nwrote"
      and c1: "c1 = c\<lparr>tc_writes := wr, tc_sent := tc_sent c @ take nwrote data, tc_pending := tc_pending c @ ts\<rparr>"
      and ts: "set ts \<subseteq> {WriteCompleteTask}" and z: "0 < nwrote \<Longrightarrow> contents (tc_outputBuffer c) = []"
    for nwrote remaining c1 wr ts
  proof -
    let ?c2 = "c1\<lparr>tc_accepted := tc_accepted c1 @ data\<rparr>"
    have sent: "tc_sent c @ take nwrote data @ contents (tc_outputBuffer c) @ drop nwrote data = tc_accepted c @ data"
      using z stream(1) by (cases "nwrote = 0") auto
    show ?thesis
    proof (cases "0 < remaining")
      case False
      then have eq: "contents (tc_outputBuffer c) = [] \<or> data = []" "take nwrote data = data" using n z by auto
      have "keeps c ?c2"
        using inv' writing stream up sent eq c1 ts
        by (auto simp: keeps_def conn_inv_def out_ok_def stream_ok_def tasks_ok_def shut_ok_def)
      then show ?thesis using False by simp
    next
      case True
      let ?old = "readableBytes (tc_outputBuffer ?c2)"
      define c3 where "c3 = (if tc_highWaterMark ?c2 \<le> sz_add ?old remaining \<and> ?old < tc_highWaterMark ?c2
                          \<and> tc_hasHighWaterMark ?c2
                       then queueTask (HighWaterMarkTask (sz_add ?old remaining)) ?c2 else ?c2)"
      obtain us where us: "c3 = ?c2\<lparr>tc_pending := tc_pending ?c2 @ us\<rparr>" "\<forall>t \<in> set us. \<exists>n. t = HighWaterMarkTask n"
      proof (cases "c3 = ?c2")
        case True
        then show ?thesis by (intro that[of "[]"]) simp_all
      next
        case False
        then show ?thesis
          by (intro that[of "[HighWaterMarkTask (sz_add ?old remaining)]"])
             (auto simp: c3_def queueTask_def split: if_splits)
      qed
      have len: "length (drop nwrote data) = remaining" using n by simp
      have "rpost {LengthError} (\<lambda>c'. conn_inv c' \<and> (shut_ok c3 \<longrightarrow> shut_ok c')
           \<and> tc_threadId c' = tc_threadId c3 \<and> tc_state c' = tc_state c3)
         (rbind (append_raw (drop nwrote data) (length (drop nwrote data)) (tc_outputBuffer c3)) (\<lambda>b.
            let c4 = c3\<lparr>tc_outputBuffer := b\<rparr>
            in Inr (if \<not> tc_isWriting c4 then tc_mask EnableWriting c4 else c4)))"
        by (rule buffer_remaining)
           (use inv' writing stream up sent us c1 ts ds True len in \<open>auto simp: notices_ok_def\<close>)
      then show ?thesis
        using True unfolding len Let_def c3_def[unfolded Let_def, symmetric]
        by (auto elim!: rpost_mono simp: keeps_def us c1 shut_ok_def)
    qed
  qed
  show ?thesis
  proof (cases "\<not> tc_isWriting c \<and> readableBytes (tc_outputBuffer c) = 0")
    case False
    have "c = c\<lparr>tc_writes := tc_writes c, tc_sent := tc_sent c @ take 0 data, tc_pending := tc_pending c @ []\<rparr>"
      by simp
    note r = rest[OF _ _ this]
    have f: "(if \<not> tc_isWriting c \<and> readableBytes (tc_outputBuffer c) = 0
        then direct_write env data c else (0, length data, False, c)) = (0, length data, False, c)"
      using False by (rule if_not_P)
    have "tc_state c \<noteq> kDisconnected" using up by auto
    then show ?thesis
      unfolding sendInLoop_def f using me r by (simp add: tc_assertInLoopThread_def)
  next
    case True
    then have nil: "contents (tc_outputBuffer c) = []" using writing by simp
    show ?thesis
    proof (cases "env_write env (tc_writes c) data")
      case (Wrote n)
      then have le: "n \<le> length data" using w by (simp add: write_ok_def)
      then have rem: "sz_sub (length data) n = length data - n" using ds max_vec_lt by simp
      define ts where "ts = (if length data - n = 0 \<and> tc_hasWriteComplete c then [WriteCompleteTask] else [])"
      have d: "direct_write env data c = (n, length data - n, False,
          c\<lparr>tc_writes := Suc (tc_writes c), tc_sent := tc_sent c @ take n data, tc_pending := tc_pending c @ ts\<rparr>)"
        using Wrote rem by (simp add: direct_write_def ts_def queueTask_def Let_def)
      have "set ts \<subseteq> {WriteCompleteTask}" by (auto simp: ts_def)
      from rest[OF le refl refl this nil] show ?thesis
        using True me nd d by (simp add: sendInLoop_def tc_assertInLoopThread_def)
    next
      case (WriteErr e)
      define fault where "fault = (e \<noteq> EWOULDBLOCK \<and> (e = EPIPE \<or> e = ECONNRESET))"
      have d: "direct_write env data c = (0, length data, fault, c\<lparr>tc_writes := Suc (tc_writes c)\<rparr>)"
        using WriteErr by (simp add: direct_write_def fault_def Let_def)
      show ?thesis
      proof (cases fault)
        case f: True
        have "keeps c (c\<lparr>tc_writes := Suc (tc_writes c)\<rparr>)"
          using inv by (simp add: keeps_def conn_inv_def out_ok_def stream_ok_def tasks_ok_def shut_ok_def)
        then show ?thesis
          using True me nd d f by (simp add: sendInLoop_def tc_assertInLoopThread_def)
      next
        case f: False
        have "c\<lparr>tc_writes := Suc (tc_writes c)\<rparr>
          = c\<lparr>tc_writes := Suc (tc_writes c), tc_sent := tc_sent c @ take 0 data, tc_pending := tc_pending c @ []\<rparr>"
          by simp
        from rest[OF _ _ this] show ?thesis
          using True me nd d f by (simp add: sendInLoop_def tc_assertInLoopThread_def)
      qed
    qed
  qed
qed

section \<open>Calls of the user keep it\<close>

text \<open>
  Restrictions on calls: a message is an object in memory; only the loop's thread touches the
  input buffer; and reading is not started or stopped once the connection is down (see below for
  what happens otherwise).
\<close>

fun call_ok :: "int \<Rightarrow> conn_call \<Rightarrow> tcp_connection \<Rightarrow> bool" where
  "call_ok t (Send ds) c = (length ds \<le> max_vec)"
| "call_ok t SendInput c = (t = tc_threadId c)"
| "call_ok t (RetrieveInput n) c = (t = tc_threadId c)"
| "call_ok t StartRead c = (tc_state c \<noteq> kDisconnected)"
| "call_ok t StopRead c = (tc_state c \<noteq> kDisconnected)"
| "call_ok t call c = True"

text \<open>
  Scripts obey the restrictions, judged in the state in which the callback is entered, where the
  input buffer is well formed.
\<close>

definition scripts_ok :: "conn_env \<Rightarrow> bool" where
  "scripts_ok env \<longleftrightarrow> (\<forall>c n. buf_inv (tc_inputBuffer c) \<longrightarrow> (\<forall>call \<in> set (on_connection env c) \<union> set (on_message env c)
      \<union> set (on_writeComplete env c) \<union> set (on_highWaterMark env n c). call_ok (tc_threadId c) call c))"

lemma queueTask_keeps:
  assumes "conn_inv c" "tc_state c \<noteq> kConnecting" "\<forall>ds. t = SendTask ds \<longrightarrow> length ds \<le> max_vec"
  shows "keeps c (queueTask t c)"
  using assms by (auto simp: keeps_def queueTask_def conn_defs)

lemma shutdownInLoop_keeps:
  assumes "conn_inv c" "me = tc_threadId c" "tc_state c \<in> {kConnected, kDisconnecting}"
  obtains c' where "shutdownInLoop me c = Inr c'" "conn_inv c'" "shut_ok c'" "tc_state c' = tc_state c"
    "tc_threadId c' = tc_threadId c" "tc_pending c' = tc_pending c"
proof (cases "tc_isWriting c")
  case True
  then show ?thesis
    using assms by (intro that[of c]) (simp_all add: shutdownInLoop_def tc_assertInLoopThread_def shut_ok_def)
next
  case False
  then show ?thesis
    using assms by (intro that[of "shutdownWrite c"])
      (auto simp: shutdownInLoop_def tc_assertInLoopThread_def shutdownWrite_def conn_defs split: option.splits)
qed

lemma setDisconnecting_inv:
  assumes "conn_inv c" "tc_state c \<in> {kConnected, kDisconnecting}"
  shows "conn_inv (setState kDisconnecting c)"
  using assms by (auto simp: setState_def conn_defs)

lemma tc_shutdown_keeps:
  assumes inv: "conn_inv c"
  shows "rpost {} (keeps c) (tc_shutdown me c)"
proof (cases "tc_state c = kConnected")
  case True
  let ?c = "setState kDisconnecting c"
  have i: "conn_inv ?c" using inv True by (intro setDisconnecting_inv) simp_all
  show ?thesis
  proof (cases "me = tc_threadId c")
    case me: True
    obtain c' where "shutdownInLoop me ?c = Inr c'" "conn_inv c'" "shut_ok c'" "tc_state c' = tc_state ?c"
      "tc_threadId c' = tc_threadId ?c"
      by (rule shutdownInLoop_keeps[OF i]) (use me in \<open>auto simp: setState_def\<close>)
    then show ?thesis using True me by (simp add: tc_shutdown_def setState_def keeps_def)
  next
    case False
    have "keeps ?c (queueTask ShutdownTask ?c)"
      using i by (intro queueTask_keeps) (simp_all add: setState_def)
    then show ?thesis
      using True False by (auto simp: tc_shutdown_def setState_def keeps_def queueTask_def shut_ok_def)
  qed
qed (use inv in \<open>simp add: tc_shutdown_def keeps_refl\<close>)

lemma tc_forceClose_keeps:
  assumes inv: "conn_inv c"
  shows "keeps c (tc_forceClose c)" "shut_ok (tc_forceClose c) \<or> tc_state c \<notin> {kConnected, kDisconnecting}"
  using inv by (auto simp: tc_forceClose_def keeps_def queueTask_def setState_def conn_defs)

lemma tc_forceCloseWithDelay_keeps:
  assumes inv: "conn_inv c"
  shows "keeps c (tc_forceCloseWithDelay c)"
  using inv by (auto simp: tc_forceCloseWithDelay_def keeps_def setState_def conn_defs)

lemma read_switch_keeps:
  assumes inv: "conn_inv c" and st: "tc_state c \<in> {kConnected, kDisconnecting}" and me: "me = tc_threadId c"
  shows "rpost {} (keeps c) (startReadInLoop me c)" "rpost {} (keeps c) (stopReadInLoop me c)"
  using assms
  by (auto simp: startReadInLoop_def stopReadInLoop_def tc_assertInLoopThread_def keeps_def conn_inv_def
      out_ok_def stream_ok_def tasks_ok_def shut_ok_def)

lemma conn_up: "tc_state c \<noteq> kConnecting \<Longrightarrow> tc_state c \<noteq> kDisconnected \<Longrightarrow> tc_state c \<in> {kConnected, kDisconnecting}"
  by (cases "tc_state c") auto

lemma input_keeps:
  "conn_inv c \<Longrightarrow> buf_inv b \<Longrightarrow> keeps c (c\<lparr>tc_inputBuffer := b\<rparr>)"
  by (auto simp: keeps_def conn_defs)

lemma conn_exec_keeps:
  assumes inv: "conn_inv c" and st: "tc_state c \<noteq> kConnecting" and call: "call_ok t call c"
    and w: "write_ok env"
  shows "rpost {LengthError} (keeps c) (conn_exec env t call c)"
proof (cases call)
  case (Send ds)
  show ?thesis
  proof (cases "t = tc_threadId c")
    case True
    then show ?thesis
      using sendInLoop_keeps[OF inv st True w, of ds] call Send keeps_refl[OF inv]
      by (simp add: tc_send_def)
  next
    case False
    then show ?thesis
      using queueTask_keeps[OF inv st, of "SendTask ds"] call Send keeps_refl[OF inv] by (simp add: tc_send_def)
  qed
next
  case SendInput
  let ?b = "tc_inputBuffer c"
  have b: "buf_inv ?b" using inv by (simp add: conn_inv_def)
  have t: "t = tc_threadId c" using call SendInput by simp
  show ?thesis
  proof (cases "tc_state c = kConnected")
    case True
    have "rpost {LengthError} (keeps c) (rbind (sendInLoop env t (contents ?b) c)
        (\<lambda>c'. Inr (c'\<lparr>tc_inputBuffer := retrieveAll ?b\<rparr>)))"
    proof (rule keeps_rbind[OF sendInLoop_keeps[OF inv st t w contents_small[OF b]]])
      fix c1 assume "keeps c c1"
      then show "rpost {LengthError} (keeps c1) (Inr (c1\<lparr>tc_inputBuffer := retrieveAll ?b\<rparr>))"
        using b by (simp add: input_keeps keeps_def[of c])
    qed
    moreover have "conn_exec env t SendInput c = rbind (sendInLoop env t (contents ?b) c)
        (\<lambda>c'. Inr (c'\<lparr>tc_inputBuffer := retrieveAll ?b\<rparr>))"
      using True t by (simp add: tc_send_buffer_def contents_peek[OF b] rbind_assoc)
    ultimately show ?thesis using SendInput by simp
  next
    case False
    then show ?thesis using keeps_refl[OF inv] SendInput by (simp add: tc_send_buffer_def)
  qed
next
  case (RetrieveInput n)
  have b: "buf_inv (tc_inputBuffer c)" using inv by (simp add: conn_inv_def)
  then obtain b' where "retrieve (min n (readableBytes (tc_inputBuffer c))) (tc_inputBuffer c) = Inr b'" "buf_inv b'"
    by (rule retrieve_ok[where n = "min n (readableBytes (tc_inputBuffer c))"]) simp
  then show ?thesis using input_keeps[OF inv] RetrieveInput by simp
next
  case Shutdown
  then show ?thesis using tc_shutdown_keeps[OF inv] by (simp add: rpost_weaken)
next
  case ForceClose
  then show ?thesis using tc_forceClose_keeps(1)[OF inv] by simp
next
  case ForceCloseWithDelay
  then show ?thesis using tc_forceCloseWithDelay_keeps[OF inv] by simp
next
  case StartRead
  then have "tc_state c \<in> {kConnected, kDisconnecting}" using st call by (intro conn_up) simp_all
  then show ?thesis
    using read_switch_keeps(1)[OF inv] queueTask_keeps[OF inv st] StartRead
    by (cases "t = tc_threadId c") (simp_all add: run_in_loop_def rpost_weaken)
next
  case StopRead
  then have "tc_state c \<in> {kConnected, kDisconnecting}" using st call by (intro conn_up) simp_all
  then show ?thesis
    using read_switch_keeps(2)[OF inv] queueTask_keeps[OF inv st] StopRead
    by (cases "t = tc_threadId c") (simp_all add: run_in_loop_def rpost_weaken)
qed

lemma call_ok_keeps: "keeps c c' \<Longrightarrow> call_ok t call c \<Longrightarrow> call_ok t call c'"
  by (cases call) (auto simp: keeps_def)

lemma run_script_keeps:
  assumes inv: "conn_inv c" and st: "tc_state c \<noteq> kConnecting" and w: "write_ok env"
    and me: "me = tc_threadId c" and calls: "\<forall>call \<in> set (script c). call_ok me call c"
  shows "rpost {LengthError} (keeps c) (run_script env me script c)"
  unfolding run_script_def
proof (rule rpost_rfold)
  show "keeps c c" using inv by (rule keeps_refl)
  fix call s assume call: "call \<in> set (script c)" and k: "keeps c s"
  have "tc_state s \<noteq> kConnecting" "conn_inv s" using k st by (auto simp: keeps_def)
  moreover have "call_ok me call s" using call_ok_keeps[OF k] calls call by blast
  ultimately have "rpost {LengthError} (keeps s) (conn_exec env me call s)"
    using w by (intro conn_exec_keeps)
  then show "rpost {LengthError} (keeps c) (conn_exec env me call s)"
    by (rule rpost_mono) (rule keeps_trans[OF k])
qed

lemma scripts_okD:
  assumes "scripts_ok env" and "buf_inv (tc_inputBuffer c)"
  shows "\<forall>call \<in> set (on_connection env c). call_ok (tc_threadId c) call c"
    "\<forall>call \<in> set (on_message env c). call_ok (tc_threadId c) call c"
    "\<forall>call \<in> set (on_writeComplete env c). call_ok (tc_threadId c) call c"
    "\<forall>call \<in> set (on_highWaterMark env n c). call_ok (tc_threadId c) call c"
  using assms unfolding scripts_ok_def by blast+

section \<open>Handlers keep it\<close>

text \<open>The outcome of an event: the connection is established, and waits for what it has to.\<close>

definition goes :: "tcp_connection \<Rightarrow> bool" where
  "goes c \<longleftrightarrow> conn_inv c \<and> shut_ok c \<and> tc_state c \<noteq> kConnecting"

lemma keeps_goes: "goes c \<Longrightarrow> keeps c c' \<Longrightarrow> goes c'"
  by (auto simp: goes_def keeps_def)

lemma rpost_goes:
  "goes c \<Longrightarrow> rpost E (keeps c) r \<Longrightarrow> rpost E (\<lambda>c'. goes c' \<and> tc_threadId c' = tc_threadId c) r"
  by (erule rpost_mono) (auto simp: keeps_def intro: keeps_goes)

lemma handleWrite_keeps:
  assumes inv: "conn_inv c" and st: "tc_state c \<noteq> kConnecting" and me: "me = tc_threadId c"
    and w: "write_ok env"
  shows "rpost {} (keeps c) (handleWrite env me c)"
proof (cases "tc_isWriting c")
  case False
  then show ?thesis using me keeps_refl[OF inv] by (simp add: handleWrite_def tc_assertInLoopThread_def)
next
  case True
  let ?b = "tc_outputBuffer c"
  have b: "buf_inv ?b" using inv by (simp add: conn_inv_def)
  have up: "tc_state c \<in> {kConnected, kDisconnecting}"
    using inv True isNone_not_writing[of c] by (auto simp: conn_inv_def out_ok_def split: if_splits)
  let ?c1 = "c\<lparr>tc_writes := Suc (tc_writes c)\<rparr>"
  have k1: "keeps c ?c1"
    using inv by (simp add: keeps_def conn_inv_def out_ok_def stream_ok_def tasks_ok_def shut_ok_def)
  show ?thesis
  proof (cases "env_write env (tc_writes c) (contents ?b)")
    case (WriteErr e)
    then show ?thesis
      using True me k1 by (simp add: handleWrite_def tc_assertInLoopThread_def contents_peek[OF b] Let_def)
  next
    case (Wrote n)
    have le: "n \<le> length (contents ?b)" using Wrote w by (simp add: write_ok_def)
    show ?thesis
    proof (cases "0 < n")
      case False
      then show ?thesis
        using True me k1 Wrote by (simp add: handleWrite_def tc_assertInLoopThread_def contents_peek[OF b] Let_def)
    next
      case pos: True
      from le b have "n \<le> readableBytes ?b" by simp
      with b obtain b' where b': "retrieve n ?b = Inr b'" "buf_inv b'" "contents b' = drop n (contents ?b)"
        by (rule retrieve_ok)
      let ?c2 = "?c1\<lparr>tc_outputBuffer := b', tc_sent := tc_sent c @ take n (contents ?b)\<rparr>"
      have stream: "stream_ok ?c2"
        using inv b'(3) by (auto simp: conn_inv_def stream_ok_def)
      show ?thesis
      proof (cases "readableBytes b' = 0")
        case False
        then have "contents b' \<noteq> []" using b'(2) by (simp add: readable_nil)
        then have "keeps c ?c2"
          using inv up True b'(2) stream
          by (auto simp: keeps_def conn_inv_def out_ok_def tasks_ok_def shut_ok_def)
        then show ?thesis
          using True False me pos Wrote b'(1)
          by (simp add: handleWrite_def tc_assertInLoopThread_def contents_peek[OF b] Let_def)
      next
        case drained: True
        then have nil: "contents b' = []" using b'(2) by (simp add: readable_nil)
        define c4 where "c4 = (if tc_hasWriteComplete c then queueTask WriteCompleteTask (tc_mask DisableWriting ?c2)
            else tc_mask DisableWriting ?c2)"
        have eq: "handleWrite env me c = (if tc_state c4 = kDisconnecting then shutdownInLoop me c4 else Inr c4)"
          using True drained me pos Wrote b'(1)
          by (simp add: handleWrite_def tc_assertInLoopThread_def contents_peek[OF b] Let_def c4_def)
        have c4: "conn_inv c4" "tc_state c4 = tc_state c" "tc_threadId c4 = tc_threadId c"
          using inv up b'(2) stream nil
          by (auto simp: c4_def queueTask_def conn_inv_def out_ok_def tasks_ok_def stream_ok_def)
        show ?thesis
        proof (cases "tc_state c4 = kDisconnecting")
          case True
          obtain c' where "shutdownInLoop me c4 = Inr c'" "conn_inv c'" "shut_ok c'" "tc_state c' = tc_state c4"
            "tc_threadId c' = tc_threadId c4"
            by (rule shutdownInLoop_keeps[OF c4(1)]) (use me c4 True in auto)
          then show ?thesis using eq True c4 by (simp add: keeps_def)
        next
          case False
          then show ?thesis using eq c4 by (simp add: keeps_def shut_ok_def)
        qed
      qed
    qed
  qed
qed

lemma go_down:
  assumes inv: "conn_inv c" and up: "tc_state c \<in> {kConnected, kDisconnecting}"
    and w: "write_ok env" and sc: "scripts_ok env" and me: "me = tc_threadId c"
  shows "rpost {LengthError} (\<lambda>c'. conn_inv c' \<and> tc_state c' = kDisconnected \<and> tc_threadId c' = tc_threadId c)
     (run_script env me (on_connection env) (notify Down (tc_mask DisableAll (setState kDisconnected c))))"
proof -
  let ?c = "notify Down (tc_mask DisableAll (setState kDisconnected c))"
  have f: "tc_state ?c = kDisconnected" "tc_threadId ?c = tc_threadId c"
    by (simp_all add: notify_def setState_def)
  have "isNoneEvent (tc_channel ?c)" by (simp add: notify_def tc_mask_def setState_def)
  then have i: "conn_inv ?c"
    using inv up by (auto simp: notify_def setState_def conn_inv_def out_ok_def stream_ok_def tasks_ok_def
        notices_ok_def)
  have "rpost {LengthError} (keeps ?c) (run_script env me (on_connection env) ?c)"
    using i f w me scripts_okD(1)[OF sc, of ?c] by (intro run_script_keeps) (simp_all add: conn_inv_def)
  then show ?thesis by (rule rpost_mono) (use f in \<open>auto simp: keeps_def\<close>)
qed

lemma handleClose_goes:
  assumes inv: "conn_inv c" and up: "tc_state c \<in> {kConnected, kDisconnecting}"
    and w: "write_ok env" and sc: "scripts_ok env" and me: "me = tc_threadId c"
  shows "rpost {LengthError} (\<lambda>c'. goes c' \<and> tc_state c' = kDisconnected \<and> tc_threadId c' = tc_threadId c)
     (handleClose env me c)"
proof -
  have eq: "handleClose env me c = rbind (run_script env me (on_connection env)
      (notify Down (tc_mask DisableAll (setState kDisconnected c)))) (\<lambda>c2. Inr (notify Closed c2))"
    using up me by (auto simp: handleClose_def tc_assertInLoopThread_def)
  show ?thesis
    unfolding eq
  proof (rule rpost_rbind[OF go_down[OF assms]])
    fix c2 assume "conn_inv c2 \<and> tc_state c2 = kDisconnected \<and> tc_threadId c2 = tc_threadId c"
    then show "rpost {LengthError} (\<lambda>c'. goes c' \<and> tc_state c' = kDisconnected \<and> tc_threadId c' = tc_threadId c)
        (Inr (notify Closed c2))"
      by (auto simp: goes_def notify_def conn_inv_def out_ok_def stream_ok_def tasks_ok_def notices_ok_def
          shut_ok_def tc_isWriting_def)
  qed
qed

lemma notify_keeps:
  "conn_inv c \<Longrightarrow> n \<noteq> Up \<Longrightarrow> n \<noteq> Down \<Longrightarrow> keeps c (notify n c)"
  by (auto simp: keeps_def notify_def conn_inv_def out_ok_def stream_ok_def tasks_ok_def notices_ok_def shut_ok_def
      tc_isWriting_def)

lemma script_after_notice:
  assumes inv: "goes c" and w: "write_ok env" and me: "me = tc_threadId c" and n: "n \<noteq> Up" "n \<noteq> Down"
    and calls: "\<forall>call \<in> set (script (notify n c)). call_ok me call (notify n c)"
  shows "rpost {LengthError} (\<lambda>c'. goes c' \<and> tc_threadId c' = tc_threadId c) (run_script env me script (notify n c))"
proof -
  have k: "keeps c (notify n c)" using inv n by (intro notify_keeps) (simp_all add: goes_def)
  then have g: "goes (notify n c)" using keeps_goes[OF inv] by blast
  have "rpost {LengthError} (keeps (notify n c)) (run_script env me script (notify n c))"
    using g w me calls by (intro run_script_keeps) (simp_all add: goes_def notify_def)
  from rpost_goes[OF g this] show ?thesis by (simp add: notify_def)
qed

lemma tc_handleRead_goes:
  assumes inv: "goes c" and up: "tc_state c \<in> {kConnected, kDisconnecting}"
    and w: "write_ok env" and sc: "scripts_ok env" and me: "me = tc_threadId c"
    and r: "readv_ok (readFd_iov (tc_inputBuffer c)) r"
  shows "rpost {LengthError} (\<lambda>c'. goes c' \<and> tc_threadId c' = tc_threadId c) (tc_handleRead env me r c)"
proof (cases r)
  case (ReadErr e)
  then show ?thesis using inv me
    by (simp add: tc_handleRead_def tc_assertInLoopThread_def handleError_def)
next
  case (ReadData ds)
  have b: "buf_inv (tc_inputBuffer c)" using inv by (simp add: goes_def conn_inv_def)
  have eq: "tc_handleRead env me r c = rbind (readFd r (tc_inputBuffer c)) (\<lambda>(n, savedErrno, b).
      let c1 = c\<lparr>tc_inputBuffer := b\<rparr> in
      if 0 < n then run_script env me (on_message env) (notify Message c1)
      else if n = 0 then handleClose env me c1
      else handleError c1)"
    unfolding tc_handleRead_def tc_assertInLoopThread_def if_P[OF me] rbind_Inr ..
  show ?thesis
    unfolding eq
  proof (rule rpost_rbind[OF readFd_rpost[OF b r[unfolded ReadData], folded ReadData]], clarify)
    fix b' assume b': "buf_inv b'"
    let ?c1 = "c\<lparr>tc_inputBuffer := b'\<rparr>"
    have k: "keeps c ?c1" using input_keeps[OF _ b'] inv by (simp add: goes_def)
    then have g: "goes ?c1" by (rule keeps_goes[OF inv])
    have m: "rpost {LengthError} (\<lambda>c'. goes c' \<and> tc_threadId c' = tc_threadId ?c1)
        (run_script env me (on_message env) (notify Message ?c1))"
      using g b' w me scripts_okD(2)[OF sc, of "notify Message ?c1"]
      by (intro script_after_notice) (simp_all add: notify_def)
    have "conn_inv ?c1" "tc_state ?c1 \<in> {kConnected, kDisconnecting}" "me = tc_threadId ?c1"
      using g up me by (simp_all add: goes_def)
    from handleClose_goes[OF this(1,2) w sc this(3)]
    have "rpost {LengthError} (\<lambda>c'. goes c' \<and> tc_threadId c' = tc_threadId ?c1) (handleClose env me ?c1)"
      by (rule rpost_mono) simp
    with m show "rpost {LengthError} (\<lambda>c'. goes c' \<and> tc_threadId c' = tc_threadId c)
        (let c1 = ?c1 in if 0 < int (length ds) then run_script env me (on_message env) (notify Message c1)
         else if int (length ds) = 0 then handleClose env me c1 else handleError c1)"
      by (simp add: Let_def)
  qed
qed

section \<open>Events keep it\<close>

lemma establish_goes:
  assumes inv: "conn_inv c" and st: "tc_state c = kConnecting" and w: "write_ok env" and sc: "scripts_ok env"
  shows "rpost {LengthError} goes (connectEstablished env (tc_threadId c) self c)"
proof -
  let ?c2 = "(setState kConnected c)\<lparr>tc_channel := ch_tie_to self (tc_channel c)\<rparr>"
  let ?c = "notify Up (tc_mask EnableReading ?c2)"
  have none: "isNoneEvent (tc_channel c)" using inv st by (simp add: conn_inv_def out_ok_def)
  have "isWriting (ch_tie_to self (tc_channel c)) = isWriting (tc_channel c)"
    by (simp add: ch_tie_to_def isWriting_def)
  then have "\<not> tc_isWriting ?c"
    using isNone_not_writing[OF none] by (simp add: notify_def tc_isWriting_def tc_mask_def)
  then have i: "goes ?c"
    using inv st by (auto simp: goes_def notify_def setState_def conn_inv_def out_ok_def stream_ok_def
        tasks_ok_def notices_ok_def shut_ok_def)
  have "rpost {LengthError} (keeps ?c) (run_script env (tc_threadId c) (on_connection env) ?c)"
    using i inv w scripts_okD(1)[OF sc, of ?c]
    by (intro run_script_keeps) (simp_all add: goes_def notify_def setState_def conn_inv_def)
  from rpost_goes[OF i this] have "rpost {LengthError} goes (run_script env (tc_threadId c) (on_connection env) ?c)"
    by (rule rpost_mono) simp
  then show ?thesis
    using st by (simp add: connectEstablished_def tc_assertInLoopThread_def setState_def)
qed

lemma destroy_goes:
  assumes inv: "goes c" and st: "tc_state c \<in> {kConnected, kDisconnected}" and w: "write_ok env"
    and sc: "scripts_ok env"
  shows "rpost {LengthError} goes (connectDestroyed env (tc_threadId c) c)"
proof -
  have ci: "conn_inv c" using inv by (simp add: goes_def)
  have "rpost {LengthError} (\<lambda>c'. conn_inv c' \<and> tc_state c' = kDisconnected)
      (if tc_state c = kConnected
       then run_script env (tc_threadId c) (on_connection env) (notify Down (tc_mask DisableAll (setState kDisconnected c)))
       else Inr c)"
  proof (cases "tc_state c = kConnected")
    case True
    then have "rpost {LengthError} (\<lambda>c'. conn_inv c' \<and> tc_state c' = kDisconnected \<and> tc_threadId c' = tc_threadId c)
        (run_script env (tc_threadId c) (on_connection env) (notify Down (tc_mask DisableAll (setState kDisconnected c))))"
      using ci w sc by (intro go_down) simp_all
    then show ?thesis using True by (auto elim!: rpost_mono)
  next
    case False
    then show ?thesis using st ci by simp
  qed
  moreover have "connectDestroyed env (tc_threadId c) c = rbind
      (if tc_state c = kConnected
       then run_script env (tc_threadId c) (on_connection env) (notify Down (tc_mask DisableAll (setState kDisconnected c)))
       else Inr c)
      (\<lambda>c'. if \<not> isNoneEvent (tc_channel c') then Inl AssertFail
            else Inr (c'\<lparr>tc_channel := (tc_channel c')\<lparr>ch_addedToLoop := False\<rparr>\<rparr>))"
    by (simp add: connectDestroyed_def tc_assertInLoopThread_def)
  ultimately show ?thesis
  proof (elim ssubst, elim rpost_rbind)
    fix c' assume c': "conn_inv c' \<and> tc_state c' = kDisconnected"
    then have "isNoneEvent (tc_channel c')" by (simp add: conn_inv_def out_ok_def)
    with c' show "rpost {LengthError} goes
       (if \<not> isNoneEvent (tc_channel c') then Inl AssertFail
        else Inr (c'\<lparr>tc_channel := (tc_channel c')\<lparr>ch_addedToLoop := False\<rparr>\<rparr>))"
      by (auto simp: goes_def conn_inv_def out_ok_def stream_ok_def tasks_ok_def notices_ok_def shut_ok_def
          isNoneEvent_def)
  qed
qed

lemma run_task_goes:
  assumes inv: "goes c" and p: "tc_pending c = t # ts" and w: "write_ok env" and sc: "scripts_ok env"
    and legal: "t \<in> {StartReadTask, StopReadTask} \<Longrightarrow> tc_state c \<noteq> kDisconnected"
  shows "rpost {LengthError} goes (run_task env (tc_threadId c) t (c\<lparr>tc_pending := ts\<rparr>))"
proof -
  let ?c = "c\<lparr>tc_pending := ts\<rparr>" and ?me = "tc_threadId c"
  have ci: "conn_inv ?c" using inv p by (auto simp: goes_def conn_inv_def out_ok_def stream_ok_def tasks_ok_def)
  have b: "buf_inv (tc_inputBuffer ?c)" using ci by (simp add: conn_inv_def)
  have st: "tc_state ?c \<noteq> kConnecting" using inv by (simp add: goes_def)
  have g: "goes ?c" if "t \<noteq> ShutdownTask" "t \<noteq> ForceCloseTask"
    using that inv p ci st by (auto simp: goes_def shut_ok_def)
  have up: "tc_state ?c \<in> {kConnected, kDisconnecting}" if "tc_state c \<noteq> kDisconnected"
    using st that by (intro conn_up) simp_all
  have drop: "rpost {LengthError} goes r"
    if "rpost {LengthError} (\<lambda>c'. goes c' \<and> tc_threadId c' = tc_threadId ?c) r" for r
    using that by (rule rpost_mono) simp
  show ?thesis
  proof (cases t)
    case (SendTask ds)
    have "length ds \<le> max_vec" using inv p SendTask by (auto simp: goes_def conn_inv_def tasks_ok_def)
    then have "rpost {LengthError} (keeps ?c) (sendInLoop env ?me ds ?c)"
      using ci st w by (intro sendInLoop_keeps) simp_all
    then show ?thesis using drop[OF rpost_goes[OF g]] SendTask by simp
  next
    case ShutdownTask
    show ?thesis
    proof (cases "tc_state c = kDisconnected")
      case True
      then show ?thesis
        using ci ShutdownTask isNone_not_writing[of ?c]
        by (auto simp: shutdownInLoop_def tc_assertInLoopThread_def shutdownWrite_def goes_def conn_defs
            split: option.splits)
    next
      case False
      obtain c' where "shutdownInLoop ?me ?c = Inr c'" "conn_inv c'" "shut_ok c'" "tc_state c' = tc_state ?c"
        by (rule shutdownInLoop_keeps[OF ci _ up[OF False], of ?me]) auto
      then show ?thesis using ShutdownTask st by (simp add: goes_def)
    qed
  next
    case ForceCloseTask
    show ?thesis
    proof (cases "tc_state c = kDisconnected")
      case True
      then have "goes ?c" using ci st by (simp add: goes_def shut_ok_def)
      then show ?thesis using True ForceCloseTask by (simp add: forceCloseInLoop_def tc_assertInLoopThread_def)
    next
      case False
      have "rpost {LengthError} goes (handleClose env ?me ?c)"
        using handleClose_goes[OF ci up[OF False] w sc, of ?me] by (auto elim: rpost_mono)
      then show ?thesis
        using up[OF False] ForceCloseTask by (auto simp: forceCloseInLoop_def tc_assertInLoopThread_def)
    qed
  next
    case StartReadTask
    then have "rpost {} (keeps ?c) (startReadInLoop ?me ?c)"
      using legal up ci by (intro read_switch_keeps) simp_all
    then show ?thesis using drop[OF rpost_goes[OF g rpost_weaken]] StartReadTask by simp
  next
    case StopReadTask
    then have "rpost {} (keeps ?c) (stopReadInLoop ?me ?c)"
      using legal up ci by (intro read_switch_keeps) simp_all
    then show ?thesis using drop[OF rpost_goes[OF g rpost_weaken]] StopReadTask by simp
  next
    case WriteCompleteTask
    then have "rpost {LengthError} (\<lambda>c'. goes c' \<and> tc_threadId c' = tc_threadId ?c)
        (run_script env ?me (on_writeComplete env) (notify WriteCompleted ?c))"
      using g b w scripts_okD(3)[OF sc, of "notify WriteCompleted ?c"]
      by (intro script_after_notice) (simp_all add: notify_def)
    then show ?thesis using drop WriteCompleteTask by simp
  next
    case (HighWaterMarkTask n)
    then have "rpost {LengthError} (\<lambda>c'. goes c' \<and> tc_threadId c' = tc_threadId ?c)
        (run_script env ?me (on_highWaterMark env n) (notify (HighWater n) ?c))"
      using g b w scripts_okD(4)[OF sc, where n = n and c = "notify (HighWater n) ?c"]
      by (intro script_after_notice) (simp_all add: notify_def)
    then show ?thesis using drop HighWaterMarkTask by simp
  qed
qed

text \<open>
  One event of the channel. A hang-up without readable data is never reported together with
  urgent data or a half-closed peer: \<open>POLLRDHUP\<close> is not asked for, and the kernel marks a socket
  whose peer has closed as readable.
\<close>

definition revents_ok :: "32 word \<Rightarrow> bool" where
  "revents_ok revt \<longleftrightarrow> \<not> (OnClose \<in> set (dispatch revt) \<and> OnRead \<in> set (dispatch revt))"

lemma dispatch_cases:
  "dispatch revt = (if OnClose \<in> set (dispatch revt) then [OnClose] else [])
     @ (if OnError \<in> set (dispatch revt) then [OnError] else [])
     @ (if OnRead \<in> set (dispatch revt) then [OnRead] else [])
     @ (if OnWrite \<in> set (dispatch revt) then [OnWrite] else [])"
  by (simp add: dispatch_def)

lemma ready_goes:
  assumes inv: "goes c" and up: "tc_state c \<in> {kConnected, kDisconnecting}"
    and w: "write_ok env" and sc: "scripts_ok env"
    and r: "readv_ok (readFd_iov (tc_inputBuffer c)) r" and rev: "revents_ok revt"
  shows "rpost {LengthError} goes (rfold (conn_handler env (tc_threadId c) r) (dispatch revt) c)"
proof -
  let ?me = "tc_threadId c" and ?H = "conn_handler env (tc_threadId c) r"
  let ?has = "\<lambda>h. h \<in> set (dispatch revt)"
  define P where "P c' \<longleftrightarrow> goes c' \<and> tc_threadId c' = ?me" for c'
  have P: "P c" using inv by (simp add: P_def)
  have wr: "rpost {LengthError} P (rfold ?H (if ?has OnWrite then [OnWrite] else []) c')" if "P c'" for c'
  proof -
    have "goes c'" "tc_state c' \<noteq> kConnecting" "conn_inv c'" "?me = tc_threadId c'"
      using that by (simp_all add: P_def goes_def)
    then have "rpost {LengthError} (\<lambda>c''. goes c'' \<and> tc_threadId c'' = tc_threadId c') (handleWrite env ?me c')"
      using rpost_goes[OF _ rpost_weaken[OF handleWrite_keeps]] w by blast
    then have "rpost {LengthError} P (handleWrite env ?me c')"
      by (rule rpost_mono) (use that in \<open>simp add: P_def\<close>)
    then show ?thesis using that by simp
  qed
  have er: "rfold ?H (if ?has OnError then [OnError] else []) c' = Inr c'" for c'
    by (simp add: handleError_def)
  have first: "rpost {LengthError} P (rbind (rfold ?H (if ?has OnClose then [OnClose] else []) c)
      (\<lambda>c'. rfold ?H (if ?has OnRead then [OnRead] else []) c'))"
  proof (cases "?has OnClose")
    case True
    then have nr: "\<not> ?has OnRead" using rev by (simp add: revents_ok_def)
    have "conn_inv c" using inv by (simp add: goes_def)
    then have "rpost {LengthError} P (handleClose env ?me c)"
      using handleClose_goes[OF _ up w sc, of ?me] by (auto simp: P_def elim: rpost_mono)
    then show ?thesis using True nr by simp
  next
    case False
    have "rpost {LengthError} P (tc_handleRead env ?me r c)"
      using tc_handleRead_goes[OF inv up w sc refl r] by (auto simp: P_def elim: rpost_mono)
    then show ?thesis using False P by simp
  qed
  have e: "rfold ?H ((if ?has OnError then [OnError] else []) @ (if ?has OnRead then [OnRead] else [])
        @ (if ?has OnWrite then [OnWrite] else []))
      = (\<lambda>c'. rbind (rfold ?H (if ?has OnRead then [OnRead] else []) c')
          (rfold ?H (if ?has OnWrite then [OnWrite] else [])))"
    by (rule ext) (simp only: rfold_append er rbind_Inr)
  have split: "rfold ?H (dispatch revt) c = rbind (rbind (rfold ?H (if ?has OnClose then [OnClose] else []) c)
      (\<lambda>c'. rfold ?H (if ?has OnRead then [OnRead] else []) c'))
      (\<lambda>c'. rfold ?H (if ?has OnWrite then [OnWrite] else []) c')"
    by (subst dispatch_cases, subst rfold_append, subst e, subst rbind_assoc) (rule refl)
  have "rpost {LengthError} P (rfold ?H (dispatch revt) c)"
    unfolding split by (rule rpost_rbind[OF first wr])
  then show ?thesis by (rule rpost_mono) (simp add: P_def)
qed

section \<open>Histories of a connection\<close>

text \<open>
  What the surroundings guarantee when an event arrives: a connection is established once; its
  channel reports only while it is watched; reading is not switched once the connection is down;
  and it is destroyed while it is up or after it went down.
\<close>

fun legal_event :: "tcp_connection \<Rightarrow> conn_event \<Rightarrow> bool" where
  "legal_event c Establish = (tc_state c = kConnecting)"
| "legal_event c (Ready revt r) = (\<not> isNoneEvent (tc_channel c) \<and> revents_ok revt
     \<and> readv_ok (readFd_iov (tc_inputBuffer c)) r)"
| "legal_event c (CallFrom t call) = (tc_state c \<noteq> kConnecting \<and> call_ok t call c)"
| "legal_event c RunTask = (case tc_pending c of [] \<Rightarrow> False
     | t # _ \<Rightarrow> t \<in> {StartReadTask, StopReadTask} \<longrightarrow> tc_state c \<noteq> kDisconnected)"
| "legal_event c DelayExpired = (0 < tc_timers c)"
| "legal_event c Destroy = (tc_state c \<in> {kConnected, kDisconnected})"

inductive conn_reach :: "conn_env \<Rightarrow> tcp_connection \<Rightarrow> bool" for env where
  init: "new_tcp_connection me loop name sockfd hasWC hasHWM = Inr c \<Longrightarrow> conn_reach env c"
| step: "conn_reach env c \<Longrightarrow> legal_event c ev \<Longrightarrow> conn_step env ev c = Inr c' \<Longrightarrow> conn_reach env c'"

inductive_cases conn_reachE: "conn_reach env c"

definition conn_good :: "tcp_connection \<Rightarrow> bool" where
  "conn_good c \<longleftrightarrow> conn_inv c \<and> shut_ok c \<and> (tc_state c = kConnecting \<longrightarrow> tc_timers c = 0)"

lemma conn_good_goes: "conn_good c \<Longrightarrow> tc_state c \<noteq> kConnecting \<Longrightarrow> goes c"
  by (simp add: conn_good_def goes_def)

lemma goes_conn_good: "goes c \<Longrightarrow> conn_good c"
  by (simp add: conn_good_def goes_def)

lemma new_connection_good:
  assumes "new_tcp_connection me loop name sockfd hasWC hasHWM = Inr c"
  shows "conn_good c"
proof -
  have k: "kInitialSize \<le> max_vec - kCheapPrepend"
    by (simp add: kInitialSize_def max_vec_def kCheapPrepend_def)
  obtain b where b: "newBuffer kInitialSize = Inr b" "buf_inv b" "contents b = []"
    using k by (rule newBuffer_ok)
  have c: "loop \<noteq> 0" using assms b by (auto simp: new_tcp_connection_def split: if_splits)
  show ?thesis
    using assms b c by (auto simp: new_tcp_connection_def conn_good_def conn_defs isNoneEvent_def new_channel_def
        kNoneEvent_def)
qed

lemma conn_step_good:
  assumes good: "conn_good c" and legal: "legal_event c ev" and w: "write_ok env" and sc: "scripts_ok env"
  shows "rpost {LengthError} conn_good (conn_step env ev c)"
proof -
  have inv: "conn_inv c" using good by (simp add: conn_good_def)
  have "rpost {LengthError} goes (conn_step env ev c)"
  proof (cases ev)
    case Establish
    then show ?thesis using establish_goes[OF inv _ w sc] legal by simp
  next
    case (Ready revt r)
    have "tc_state c \<in> {kConnected, kDisconnecting}"
      using inv legal Ready by (auto simp: conn_inv_def out_ok_def split: if_splits)
    moreover from this have "goes c" using good by (auto intro: conn_good_goes)
    ultimately show ?thesis using ready_goes[OF _ _ w sc] legal Ready by simp
  next
    case (CallFrom t call)
    then have st: "tc_state c \<noteq> kConnecting" using legal by simp
    have "rpost {LengthError} (keeps c) (conn_exec env t call c)"
      using legal CallFrom by (intro conn_exec_keeps[OF inv st _ w]) simp
    from rpost_goes[OF conn_good_goes[OF good st] this] show ?thesis
      using CallFrom by (auto elim: rpost_mono)
  next
    case RunTask
    then obtain t ts where p: "tc_pending c = t # ts" using legal by (auto split: list.splits)
    then have "tc_state c \<noteq> kConnecting" using inv by (auto simp: conn_inv_def tasks_ok_def)
    then have g: "goes c" using good by (intro conn_good_goes)
    have "t \<in> {StartReadTask, StopReadTask} \<longrightarrow> tc_state c \<noteq> kDisconnected"
      using legal RunTask p by simp
    then have "rpost {LengthError} goes (run_task env (tc_threadId c) t (c\<lparr>tc_pending := ts\<rparr>))"
      by (intro run_task_goes[OF g p w sc]) blast
    then show ?thesis using RunTask p by simp
  next
    case DelayExpired
    then have st: "tc_state c \<noteq> kConnecting" using legal good by (auto simp: conn_good_def)
    let ?c = "c\<lparr>tc_timers := tc_timers c - 1\<rparr>"
    have i: "conn_inv ?c" using inv by (simp add: conn_inv_def out_ok_def stream_ok_def tasks_ok_def)
    have "goes (tc_forceClose ?c)"
      using tc_forceClose_keeps[OF i] st conn_up[OF st]
      by (auto simp: goes_def keeps_def shut_ok_def)
    then show ?thesis using DelayExpired by simp
  next
    case Destroy
    then have "tc_state c \<noteq> kConnecting" using legal by auto
    then show ?thesis using destroy_goes[OF conn_good_goes[OF good] _ w sc] legal Destroy by simp
  qed
  then show ?thesis by (rule rpost_mono) (rule goes_conn_good)
qed

lemma conn_reach_good:
  assumes "conn_reach env c" and w: "write_ok env" and sc: "scripts_ok env"
  shows "conn_good c"
  using assms(1)
proof (induction rule: conn_reach.induct)
  case (init me loop name sockfd hasWC hasHWM c)
  then show ?case by (rule new_connection_good)
next
  case (step c ev c')
  show ?case using conn_step_good[OF step.IH step.hyps(2) w sc] step.hyps(3) by (rule rpost_InrD)
qed

end
