(* ===== verification/TcpServer.thy ===== *)
theory TcpServer
  imports TcpConnection LoopThreads Timestamp "HOL-Library.List_Lexorder" "HOL-Library.Char_ord" "HOL-Library.Multiset"
begin

text \<open>
  The acceptor and the server (src/zing/net/Acceptor.cpp, TcpServer.h and TcpServer.cpp): accepting,
  naming and registering connections, handing them to the loops of the pool, and taking them out
  again when they close. A connection is reduced to its state (TcpConnection.thy has the rest); the
  threads of the loops interleave, each running the functors queued in its loop in order
  (EventLoop.thy). A thread is named by its loop.
\<close>

section \<open>The acceptor\<close>

text \<open>
  \<open>ac_log\<close> records what is done with descriptors. \<open>accept\<close> yields a descriptor, or -1 and an
  \<open>errno\<close>; in the latter case \<open>idle1\<close> and \<open>idle2\<close> are the results of the second \<open>accept\<close> and of
  \<open>open\<close>.
\<close>

datatype fd_action = NewConnection int | CloseFd int

record acceptor =
  ac_loop :: ptr
  ac_listening :: bool
  ac_idleFd :: int
  ac_hasCallback :: bool
  ac_channel :: channel
  ac_log :: "fd_action list"

definition EMFILE :: int where "EMFILE = 24"

definition new_acceptor :: "ptr \<Rightarrow> int \<Rightarrow> int \<Rightarrow> acceptor result" where
  "new_acceptor loop acceptFd idleFd =
    (if \<not> 0 \<le> idleFd then Inl AssertFail
     else Inr \<lparr>ac_loop = loop, ac_listening = False, ac_idleFd = idleFd, ac_hasCallback = False,
       ac_channel = new_channel loop acceptFd, ac_log = []\<rparr>)"

definition ac_listen :: "ptr \<Rightarrow> acceptor \<Rightarrow> acceptor result" where
  "ac_listen me a =
    (if me \<noteq> ac_loop a then Inl Fatal
     else Inr (a\<lparr>ac_listening := True, ac_channel := ch_mask EnableReading (ac_channel a)\<rparr>))"

definition ac_handleRead :: "ptr \<Rightarrow> int \<Rightarrow> int \<Rightarrow> int \<Rightarrow> int \<Rightarrow> acceptor \<Rightarrow> acceptor result" where
  "ac_handleRead me connfd err idle1 idle2 a =
    (if me \<noteq> ac_loop a then Inl Fatal
     else if 0 < connfd
     then (if ac_hasCallback a then Inr (a\<lparr>ac_log := ac_log a @ [NewConnection connfd]\<rparr>)
           else Inr (a\<lparr>ac_log := ac_log a @ [CloseFd connfd]\<rparr>))
     else if err = EMFILE
     then Inr (a\<lparr>ac_log := ac_log a @ [CloseFd (ac_idleFd a), CloseFd idle1], ac_idleFd := idle2\<rparr>)
     else Inr a)"

definition destroy_acceptor :: "acceptor \<Rightarrow> acceptor" where
  "destroy_acceptor a = a\<lparr>ac_channel := (ch_mask DisableAll (ac_channel a))\<lparr>ch_addedToLoop := False\<rparr>,
     ac_log := ac_log a @ [CloseFd (ac_idleFd a)]\<rparr>"

section \<open>State of the server\<close>

record server_conn =
  sc_name :: string
  sc_fd :: int
  sc_loop :: ptr
  sc_state :: conn_state
  sc_destroyed :: bool

text \<open>Functors in the loops' queues: \<open>connectEstablished\<close>, \<open>removeConnectionInLoop\<close>, \<open>connectDestroyed\<close>.\<close>

datatype server_task = EstablishTask ptr | RemoveTask ptr | DestroyTask ptr

text \<open>
  \<open>ts_heap\<close> holds the connection objects, \<open>ts_queues\<close> the queues of the loops; \<open>ts_alive\<close> is false once
  the server has been destroyed. \<open>ts_connections\<close> is a \<open>std::map\<close>, an association list in the order of
  its keys.
\<close>

record tcp_server =
  ts_loop :: ptr
  ts_ipPort :: string
  ts_name :: string
  ts_acceptor :: acceptor
  ts_pool :: loop_pool
  ts_started :: "32 word"
  ts_nextConnId :: int
  ts_connections :: "(string \<times> ptr) list"
  ts_heap :: "ptr \<Rightarrow> server_conn option"
  ts_queues :: "ptr \<Rightarrow> server_task list"
  ts_alive :: bool

definition map_put :: "'k::linorder \<Rightarrow> 'v \<Rightarrow> ('k \<times> 'v) list \<Rightarrow> ('k \<times> 'v) list" where
  "map_put k v m = insort_key fst (k, v) (filter (\<lambda>e. fst e \<noteq> k) m)"

definition map_erase :: "'k \<Rightarrow> ('k \<times> 'v) list \<Rightarrow> nat \<times> ('k \<times> 'v) list" where
  "map_erase k m = (length (filter (\<lambda>e. fst e = k) m), filter (\<lambda>e. fst e \<noteq> k) m)"

definition new_tcp_server :: "ptr \<Rightarrow> string \<Rightarrow> string \<Rightarrow> int \<Rightarrow> int \<Rightarrow> tcp_server result" where
  "new_tcp_server loop ipPort name acceptFd idleFd =
    (if loop = 0 then Inl Fatal
     else rbind (new_acceptor loop acceptFd idleFd) (\<lambda>a.
       Inr \<lparr>ts_loop = loop, ts_ipPort = ipPort, ts_name = name, ts_acceptor = a\<lparr>ac_hasCallback := True\<rparr>,
         ts_pool = new_loop_pool (int loop) loop name, ts_started = 0, ts_nextConnId = 1,
         ts_connections = [], ts_heap = (\<lambda>_. None), ts_queues = (\<lambda>_. []), ts_alive = True\<rparr>))"

definition ts_setThreadNum :: "int \<Rightarrow> tcp_server \<Rightarrow> tcp_server result" where
  "ts_setThreadNum n s = (if 0 \<le> n then Inr (s\<lparr>ts_pool := lp_setThreadNum n (ts_pool s)\<rparr>) else Inl AssertFail)"

definition ts_queue :: "ptr \<Rightarrow> server_task \<Rightarrow> tcp_server \<Rightarrow> tcp_server" where
  "ts_queue l t s = s\<lparr>ts_queues := (ts_queues s)(l := ts_queues s l @ [t])\<rparr>"

text \<open>\<open>runInLoop\<close>, called in the thread of the loop \<open>me\<close>.\<close>

definition ts_runInLoop ::
  "ptr \<Rightarrow> ptr \<Rightarrow> server_task \<Rightarrow> (tcp_server \<Rightarrow> tcp_server result) \<Rightarrow> tcp_server \<Rightarrow> tcp_server result" where
  "ts_runInLoop me l t f s = (if me = l then f s else Inr (ts_queue l t s))"

section \<open>What connections do\<close>

text \<open>The effect of \<open>connectEstablished\<close> and \<open>connectDestroyed\<close> on a connection's state.\<close>

definition sc_establish :: "ptr \<Rightarrow> tcp_server \<Rightarrow> tcp_server result" where
  "sc_establish p s =
    (case ts_heap s p of
       None \<Rightarrow> Inl Undefined
     | Some c \<Rightarrow> if sc_state c \<noteq> kConnecting then Inl AssertFail
                 else Inr (s\<lparr>ts_heap := (ts_heap s)(p \<mapsto> c\<lparr>sc_state := kConnected\<rparr>)\<rparr>))"

definition sc_destroy :: "ptr \<Rightarrow> tcp_server \<Rightarrow> tcp_server result" where
  "sc_destroy p s =
    (case ts_heap s p of
       None \<Rightarrow> Inl Undefined
     | Some c \<Rightarrow> if sc_destroyed c \<or> sc_state c \<notin> {kConnected, kDisconnected} then Inl AssertFail
                 else Inr (s\<lparr>ts_heap := (ts_heap s)(p \<mapsto> c\<lparr>sc_state := kDisconnected, sc_destroyed := True\<rparr>)\<rparr>))"

section \<open>Operations of the server\<close>

definition ts_start :: "ptr \<Rightarrow> bool \<Rightarrow> (nat \<Rightarrow> ptr) \<Rightarrow> tcp_server \<Rightarrow> tcp_server result" where
  "ts_start me cb addr s =
    (let (old, new) = at_getAndAdd (ts_started s) 1; s1 = s\<lparr>ts_started := new\<rparr>
     in if old = 0
        then rbind (lp_start (int me) cb addr (ts_pool s1)) (\<lambda>(ran, pool).
             let s2 = s1\<lparr>ts_pool := pool\<rparr>
             in if ac_listening (ts_acceptor s2) then Inl AssertFail
                else rbind (ac_listen me (ts_acceptor s2)) (\<lambda>a. Inr (s2\<lparr>ts_acceptor := a\<rparr>)))
        else Inr s1)"

definition conn_name :: "string \<Rightarrow> string \<Rightarrow> int \<Rightarrow> string" where
  "conn_name name ipPort connId = name @ snprintf_to 64 (''-'' @ ipPort @ ''#'' @ int_dec connId)"

text \<open>\<open>p\<close> is the address of the new connection; the counter is an \<open>int\<close>.\<close>

definition newConnection :: "ptr \<Rightarrow> int \<Rightarrow> ptr \<Rightarrow> tcp_server \<Rightarrow> tcp_server result" where
  "newConnection me sockfd p s =
    (if me \<noteq> ts_loop s then Inl Fatal
     else rbind (getNextLoop (int me) (ts_pool s)) (\<lambda>(ioLoop, pool).
       let connName = conn_name (ts_name s) (ts_ipPort s) (ts_nextConnId s)
       in if ts_nextConnId s = 2 ^ 31 - 1 then Inl Undefined
          else let s1 = s\<lparr>ts_pool := pool, ts_nextConnId := ts_nextConnId s + 1,
                 ts_heap := (ts_heap s)(p \<mapsto> \<lparr>sc_name = connName, sc_fd = sockfd, sc_loop = ioLoop,
                    sc_state = kConnecting, sc_destroyed = False\<rparr>),
                 ts_connections := map_put connName p (ts_connections s)\<rparr>
               in ts_runInLoop me ioLoop (EstablishTask p) (sc_establish p) s1))"

definition removeConnectionInLoop :: "ptr \<Rightarrow> ptr \<Rightarrow> tcp_server \<Rightarrow> tcp_server result" where
  "removeConnectionInLoop me p s =
    (if me \<noteq> ts_loop s then Inl Fatal
     else case ts_heap s p of
       None \<Rightarrow> Inl Undefined
     | Some c \<Rightarrow> let (n, conns) = map_erase (sc_name c) (ts_connections s)
                 in if n = 1 then Inr (ts_queue (sc_loop c) (DestroyTask p) (s\<lparr>ts_connections := conns\<rparr>))
                    else Inl AssertFail)"

text \<open>The close callback is bound to the server's address: once it is destroyed the call is undefined.\<close>

definition removeConnection :: "ptr \<Rightarrow> ptr \<Rightarrow> tcp_server \<Rightarrow> tcp_server result" where
  "removeConnection me p s =
    (if \<not> ts_alive s then Inl Undefined
     else ts_runInLoop me (ts_loop s) (RemoveTask p) (removeConnectionInLoop me p) s)"

definition sc_close :: "ptr \<Rightarrow> tcp_server \<Rightarrow> tcp_server result" where
  "sc_close p s =
    (case ts_heap s p of
       None \<Rightarrow> Inl Undefined
     | Some c \<Rightarrow> if sc_state c \<notin> {kConnected, kDisconnecting} then Inl AssertFail
                 else removeConnection (sc_loop c) p
                        (s\<lparr>ts_heap := (ts_heap s)(p \<mapsto> c\<lparr>sc_state := kDisconnected\<rparr>)\<rparr>))"

definition destroy_one :: "ptr \<Rightarrow> ptr \<Rightarrow> tcp_server \<Rightarrow> tcp_server result" where
  "destroy_one me p s =
    (case ts_heap s p of
       None \<Rightarrow> Inl Undefined
     | Some c \<Rightarrow> ts_runInLoop me (sc_loop c) (DestroyTask p) (sc_destroy p) s)"

definition destroy_tcp_server :: "ptr \<Rightarrow> tcp_server \<Rightarrow> tcp_server result" where
  "destroy_tcp_server me s =
    (if me \<noteq> ts_loop s then Inl Fatal
     else rbind (rfold (destroy_one me) (map snd (ts_connections s)) s) (\<lambda>s1.
       Inr (s1\<lparr>ts_alive := False, ts_connections := [], ts_acceptor := destroy_acceptor (ts_acceptor s1)\<rparr>)))"

section \<open>Histories\<close>

definition run_server_task :: "ptr \<Rightarrow> server_task \<Rightarrow> tcp_server \<Rightarrow> tcp_server result" where
  "run_server_task l t s =
    (case t of EstablishTask p \<Rightarrow> sc_establish p s
     | RemoveTask p \<Rightarrow> if \<not> ts_alive s then Inl Undefined else removeConnectionInLoop l p s
     | DestroyTask p \<Rightarrow> sc_destroy p s)"

text \<open>
  The owner sets the number of threads or starts the server; a connection is accepted; a loop runs
  the next functor of its queue; a user calls \<open>shutdown\<close>; a connection is closed by its loop.
\<close>

datatype server_event =
    SetThreads int | StartServer "nat \<Rightarrow> ptr" | Accept int ptr | RunNext ptr | UserShutdown ptr | PeerClose ptr

fun server_step :: "server_event \<Rightarrow> tcp_server \<Rightarrow> tcp_server result" where
  "server_step (SetThreads n) s = ts_setThreadNum n s"
| "server_step (StartServer addr) s = ts_start (ts_loop s) False addr s"
| "server_step (Accept fd p) s =
     rbind (ac_handleRead (ts_loop s) fd 0 0 0 (ts_acceptor s)) (\<lambda>a.
     newConnection (ts_loop s) fd p (s\<lparr>ts_acceptor := a\<rparr>))"
| "server_step (RunNext l) s =
     (case ts_queues s l of
        [] \<Rightarrow> Inr s
      | t # ts \<Rightarrow> run_server_task l t (s\<lparr>ts_queues := (ts_queues s)(l := ts)\<rparr>))"
| "server_step (UserShutdown p) s =
     (case ts_heap s p of
        None \<Rightarrow> Inl Undefined
      | Some c \<Rightarrow> Inr (if sc_state c = kConnected
                       then s\<lparr>ts_heap := (ts_heap s)(p \<mapsto> c\<lparr>sc_state := kDisconnecting\<rparr>)\<rparr> else s))"
| "server_step (PeerClose p) s = sc_close p s"

section \<open>The invariant\<close>

fun task_conn :: "server_task \<Rightarrow> ptr" where
  "task_conn (EstablishTask p) = p"
| "task_conn (RemoveTask p) = p"
| "task_conn (DestroyTask p) = p"

text \<open>
  What is still to be done for a connection, and by which loop: it is to be established; or it is
  up and nothing is to be done; or it went down and is to be taken out of the server's map; or
  it was taken out and is to be destroyed.
\<close>

definition owed :: "ptr \<Rightarrow> (ptr \<Rightarrow> server_conn option) \<Rightarrow> (string \<times> ptr) list \<Rightarrow> ptr \<Rightarrow> (ptr \<times> server_task) option" where
  "owed base h conns p =
    (case h p of None \<Rightarrow> None
     | Some c \<Rightarrow>
       if sc_state c = kConnecting then Some (sc_loop c, EstablishTask p)
       else if sc_state c \<noteq> kDisconnected then None
       else if (sc_name c, p) \<in> set conns then Some (base, RemoveTask p)
       else if sc_destroyed c then None else Some (sc_loop c, DestroyTask p))"

text \<open>The queues hold exactly what is owed, each task once.\<close>

definition tasks_inv :: "(ptr \<Rightarrow> server_task list) \<Rightarrow> (ptr \<Rightarrow> (ptr \<times> server_task) option) \<Rightarrow> bool" where
  "tasks_inv q ow \<longleftrightarrow> (\<forall>l t. count_list (q l) t = (if ow (task_conn t) = Some (l, t) then 1 else 0))"

lemma tasks_invD: "tasks_inv q ow \<Longrightarrow> count_list (q l) t = (if ow (task_conn t) = Some (l, t) then 1 else 0)"
  by (simp add: tasks_inv_def)

lemma tasks_pop:
  assumes "tasks_inv q ow" "q l = t # ts"
  shows "ow (task_conn t) = Some (l, t)" "tasks_inv (q(l := ts)) (ow(task_conn t := None))"
proof -
  have c: "count_list (q k) u = (if ow (task_conn u) = Some (k, u) then 1 else 0)" for k u
    using assms(1) by (rule tasks_invD)
  show o: "ow (task_conn t) = Some (l, t)" using c[of l t] assms(2) by (auto split: if_splits)
  show "tasks_inv (q(l := ts)) (ow(task_conn t := None))"
    unfolding tasks_inv_def
  proof (intro allI)
    fix k u
    show "count_list ((q(l := ts)) k) u = (if (ow(task_conn t := None)) (task_conn u) = Some (k, u) then 1 else 0)"
    proof (cases "task_conn u = task_conn t")
      case True
      then have "count_list (q k) u = (if k = l \<and> u = t then 1 else 0)" using c[of k u] o by auto
      then show ?thesis using True assms(2) by (cases "k = l"; cases "u = t") auto
    next
      case False
      then have "u \<noteq> t" by auto
      then show ?thesis using False c[of k u] assms(2) by (cases "k = l") auto
    qed
  qed
qed

lemma tasks_push:
  assumes "tasks_inv q ow" "ow (task_conn t) = None"
  shows "tasks_inv (q(l := q l @ [t])) (ow(task_conn t \<mapsto> (l, t)))"
  unfolding tasks_inv_def
proof (intro allI)
  fix k u
  show "count_list ((q(l := q l @ [t])) k) u
      = (if (ow(task_conn t \<mapsto> (l, t))) (task_conn u) = Some (k, u) then 1 else 0)"
  proof (cases "task_conn u = task_conn t")
    case True
    then have "count_list (q k) u = 0" using tasks_invD[OF assms(1), of k u] assms(2) by simp
    then show ?thesis using True by (cases "k = l"; cases "u = t") auto
  next
    case False
    then have "u \<noteq> t" by auto
    then show ?thesis using False tasks_invD[OF assms(1), of k u] by (cases "k = l") auto
  qed
qed

definition pool_ok :: "tcp_server \<Rightarrow> bool" where
  "pool_ok s \<longleftrightarrow> (lp_started (ts_pool s) \<longleftrightarrow> ts_started s \<noteq> 0) \<and> (ac_listening (ts_acceptor s) \<longleftrightarrow> ts_started s \<noteq> 0)
     \<and> lp_threadId (ts_pool s) = int (ts_loop s) \<and> ac_loop (ts_acceptor s) = ts_loop s \<and> ac_hasCallback (ts_acceptor s)
     \<and> (lp_loops (ts_pool s) \<noteq> [] \<longrightarrow> lp_next (ts_pool s) < length (lp_loops (ts_pool s)))
     \<and> (ts_started s = 0 \<longrightarrow> lp_loops (ts_pool s) = [] \<and> lp_next (ts_pool s) = 0)"

text \<open>The map holds the connections that are up, and some that are being removed.\<close>

definition conns_ok :: "(string \<times> ptr) list \<Rightarrow> (ptr \<Rightarrow> server_conn option) \<Rightarrow> bool" where
  "conns_ok conns h \<longleftrightarrow> distinct (map fst conns)
     \<and> (\<forall>n p. (n, p) \<in> set conns \<longrightarrow> (\<exists>c. h p = Some c \<and> sc_name c = n))
     \<and> (\<forall>p c. h p = Some c \<longrightarrow> (sc_state c \<noteq> kDisconnected \<longrightarrow> (sc_name c, p) \<in> set conns)
          \<and> (sc_destroyed c \<longrightarrow> sc_state c = kDisconnected \<and> (sc_name c, p) \<notin> set conns))"

text \<open>Names are made from the numbers already given out, and differ.\<close>

definition names_ok :: "string \<Rightarrow> string \<Rightarrow> int \<Rightarrow> (ptr \<Rightarrow> server_conn option) \<Rightarrow> bool" where
  "names_ok name ipPort nextId h \<longleftrightarrow> 0 < nextId \<and> nextId < 2 ^ 31 \<and> length ipPort \<le> 51
     \<and> (\<forall>p c. h p = Some c \<longrightarrow> (\<exists>i. 0 < i \<and> i < nextId \<and> sc_name c = conn_name name ipPort i))
     \<and> (\<forall>p c p' c'. h p = Some c \<longrightarrow> h p' = Some c' \<longrightarrow> sc_name c = sc_name c' \<longrightarrow> p = p')"

definition server_inv :: "tcp_server \<Rightarrow> bool" where
  "server_inv s \<longleftrightarrow> ts_alive s \<and> pool_ok s \<and> conns_ok (ts_connections s) (ts_heap s)
     \<and> names_ok (ts_name s) (ts_ipPort s) (ts_nextConnId s) (ts_heap s)
     \<and> tasks_inv (ts_queues s) (owed (ts_loop s) (ts_heap s) (ts_connections s))"

subsection \<open>Names\<close>

lemma conn_name_inject:
  assumes "length ipPort \<le> 51" "0 < i" "i < 2 ^ 31" "0 < j" "j < 2 ^ 31"
    "conn_name name ipPort i = conn_name name ipPort j"
  shows "i = j"
proof -
  have len: "length (int_dec k) \<le> 10" if "0 < k" "k < 2 ^ 31" for k :: int
  proof -
    have "nat k < 10 ^ 10" using that by simp
    then show ?thesis using that length_nat_dec_le[of "nat k" 10] by (simp add: int_dec_def)
  qed
  have "snprintf_to 64 (''-'' @ ipPort @ ''#'' @ int_dec k) = ''-'' @ ipPort @ ''#'' @ int_dec k"
    if "0 < k" "k < 2 ^ 31" for k
    using len[OF that] assms(1) by (simp add: snprintf_to_def)
  then show ?thesis using assms by (simp add: conn_name_def)
qed

lemma map_put_set: "set (map_put k v m) = insert (k, v) {e \<in> set m. fst e \<noteq> k}"
  by (auto simp: map_put_def set_insort_key)

lemma map_put_distinct:
  assumes "distinct (map fst m)" shows "distinct (map fst (map_put k v m))"
proof -
  have i: "mset (map fst (insort_key fst x ys)) = mset (fst x # map fst ys)" for x :: "'a \<times> 'b" and ys
    by (induction ys) auto
  have "distinct (map fst (filter (\<lambda>e. fst e \<noteq> k) m))" using assms by (simp add: distinct_map_filter)
  then have "distinct (k # map fst (filter (\<lambda>e. fst e \<noteq> k) m))" by auto
  then show ?thesis
    unfolding map_put_def using i[of "(k, v)" "filter (\<lambda>e. fst e \<noteq> k) m"]
    by (metis fst_conv mset_eq_imp_distinct_iff)
qed

lemma map_erase_one:
  assumes "distinct (map fst m)" "(k, v) \<in> set m"
  shows "fst (map_erase k m) = 1"
proof -
  have "filter (\<lambda>e. fst e = k) m = [(k, v)]"
    using assms
  proof (induction m)
    case (Cons e m)
    show ?case
    proof (cases "e = (k, v)")
      case True
      then have "filter (\<lambda>e. fst e = k) m = []"
        using Cons.prems(1) by (auto simp: filter_empty_conv image_iff)
      then show ?thesis using True by simp
    next
      case False
      then have "fst e \<noteq> k" using Cons.prems by (auto simp: image_iff)
      then show ?thesis using Cons False by auto
    qed
  qed simp
  then show ?thesis by (simp add: map_erase_def)
qed

subsection \<open>It is kept\<close>

lemma owed_frame:
  assumes "\<And>r. r \<noteq> p \<Longrightarrow> h' r = h r"
    and "\<And>r c. r \<noteq> p \<Longrightarrow> h r = Some c \<Longrightarrow> (sc_name c, r) \<in> set conns' \<longleftrightarrow> (sc_name c, r) \<in> set conns"
  shows "owed base h' conns' = (owed base h conns)(p := owed base h' conns' p)"
proof
  fix r
  show "owed base h' conns' r = ((owed base h conns)(p := owed base h' conns' p)) r"
    using assms[of r] by (cases "r = p"; cases "h r") (auto simp: owed_def)
qed

lemma names_ok_upd:
  assumes "names_ok n ip k h" "h p = Some c" "sc_name c' = sc_name c"
  shows "names_ok n ip k (h(p \<mapsto> c'))"
  using assms unfolding names_ok_def by (auto split: if_splits)

lemma conns_ok_upd:
  assumes "conns_ok conns h" "h p = Some c" "sc_name c' = sc_name c"
    "sc_state c' \<noteq> kDisconnected \<Longrightarrow> (sc_name c, p) \<in> set conns"
    "sc_destroyed c' \<Longrightarrow> sc_state c' = kDisconnected \<and> (sc_name c, p) \<notin> set conns"
  shows "conns_ok conns (h(p \<mapsto> c'))"
  unfolding conns_ok_def
proof (intro conjI allI impI)
  show "distinct (map fst conns)" using assms(1) by (simp add: conns_ok_def)
next
  fix n r assume "(n, r) \<in> set conns"
  then obtain d where "h r = Some d" "sc_name d = n" using assms(1) unfolding conns_ok_def by blast
  then show "\<exists>d. (h(p \<mapsto> c')) r = Some d \<and> sc_name d = n" using assms(2,3) by auto
next
  fix r d assume "(h(p \<mapsto> c')) r = Some d" "sc_state d \<noteq> kDisconnected"
  then show "(sc_name d, r) \<in> set conns"
    using assms(1,3,4) unfolding conns_ok_def by (cases "r = p") auto
next
  fix r d assume d: "(h(p \<mapsto> c')) r = Some d" "sc_destroyed d"
  show "sc_state d = kDisconnected" "(sc_name d, r) \<notin> set conns"
    using d assms(1,3,5) unfolding conns_ok_def by (cases "r = p"; auto)+
qed

lemma map_erase_set: "set (snd (map_erase k m)) = {e \<in> set m. fst e \<noteq> k}"
  by (auto simp: map_erase_def)

lemma conns_ok_erase:
  assumes ok: "conns_ok conns h" and n: "names_ok n ip k h" and p: "h p = Some c" "sc_state c = kDisconnected"
  shows "conns_ok (snd (map_erase (sc_name c) conns)) h"
  unfolding conns_ok_def
proof (intro conjI allI impI)
  show "distinct (map fst (snd (map_erase (sc_name c) conns)))"
    using ok by (simp add: conns_ok_def map_erase_def distinct_map_filter)
next
  fix m r assume "(m, r) \<in> set (snd (map_erase (sc_name c) conns))"
  then show "\<exists>c. h r = Some c \<and> sc_name c = m" using ok by (auto simp: conns_ok_def map_erase_set)
next
  fix r d assume d: "h r = Some d" "sc_state d \<noteq> kDisconnected"
  then have "sc_name d \<noteq> sc_name c" using n p unfolding names_ok_def by (metis option.inject)
  then show "(sc_name d, r) \<in> set (snd (map_erase (sc_name c) conns))"
    using ok d by (auto simp: conns_ok_def map_erase_set)
next
  fix r d assume d: "h r = Some d" "sc_destroyed d"
  then show "sc_state d = kDisconnected" "(sc_name d, r) \<notin> set (snd (map_erase (sc_name c) conns))"
    using ok by (auto simp: conns_ok_def map_erase_set)
qed

lemma erase_others:
  assumes "names_ok n ip k h" "h p = Some c" "r \<noteq> p" "h r = Some d"
  shows "(sc_name d, r) \<in> set (snd (map_erase (sc_name c) conns)) \<longleftrightarrow> (sc_name d, r) \<in> set conns"
proof -
  have "sc_name d \<noteq> sc_name c" using assms unfolding names_ok_def by blast
  then show ?thesis by (auto simp: map_erase_set)
qed

text \<open>The connection \<open>p\<close> is down, in the map, and nothing else is owed for it: it is taken out.\<close>

lemma remove_ok:
  assumes a: "ts_alive s" "pool_ok s" "conns_ok (ts_connections s) (ts_heap s)"
    "names_ok (ts_name s) (ts_ipPort s) (ts_nextConnId s) (ts_heap s)"
    and q: "tasks_inv (ts_queues s) ((owed (ts_loop s) (ts_heap s) (ts_connections s))(p := None))"
    and p: "ts_heap s p = Some c" "sc_state c = kDisconnected" "(sc_name c, p) \<in> set (ts_connections s)"
  shows "\<exists>s'. removeConnectionInLoop (ts_loop s) p s = Inr s' \<and> server_inv s'"
proof -
  let ?conns = "snd (map_erase (sc_name c) (ts_connections s))"
  let ?s = "ts_queue (sc_loop c) (DestroyTask p) (s\<lparr>ts_connections := ?conns\<rparr>)"
  have one: "fst (map_erase (sc_name c) (ts_connections s)) = 1"
    using a(3) p(3) by (intro map_erase_one) (auto simp: conns_ok_def)
  then have run: "removeConnectionInLoop (ts_loop s) p s = Inr ?s"
    using p(1) by (cases "map_erase (sc_name c) (ts_connections s)") (simp add: removeConnectionInLoop_def)
  have o: "owed (ts_loop s) (ts_heap s) ?conns p = Some (sc_loop c, DestroyTask p)"
    using p a(3) by (auto simp: owed_def map_erase_set conns_ok_def)
  have f: "owed (ts_loop s) (ts_heap s) ?conns
      = (owed (ts_loop s) (ts_heap s) (ts_connections s))(p \<mapsto> (sc_loop c, DestroyTask p))"
    unfolding o[symmetric] by (rule owed_frame) (simp_all add: erase_others[OF a(4) p(1)])
  have "tasks_inv (ts_queues ?s) (owed (ts_loop s) (ts_heap s) ?conns)"
    unfolding f using tasks_push[OF q, of "DestroyTask p" "sc_loop c"] by (simp add: ts_queue_def)
  then have "server_inv ?s"
    using a conns_ok_erase[OF a(3,4) p(1,2)] by (simp add: server_inv_def ts_queue_def pool_ok_def)
  then show ?thesis using run by blast
qed

lemma close_ok:
  assumes inv: "server_inv s" and p: "ts_heap s p = Some c" "sc_state c \<in> {kConnected, kDisconnecting}"
  shows "\<exists>s'. sc_close p s = Inr s' \<and> server_inv s'"
proof -
  let ?c = "c\<lparr>sc_state := kDisconnected\<rparr>"
  let ?h = "(ts_heap s)(p \<mapsto> ?c)"
  let ?s = "s\<lparr>ts_heap := ?h\<rparr>"
  have i: "ts_alive s" "pool_ok s" "conns_ok (ts_connections s) (ts_heap s)"
    "names_ok (ts_name s) (ts_ipPort s) (ts_nextConnId s) (ts_heap s)"
    "tasks_inv (ts_queues s) (owed (ts_loop s) (ts_heap s) (ts_connections s))"
    using inv by (simp_all add: server_inv_def)
  have m: "(sc_name c, p) \<in> set (ts_connections s)" "\<not> sc_destroyed c"
    using i(3) p by (auto simp: conns_ok_def)
  have c1: "conns_ok (ts_connections s) ?h"
    by (rule conns_ok_upd[OF i(3) p(1)]) (use m in simp_all)
  have n1: "names_ok (ts_name s) (ts_ipPort s) (ts_nextConnId s) ?h"
    by (rule names_ok_upd[OF i(4) p(1)]) simp
  have o: "owed (ts_loop s) ?h (ts_connections s) p = Some (ts_loop s, RemoveTask p)"
    using m by (simp add: owed_def)
  have f: "owed (ts_loop s) ?h (ts_connections s)
      = (owed (ts_loop s) (ts_heap s) (ts_connections s))(p \<mapsto> (ts_loop s, RemoveTask p))"
    unfolding o[symmetric] by (rule owed_frame) simp_all
  have none: "owed (ts_loop s) (ts_heap s) (ts_connections s) p = None"
    using p by (auto simp: owed_def)
  then have same: "(owed (ts_loop s) ?h (ts_connections s))(p := None) = owed (ts_loop s) (ts_heap s) (ts_connections s)"
    unfolding f by auto
  show ?thesis
  proof (cases "sc_loop c = ts_loop s")
    case True
    have "\<exists>s'. removeConnectionInLoop (ts_loop ?s) p ?s = Inr s' \<and> server_inv s'"
      by (rule remove_ok[where c = ?c]) (use i c1 n1 m same in \<open>simp_all add: pool_ok_def\<close>)
    then show ?thesis using p True i(1) by (auto simp: sc_close_def removeConnection_def ts_runInLoop_def)
  next
    case False
    let ?s' = "ts_queue (ts_loop s) (RemoveTask p) ?s"
    have "tasks_inv (ts_queues ?s') (owed (ts_loop s) ?h (ts_connections s))"
      unfolding f using tasks_push[OF i(5), of "RemoveTask p" "ts_loop s"] none by (simp add: ts_queue_def)
    then have "server_inv ?s'"
      using i(1,2) c1 n1 by (simp add: server_inv_def ts_queue_def pool_ok_def)
    moreover have "sc_close p s = Inr ?s'"
      using p False i(1) by (auto simp: sc_close_def removeConnection_def ts_runInLoop_def)
    ultimately show ?thesis by blast
  qed
qed

lemma server_invD:
  assumes "server_inv s"
  shows "ts_alive s" "pool_ok s" "conns_ok (ts_connections s) (ts_heap s)"
    "names_ok (ts_name s) (ts_ipPort s) (ts_nextConnId s) (ts_heap s)"
    "tasks_inv (ts_queues s) (owed (ts_loop s) (ts_heap s) (ts_connections s))"
  using assms by (simp_all add: server_inv_def)

text \<open>A change of one connection's state after which nothing is owed for it.\<close>

lemma settle_ok:
  assumes a: "ts_alive s" "pool_ok s" "conns_ok (ts_connections s) (ts_heap s)"
    "names_ok (ts_name s) (ts_ipPort s) (ts_nextConnId s) (ts_heap s)"
    and q: "tasks_inv (ts_queues s) ((owed (ts_loop s) (ts_heap s) (ts_connections s))(p := None))"
    and p: "ts_heap s p = Some c" "sc_name c' = sc_name c"
    and c': "sc_state c' \<noteq> kDisconnected \<Longrightarrow> (sc_name c, p) \<in> set (ts_connections s)"
      "sc_destroyed c' \<Longrightarrow> sc_state c' = kDisconnected \<and> (sc_name c, p) \<notin> set (ts_connections s)"
    and none: "owed (ts_loop s) ((ts_heap s)(p \<mapsto> c')) (ts_connections s) p = None"
  shows "server_inv (s\<lparr>ts_heap := (ts_heap s)(p \<mapsto> c')\<rparr>)"
proof -
  have f: "owed (ts_loop s) ((ts_heap s)(p \<mapsto> c')) (ts_connections s)
      = (owed (ts_loop s) (ts_heap s) (ts_connections s))(p := None)"
    unfolding none[symmetric] by (rule owed_frame) simp_all
  show ?thesis
    using a q conns_ok_upd[OF a(3) p c'] names_ok_upd[OF a(4) p] by (simp add: server_inv_def pool_ok_def f)
qed

lemma run_next_ok:
  assumes inv: "server_inv s" and q: "ts_queues s l = t # ts"
  shows "\<exists>s'. run_server_task l t (s\<lparr>ts_queues := (ts_queues s)(l := ts)\<rparr>) = Inr s' \<and> server_inv s'"
proof -
  note i = server_invD[OF inv]
  let ?s = "s\<lparr>ts_queues := (ts_queues s)(l := ts)\<rparr>"
  let ?ow = "owed (ts_loop s) (ts_heap s) (ts_connections s)"
  have o: "?ow (task_conn t) = Some (l, t)" and rest: "tasks_inv (ts_queues ?s) (?ow(task_conn t := None))"
    using tasks_pop[OF i(5) q] by simp_all
  have j: "ts_alive ?s" "pool_ok ?s" "conns_ok (ts_connections ?s) (ts_heap ?s)"
    "names_ok (ts_name ?s) (ts_ipPort ?s) (ts_nextConnId ?s) (ts_heap ?s)"
    using i by (simp_all add: pool_ok_def)
  have r: "tasks_inv (ts_queues ?s)
      ((owed (ts_loop ?s) (ts_heap ?s) (ts_connections ?s))(task_conn t := None))"
    using rest by simp
  from o obtain c where c: "ts_heap s (task_conn t) = Some c" by (auto simp: owed_def split: option.splits)
  show ?thesis
  proof (cases t)
    case (EstablishTask p)
    then have st: "ts_heap s p = Some c" "sc_state c = kConnecting"
      using o c by (auto simp: owed_def split: if_splits)
    have m: "(sc_name c, p) \<in> set (ts_connections s)" "\<not> sc_destroyed c"
      using i(3) st by (auto simp: conns_ok_def)
    have "server_inv (?s\<lparr>ts_heap := (ts_heap ?s)(p \<mapsto> c\<lparr>sc_state := kConnected\<rparr>)\<rparr>)"
      by (rule settle_ok[OF j _ _ _ _ _]) (use r EstablishTask st m in \<open>auto simp: owed_def\<close>)
    then show ?thesis using st EstablishTask by (simp add: run_server_task_def sc_establish_def)
  next
    case (RemoveTask p)
    then have st: "ts_heap s p = Some c" "sc_state c = kDisconnected" "(sc_name c, p) \<in> set (ts_connections s)"
      "l = ts_loop s"
      using o c by (auto simp: owed_def split: if_splits)
    have "\<exists>s'. removeConnectionInLoop (ts_loop ?s) p ?s = Inr s' \<and> server_inv s'"
      by (rule remove_ok[OF j]) (use r RemoveTask st in simp_all)
    then show ?thesis using RemoveTask st(4) i(1) by (simp add: run_server_task_def)
  next
    case (DestroyTask p)
    then have st: "ts_heap s p = Some c" "sc_state c = kDisconnected" "(sc_name c, p) \<notin> set (ts_connections s)"
      "\<not> sc_destroyed c"
      using o c by (auto simp: owed_def split: if_splits)
    have "server_inv (?s\<lparr>ts_heap := (ts_heap ?s)(p \<mapsto> c\<lparr>sc_state := kDisconnected, sc_destroyed := True\<rparr>)\<rparr>)"
      by (rule settle_ok[OF j]) (use r DestroyTask st in \<open>auto simp: owed_def\<close>)
    then show ?thesis using st DestroyTask by (simp add: run_server_task_def sc_destroy_def)
  qed
qed

lemma shutdown_ok:
  assumes inv: "server_inv s" and p: "ts_heap s p = Some c" "sc_state c = kConnected"
  shows "server_inv (s\<lparr>ts_heap := (ts_heap s)(p \<mapsto> c\<lparr>sc_state := kDisconnecting\<rparr>)\<rparr>)"
proof -
  note i = server_invD[OF inv]
  have m: "(sc_name c, p) \<in> set (ts_connections s)" "\<not> sc_destroyed c"
    using i(3) p by (auto simp: conns_ok_def)
  have "owed (ts_loop s) (ts_heap s) (ts_connections s) p = None" using p by (simp add: owed_def)
  then have "(owed (ts_loop s) (ts_heap s) (ts_connections s))(p := None)
      = owed (ts_loop s) (ts_heap s) (ts_connections s)" by auto
  then show ?thesis
    by (intro settle_ok[OF i(1-4) _ p(1)]) (use i(5) m in \<open>auto simp: owed_def\<close>)
qed

subsection \<open>Accepting\<close>

lemma getNextLoop_ok:
  assumes "pool_ok s" "ts_started s \<noteq> 0"
  obtains l n where "getNextLoop (int (ts_loop s)) (ts_pool s) = Inr (l, (ts_pool s)\<lparr>lp_next := n\<rparr>)"
    "lp_loops (ts_pool s) \<noteq> [] \<longrightarrow> n < length (lp_loops (ts_pool s))"
proof (cases "lp_loops (ts_pool s) = []")
  case True
  then show ?thesis
    using assms that[of "lp_baseLoop (ts_pool s)" "lp_next (ts_pool s)"]
    by (simp add: pool_ok_def getNextLoop_def lp_assertInLoopThread_def)
next
  case False
  then have n: "lp_next (ts_pool s) < length (lp_loops (ts_pool s))" using assms(1) by (simp add: pool_ok_def)
  let ?n = "if length (lp_loops (ts_pool s)) \<le> Suc (lp_next (ts_pool s)) then 0 else Suc (lp_next (ts_pool s))"
  show ?thesis
    by (rule that[of "lp_loops (ts_pool s) ! lp_next (ts_pool s)" ?n])
      (use assms n False in \<open>auto simp: pool_ok_def getNextLoop_def lp_assertInLoopThread_def Let_def\<close>)
qed

lemma names_ok_new:
  assumes n: "names_ok nm ip k h" "k < 2 ^ 31 - 1" and fresh: "h p = None"
    and c: "sc_name c = conn_name nm ip k"
  shows "names_ok nm ip (k + 1) (h(p \<mapsto> c))" and "\<forall>r d. h r = Some d \<longrightarrow> sc_name d \<noteq> sc_name c"
proof -
  show new: "\<forall>r d. h r = Some d \<longrightarrow> sc_name d \<noteq> sc_name c"
  proof (intro allI impI)
    fix r d assume "h r = Some d"
    then obtain i where i: "0 < i" "i < k" "sc_name d = conn_name nm ip i"
      using n(1) unfolding names_ok_def by blast
    then show "sc_name d \<noteq> sc_name c"
      using conn_name_inject[of ip i k nm] n c by (auto simp: names_ok_def)
  qed
  show "names_ok nm ip (k + 1) (h(p \<mapsto> c))"
    unfolding names_ok_def
  proof (intro conjI allI impI)
    show "0 < k + 1" "k + 1 < 2 ^ 31" "length ip \<le> 51" using n by (simp_all add: names_ok_def)
  next
    fix r d assume d: "(h(p \<mapsto> c)) r = Some d"
    show "\<exists>i>0. i < k + 1 \<and> sc_name d = conn_name nm ip i"
    proof (cases "r = p")
      case True
      then show ?thesis using d c n(1) by (intro exI[of _ k]) (simp add: names_ok_def)
    next
      case False
      then obtain i where "0 < i" "i < k" "sc_name d = conn_name nm ip i"
        using d n(1) unfolding names_ok_def by (metis fun_upd_other)
      then show ?thesis by (intro exI[of _ i]) simp
    qed
  next
    fix r d r' d'
    assume d: "(h(p \<mapsto> c)) r = Some d" "(h(p \<mapsto> c)) r' = Some d'" "sc_name d = sc_name d'"
    have old: "\<forall>p c p' c'. h p = Some c \<longrightarrow> h p' = Some c' \<longrightarrow> sc_name c = sc_name c' \<longrightarrow> p = p'"
      using n(1) by (simp add: names_ok_def)
    show "r = r'"
    proof (cases "r = p \<or> r' = p")
      case True
      then show ?thesis using d new by (auto split: if_splits)
    next
      case False
      then have "h r = Some d" "h r' = Some d'" using d by auto
      then show ?thesis using old d(3) by blast
    qed
  qed
qed

lemma accept_ok:
  assumes inv: "server_inv s" and started: "ts_started s \<noteq> 0" and fd: "0 < fd" and fresh: "ts_heap s p = None"
    and k: "ts_nextConnId s < 2 ^ 31 - 1"
  shows "\<exists>s'. server_step (Accept fd p) s = Inr s' \<and> server_inv s'"
proof -
  note i = server_invD[OF inv]
  let ?a = "(ts_acceptor s)\<lparr>ac_log := ac_log (ts_acceptor s) @ [NewConnection fd]\<rparr>"
  let ?name = "conn_name (ts_name s) (ts_ipPort s) (ts_nextConnId s)"
  have acc: "ac_handleRead (ts_loop s) fd 0 0 0 (ts_acceptor s) = Inr ?a"
    using i(2) fd by (simp add: pool_ok_def ac_handleRead_def)
  obtain l n where l: "getNextLoop (int (ts_loop s)) (ts_pool s) = Inr (l, (ts_pool s)\<lparr>lp_next := n\<rparr>)"
    "lp_loops (ts_pool s) \<noteq> [] \<longrightarrow> n < length (lp_loops (ts_pool s))"
    using i(2) started by (rule getNextLoop_ok)
  let ?c = "\<lparr>sc_name = ?name, sc_fd = fd, sc_loop = l, sc_state = kConnecting, sc_destroyed = False\<rparr>"
  let ?h = "(ts_heap s)(p \<mapsto> ?c)"
  let ?conns = "map_put ?name p (ts_connections s)"
  let ?s = "s\<lparr>ts_acceptor := ?a, ts_pool := (ts_pool s)\<lparr>lp_next := n\<rparr>, ts_nextConnId := ts_nextConnId s + 1,
      ts_heap := ?h, ts_connections := ?conns\<rparr>"
  have step: "server_step (Accept fd p) s = ts_runInLoop (ts_loop s) l (EstablishTask p) (sc_establish p) ?s"
    using acc l(1) k by (simp add: newConnection_def Let_def)
  have names: "names_ok (ts_name s) (ts_ipPort s) (ts_nextConnId s + 1) ?h"
    "\<forall>r d. ts_heap s r = Some d \<longrightarrow> sc_name d \<noteq> ?name"
    using names_ok_new[OF i(4) k fresh, of ?c] by simp_all
  have set: "set ?conns = insert (?name, p) (set (ts_connections s))"
    using i(3) names(2) unfolding map_put_set by (fastforce simp: conns_ok_def)
  have conns: "conns_ok ?conns ?h"
    unfolding conns_ok_def
  proof (intro conjI allI impI)
    show "distinct (map fst ?conns)" using i(3) by (intro map_put_distinct) (simp add: conns_ok_def)
  next
    fix m r assume "(m, r) \<in> set ?conns"
    then consider "m = ?name" "r = p" | "(m, r) \<in> set (ts_connections s)" unfolding set by auto
    then show "\<exists>c. ?h r = Some c \<and> sc_name c = m"
    proof cases
      case 2
      then obtain d where "ts_heap s r = Some d" "sc_name d = m" using i(3) unfolding conns_ok_def by blast
      then show ?thesis using fresh by auto
    qed simp
  next
    fix r d assume "?h r = Some d" "sc_state d \<noteq> kDisconnected"
    then show "(sc_name d, r) \<in> set ?conns" using i(3) by (auto simp: set conns_ok_def split: if_splits)
  next
    fix r d assume d: "?h r = Some d" "sc_destroyed d"
    then show "sc_state d = kDisconnected" "(sc_name d, r) \<notin> set ?conns"
      using i(3) names(2) by (auto simp: set conns_ok_def split: if_splits)
  qed
  have none: "owed (ts_loop s) (ts_heap s) (ts_connections s) p = None" using fresh by (simp add: owed_def)
  have f: "owed (ts_loop s) ?h ?conns
      = (owed (ts_loop s) (ts_heap s) (ts_connections s))(p := owed (ts_loop s) ?h ?conns p)"
    by (rule owed_frame) (use names(2) in \<open>auto simp: set\<close>)
  have o: "owed (ts_loop s) ?h ?conns p = Some (l, EstablishTask p)" by (simp add: owed_def)
  have pool: "pool_ok ?s" using i(2) l(2) started by (simp add: pool_ok_def)
  show ?thesis
  proof (cases "l = ts_loop s")
    case True
    have e: "(owed (ts_loop s) ?h ?conns)(p := None) = owed (ts_loop s) (ts_heap s) (ts_connections s)"
      by (subst f) (use none in auto)
    have "server_inv (?s\<lparr>ts_heap := (ts_heap ?s)(p \<mapsto> ?c\<lparr>sc_state := kConnected\<rparr>)\<rparr>)"
      by (rule settle_ok[where c = ?c]) (use i pool conns names e in \<open>simp_all add: set owed_def\<close>)
    then show ?thesis using step True by (simp add: ts_runInLoop_def sc_establish_def)
  next
    case False
    let ?s' = "ts_queue l (EstablishTask p) ?s"
    have "tasks_inv (ts_queues ?s') (owed (ts_loop s) ?h ?conns)"
      unfolding f[unfolded o] using tasks_push[OF i(5), of "EstablishTask p" l] none by (simp add: ts_queue_def)
    then have "server_inv ?s'"
      using i(1) pool conns names(1) by (simp add: server_inv_def ts_queue_def pool_ok_def)
    then show ?thesis using step False by (auto simp: ts_runInLoop_def)
  qed
qed

subsection \<open>Histories\<close>

text \<open>
  What the surroundings may do: the number of threads is not negative, a connection is accepted
  after the start, on a positive descriptor, at a fresh address, before the counter is exhausted;
  only connections that exist are shut down, and only those that are up are closed.
\<close>

fun server_event_ok :: "tcp_server \<Rightarrow> server_event \<Rightarrow> bool" where
  "server_event_ok s (SetThreads n) = (0 \<le> n)"
| "server_event_ok s (StartServer addr) = (ts_started s + 1 \<noteq> 0)"
| "server_event_ok s (Accept fd p) = (ac_listening (ts_acceptor s) \<and> 0 < fd \<and> ts_heap s p = None
     \<and> ts_nextConnId s < 2 ^ 31 - 1)"
| "server_event_ok s (RunNext l) = True"
| "server_event_ok s (UserShutdown p) = (ts_heap s p \<noteq> None)"
| "server_event_ok s (PeerClose p) =
     (\<exists>c. ts_heap s p = Some c \<and> (sc_state c = kConnected \<or> sc_state c = kDisconnecting))"

inductive server_reach :: "tcp_server \<Rightarrow> bool" where
  create: "new_tcp_server loop ipPort name acceptFd idleFd = Inr s \<Longrightarrow> length ipPort \<le> 51 \<Longrightarrow> server_reach s"
| event: "server_reach s \<Longrightarrow> server_event_ok s ev \<Longrightarrow> server_step ev s = Inr s' \<Longrightarrow> server_reach s'"

lemma new_server_inv:
  assumes "new_tcp_server loop ipPort name acceptFd idleFd = Inr s" "length ipPort \<le> 51"
  shows "server_inv s"
  using assms
  by (auto simp: new_tcp_server_def new_acceptor_def server_inv_def pool_ok_def conns_ok_def names_ok_def tasks_inv_def
      owed_def new_loop_pool_def split: if_splits)

lemma start_ok:
  assumes inv: "server_inv s" and w: "ts_started s + 1 \<noteq> 0"
  shows "\<exists>s'. ts_start (ts_loop s) False addr s = Inr s' \<and> server_inv s'"
proof (cases "ts_started s = 0")
  case False
  then show ?thesis using inv w by (auto simp: ts_start_def at_getAndAdd_def server_inv_def pool_ok_def)
next
  case True
  note i = server_invD[OF inv]
  let ?n = "nat (lp_numThreads (ts_pool s))"
  obtain pool where pool: "lp_start (int (ts_loop s)) False addr (ts_pool s) = Inr (False, pool)"
    "lp_started pool" "lp_threadId pool = int (ts_loop s)" "lp_next pool = 0"
    using i(2) True
    by (simp add: pool_ok_def lp_start_def lp_assertInLoopThread_def lp_add_fold Let_def)
  let ?a = "(ts_acceptor s)\<lparr>ac_listening := True, ac_channel := ch_mask EnableReading (ac_channel (ts_acceptor s))\<rparr>"
  let ?s = "s\<lparr>ts_started := ts_started s + 1, ts_pool := pool, ts_acceptor := ?a\<rparr>"
  have "ts_start (ts_loop s) False addr s = Inr ?s"
    using i(2) True pool(1) by (simp add: ts_start_def at_getAndAdd_def pool_ok_def ac_listen_def Let_def)
  moreover have "server_inv ?s" using i True pool by (simp add: server_inv_def pool_ok_def)
  ultimately show ?thesis by blast
qed

lemma server_step_inv:
  assumes inv: "server_inv s" and ev: "server_event_ok s ev"
  shows "\<exists>s'. server_step ev s = Inr s' \<and> server_inv s'"
proof (cases ev)
  case (SetThreads n)
  then show ?thesis using inv ev by (simp add: ts_setThreadNum_def lp_setThreadNum_def server_inv_def pool_ok_def)
next
  case (StartServer addr)
  then show ?thesis using start_ok[OF inv] ev by simp
next
  case (Accept fd p)
  have "ac_listening (ts_acceptor s) \<longleftrightarrow> ts_started s \<noteq> 0" using inv by (simp add: server_inv_def pool_ok_def)
  then show ?thesis using accept_ok[OF inv, of fd p] ev Accept by simp
next
  case (RunNext l)
  show ?thesis
  proof (cases "ts_queues s l")
    case Nil
    then show ?thesis using RunNext inv by simp
  next
    case (Cons t ts)
    then show ?thesis using RunNext run_next_ok[OF inv Cons] by simp
  qed
next
  case (UserShutdown p)
  then obtain c where "ts_heap s p = Some c" using ev by auto
  then show ?thesis using UserShutdown inv shutdown_ok[OF inv] by simp
next
  case (PeerClose p)
  then show ?thesis using close_ok[OF inv] ev by auto
qed

lemma server_reach_inv: "server_reach s \<Longrightarrow> server_inv s"
proof (induction rule: server_reach.induct)
  case (create loop ipPort name acceptFd idleFd s)
  then show ?case by (rule new_server_inv)
next
  case (event s ev s')
  then show ?case using server_step_inv[OF event.IH event.hyps(2)] by auto
qed

section \<open>Properties\<close>


text \<open>A server with the base loop only, that has accepted one connection, which was closed.\<close>

definition lawful_step :: "server_event \<Rightarrow> tcp_server \<Rightarrow> tcp_server result" where
  "lawful_step ev s = (if server_event_ok s ev then server_step ev s else Inl Undefined)"

lemma lawful_step_Inr: "lawful_step ev s = Inr s' \<longleftrightarrow> server_event_ok s ev \<and> server_step ev s = Inr s'"
  by (simp add: lawful_step_def)

lemma lawful_steps_reach: "rfold lawful_step evs s = Inr s' \<Longrightarrow> server_reach s \<Longrightarrow> server_reach s'"
proof (induction evs arbitrary: s)
  case (Cons ev evs)
  then obtain s1 where "server_event_ok s ev" "server_step ev s = Inr s1" "rfold lawful_step evs s1 = Inr s'"
    by (auto simp: rbind_eq_Inr_iff lawful_step_Inr)
  then show ?case using Cons.IH server_reach.event[OF Cons.prems(2)] by blast
qed simp

definition small_server :: "server_event list \<Rightarrow> tcp_server result" where
  "small_server evs = rbind (new_tcp_server 7 ''1.2.3.4:80'' ''srv'' 3 4) (rfold lawful_step evs)"

lemma small_server_reach:
  assumes "small_server evs = Inr s"
  shows "server_reach s"
proof -
  obtain s0 where s0: "new_tcp_server 7 ''1.2.3.4:80'' ''srv'' 3 4 = Inr s0" "rfold lawful_step evs s0 = Inr s"
    using assms by (auto simp: small_server_def rbind_eq_Inr_iff)
  show ?thesis by (rule lawful_steps_reach[OF s0(2) server_reach.create[OF s0(1)]]) simp
qed

lemmas server_run_simps = small_server_def lawful_step_def new_tcp_server_def new_acceptor_def ts_start_def
  at_getAndAdd_def lp_start_def new_loop_pool_def lp_assertInLoopThread_def ac_listen_def ac_handleRead_def
  newConnection_def getNextLoop_def ts_runInLoop_def sc_establish_def sc_close_def removeConnection_def
  removeConnectionInLoop_def map_put_def map_erase_def ts_queue_def ts_setThreadNum_def lp_setThreadNum_def
  lp_add_def Let_def

lemma small_server_closed:
  obtains s where "small_server [StartServer (\<lambda>i. i), Accept 9 100, PeerClose 100] = Inr s"
    "ts_queues s 7 = [DestroyTask 100]"
  by (simp add: server_run_simps)

lemma small_server_up:
  obtains s c where "small_server [StartServer (\<lambda>i. i), Accept 9 100] = Inr s" "ts_heap s = [100 \<mapsto> c]"
    "ts_connections s = [(sc_name c, 100)]" "sc_state c = kConnected" "sc_loop c = 7" "ts_loop s = 7"
    "\<not> sc_destroyed c"
  by (simp add: server_run_simps)


text \<open>
  C28. The server knows its connections: the map has one entry for each connection that is up or about to
  be established, under its own name, and no other, except those whose removal is queued; and no
  two connections ever get the same name.
\<close>

theorem server_map_exact:
  assumes "server_reach s"
  shows "distinct (map fst (ts_connections s))
    \<and> (\<forall>p c. ts_heap s p = Some c \<longrightarrow>
         ((sc_name c, p) \<in> set (ts_connections s) \<longleftrightarrow>
            sc_state c \<noteq> kDisconnected \<or> RemoveTask p \<in> set (ts_queues s (ts_loop s))))
    \<and> (\<forall>p c p' c'. ts_heap s p = Some c \<longrightarrow> ts_heap s p' = Some c' \<longrightarrow> sc_name c = sc_name c' \<longrightarrow> p = p')"
proof -
  note i = server_invD[OF server_reach_inv[OF assms]]
  have t: "RemoveTask p \<in> set (ts_queues s l) \<longleftrightarrow>
      owed (ts_loop s) (ts_heap s) (ts_connections s) p = Some (l, RemoveTask p)" for p l
    using tasks_invD[OF i(5), of l "RemoveTask p"] count_list_0_iff[of "ts_queues s l" "RemoveTask p"]
    by (auto split: if_splits)
  have "(sc_name c, p) \<in> set (ts_connections s) \<longleftrightarrow>
            sc_state c \<noteq> kDisconnected \<or> RemoveTask p \<in> set (ts_queues s (ts_loop s))"
    if "ts_heap s p = Some c" for p c
    using i(3) that unfolding t by (auto simp: owed_def conns_ok_def)
  then show ?thesis using i(3,4) by (auto simp: conns_ok_def names_ok_def)
qed

lemma server_map_exact_witness:
  "\<exists>(s :: tcp_server) c. ts_heap s = [100 \<mapsto> c] \<and> sc_state c = kConnected \<and> (sc_name c, 100) \<in> set (ts_connections s)"
proof -
  obtain s c where s: "small_server [StartServer (\<lambda>i. i), Accept 9 100] = Inr s" "ts_heap s = [100 \<mapsto> c]"
    "sc_state c = kConnected" by (rule small_server_up)
  show ?thesis
    using server_map_exact[OF small_server_reach[OF s(1)]] s(2,3) by (intro exI[of _ s] exI[of _ c]) simp
qed

lemma destroy_all:
  assumes "distinct ps" "\<forall>p \<in> set ps. \<exists>c. ts_heap s p = Some c \<and> sc_loop c = ts_loop s
      \<and> sc_state c \<in> {kConnected, kDisconnected} \<and> \<not> sc_destroyed c" "me = ts_loop s"
  shows "\<exists>h. rfold (destroy_one me) ps s = Inr (s\<lparr>ts_heap := h\<rparr>)
    \<and> (\<forall>p \<in> set ps. \<exists>c. h p = Some c \<and> sc_state c = kDisconnected \<and> sc_destroyed c)
    \<and> (\<forall>p. p \<notin> set ps \<longrightarrow> h p = ts_heap s p)"
  using assms
proof (induction ps arbitrary: s)
  case Nil
  then show ?case by (intro exI[of _ "ts_heap s"]) simp
next
  case (Cons p ps)
  then obtain c where c: "ts_heap s p = Some c" "sc_loop c = ts_loop s" "sc_state c \<in> {kConnected, kDisconnected}"
    "\<not> sc_destroyed c" by auto
  let ?s = "s\<lparr>ts_heap := (ts_heap s)(p \<mapsto> c\<lparr>sc_state := kDisconnected, sc_destroyed := True\<rparr>)\<rparr>"
  have one: "destroy_one me p s = Inr ?s"
    using c Cons.prems(3) by (auto simp: destroy_one_def ts_runInLoop_def sc_destroy_def)
  have "\<exists>h. rfold (destroy_one me) ps ?s = Inr (?s\<lparr>ts_heap := h\<rparr>)
    \<and> (\<forall>p \<in> set ps. \<exists>c. h p = Some c \<and> sc_state c = kDisconnected \<and> sc_destroyed c)
    \<and> (\<forall>q. q \<notin> set ps \<longrightarrow> h q = ts_heap ?s q)"
    by (rule Cons.IH) (use Cons.prems in auto)
  then obtain h where h: "rfold (destroy_one me) ps ?s = Inr (?s\<lparr>ts_heap := h\<rparr>)"
    "\<forall>p \<in> set ps. \<exists>c. h p = Some c \<and> sc_state c = kDisconnected \<and> sc_destroyed c"
    "\<forall>q. q \<notin> set ps \<longrightarrow> h q = ts_heap ?s q" by blast
  have "h p = Some (c\<lparr>sc_state := kDisconnected, sc_destroyed := True\<rparr>)"
    using h(3) Cons.prems(1) by simp
  moreover have "h q = ts_heap s q" if "q \<noteq> p" "q \<notin> set ps" for q using h(3) that by simp
  ultimately show ?case using one h(1,2) by (intro exI[of _ h]) auto
qed

lemma distinct_conns:
  assumes "conns_ok conns h"
  shows "distinct (map snd conns)"
proof -
  have d: "distinct (map fst conns)" and e: "\<forall>n p. (n, p) \<in> set conns \<longrightarrow> (\<exists>c. h p = Some c \<and> sc_name c = n)"
    using assms by (simp_all add: conns_ok_def)
  have "inj_on snd (set conns)"
  proof (rule inj_onI)
    fix x y assume "x \<in> set conns" "y \<in> set conns" "snd x = snd y"
    then show "x = y" using e by (metis option.inject prod.collapse)
  qed
  then show ?thesis using d by (simp add: distinct_map)
qed

text \<open>
  A server whose connections all live in its own loop, none of them closing, is destroyed cleanly:
  the destructor destroys each of them, whatever their state.
\<close>

theorem single_loop_server_destroyed:
  assumes "server_reach s"
    and "\<forall>n p. (n, p) \<in> set (ts_connections s) \<longrightarrow> (\<exists>c. ts_heap s p = Some c \<and> sc_loop c = ts_loop s
           \<and> sc_state c \<in> {kConnected, kDisconnected})"
  shows "\<exists>s'. destroy_tcp_server (ts_loop s) s = Inr s'
    \<and> (\<forall>n p. (n, p) \<in> set (ts_connections s) \<longrightarrow>
         (\<exists>c. ts_heap s' p = Some c \<and> sc_state c = kDisconnected \<and> sc_destroyed c))"
proof -
  have ok: "conns_ok (ts_connections s) (ts_heap s)" using server_invD(3)[OF server_reach_inv[OF assms(1)]] .
  have all: "\<forall>p \<in> set (map snd (ts_connections s)). \<exists>c. ts_heap s p = Some c \<and> sc_loop c = ts_loop s
      \<and> sc_state c \<in> {kConnected, kDisconnected} \<and> \<not> sc_destroyed c"
  proof
    fix p assume "p \<in> set (map snd (ts_connections s))"
    then obtain n where n: "(n, p) \<in> set (ts_connections s)" by auto
    then obtain c where c: "ts_heap s p = Some c" "sc_loop c = ts_loop s" "sc_state c \<in> {kConnected, kDisconnected}"
      using assms(2) by blast
    have "sc_name c = n" using ok n c(1) by (fastforce simp: conns_ok_def)
    then have "\<not> sc_destroyed c" using ok n c(1) by (auto simp: conns_ok_def)
    then show "\<exists>c. ts_heap s p = Some c \<and> sc_loop c = ts_loop s
      \<and> sc_state c \<in> {kConnected, kDisconnected} \<and> \<not> sc_destroyed c" using c by blast
  qed
  obtain h where h: "rfold (destroy_one (ts_loop s)) (map snd (ts_connections s)) s = Inr (s\<lparr>ts_heap := h\<rparr>)"
    "\<forall>p \<in> set (map snd (ts_connections s)). \<exists>c. h p = Some c \<and> sc_state c = kDisconnected \<and> sc_destroyed c"
    using destroy_all[OF distinct_conns[OF ok] all refl] by blast
  then show ?thesis by (force simp: destroy_tcp_server_def)
qed

lemma single_loop_server_destroyed_witness:
  "\<exists>s s'. map snd (ts_connections s) = [100] \<and> destroy_tcp_server 7 s = Inr s'
     \<and> (\<exists>c. ts_heap s' 100 = Some c \<and> sc_destroyed c)"
proof -
  obtain s c where s: "small_server [StartServer (\<lambda>i. i), Accept 9 100] = Inr s" "ts_heap s = [100 \<mapsto> c]"
    "ts_connections s = [(sc_name c, 100)]" "sc_state c = kConnected" "sc_loop c = 7" "ts_loop s = 7"
    by (rule small_server_up)
  obtain s' d where "destroy_tcp_server 7 s = Inr s'" "ts_heap s' 100 = Some d" "sc_destroyed d"
    using single_loop_server_destroyed[OF small_server_reach[OF s(1)]] s by auto
  moreover have "map snd (ts_connections s) = [100]" using s by simp
  ultimately show ?thesis by (intro exI conjI)
qed

lemma destroy_queued:
  assumes "\<forall>p \<in> set ps. \<exists>c. h p = Some c \<and> sc_loop c \<noteq> me" "ts_heap s = h"
  shows "\<exists>s'. rfold (destroy_one me) ps s = Inr s' \<and> ts_heap s' = h"
  using assms
proof (induction ps arbitrary: s)
  case (Cons p ps)
  then obtain c where c: "h p = Some c" "sc_loop c \<noteq> me" by auto
  let ?s = "ts_queue (sc_loop c) (DestroyTask p) s"
  have "destroy_one me p s = Inr ?s" using c Cons.prems(2) by (auto simp: destroy_one_def ts_runInLoop_def)
  moreover have "\<exists>s'. rfold (destroy_one me) ps ?s = Inr s' \<and> ts_heap s' = h"
    using Cons.prems by (intro Cons.IH) (simp_all add: ts_queue_def)
  ultimately show ?case by simp
qed simp

text \<open>
  C38. With loops of their own, connections outlive the server: when the server is destroyed, a
  connection of another loop that closes before its loop has run \<open>connectDestroyed\<close> calls the
  close callback, which is bound to the address of the server.
\<close>

theorem close_after_server_gone:
  assumes "server_reach s" and "\<forall>p c. ts_heap s p = Some c \<longrightarrow> sc_loop c \<noteq> ts_loop s"
    and "ts_heap s p = Some c" and "sc_state c = kConnected"
  shows "\<exists>s'. destroy_tcp_server (ts_loop s) s = Inr s' \<and> server_step (PeerClose p) s' = Inl Undefined"
proof -
  have ok: "conns_ok (ts_connections s) (ts_heap s)" using server_invD(3)[OF server_reach_inv[OF assms(1)]] .
  have "\<forall>p \<in> set (map snd (ts_connections s)). \<exists>c. ts_heap s p = Some c \<and> sc_loop c \<noteq> ts_loop s"
    using ok assms(2) by (fastforce simp: conns_ok_def)
  then obtain s' where "rfold (destroy_one (ts_loop s)) (map snd (ts_connections s)) s = Inr s'" "ts_heap s' = ts_heap s"
    using destroy_queued[of "map snd (ts_connections s)" "ts_heap s" "ts_loop s" s] by auto
  then show ?thesis using assms(3,4) by (simp add: destroy_tcp_server_def sc_close_def removeConnection_def)
qed

lemma small_server_pool:
  obtains s c where "small_server [SetThreads 1, StartServer (\<lambda>i. i + 20), Accept 9 100, RunNext 20] = Inr s"
    "ts_heap s = [100 \<mapsto> c]" "sc_state c = kConnected" "sc_loop c = 20" "ts_loop s = 7"
  by (simp add: server_run_simps run_server_task_def)

lemma close_after_server_gone_witness:
  "\<exists>s s'. destroy_tcp_server 7 s = Inr s' \<and> server_step (PeerClose 100) s' = Inl Undefined"
proof -
  obtain s c where s: "small_server [SetThreads 1, StartServer (\<lambda>i. i + 20), Accept 9 100, RunNext 20] = Inr s"
    "ts_heap s = [100 \<mapsto> c]" "sc_state c = kConnected" "sc_loop c = 20" "ts_loop s = 7"
    by (rule small_server_pool)
  have "\<exists>s'. destroy_tcp_server 7 s = Inr s' \<and> server_step (PeerClose 100) s' = Inl Undefined"
    using close_after_server_gone[OF small_server_reach[OF s(1)], of 100 c] s by auto
  then show ?thesis by blast
qed

end
