(* ===== verification/Date.thy ===== *)
theory Date
  imports Text
begin

text \<open>
  Calendar dates (src/zing/base/Date.h and Date.cpp): Julian day numbers of the proleptic
  Gregorian calendar. Division of \<open>int\<close> truncates towards zero, so it is \<open>sdiv\<close> here. The model
  computes with unbounded integers; \<open>day_number_in_range\<close> and \<open>civil_in_range\<close> show the bounds
  within which no intermediate result of the code leaves its 32 bits.

  The reference is the calendar itself: the lengths of the months, the leap years and the date
  that follows a date.
\<close>

section \<open>The code\<close>

record year_month_day =
  ymd_year :: int
  ymd_month :: int
  ymd_day :: int

definition getJulianDayNumber :: "int \<Rightarrow> int \<Rightarrow> int \<Rightarrow> int" where
  "getJulianDayNumber year month day =
     (let a = (14 - month) sdiv 12;
          y = year + 4800 - a;
          m = month + 12 * a - 3
      in day + (153 * m + 2) sdiv 5 + y * 365 + y sdiv 4 - y sdiv 100 + y sdiv 400 - 32045)"

definition getYearMonthDay :: "int \<Rightarrow> year_month_day" where
  "getYearMonthDay julianDayNumber =
     (let a = julianDayNumber + 32044;
          b = (4 * a + 3) sdiv 146097;
          c = a - (b * 146097) sdiv 4;
          d = (4 * c + 3) sdiv 1461;
          e = c - (1461 * d) sdiv 4;
          m = (5 * e + 2) sdiv 153
      in \<lparr>ymd_year = b * 100 + d - 4800 + m sdiv 10,
          ymd_month = m + 3 - 12 * (m sdiv 10),
          ymd_day = e - (153 * m + 2) sdiv 5 + 1\<rparr>)"

definition kJulianDayOf1970_01_01 :: int where
  "kJulianDayOf1970_01_01 = getJulianDayNumber 1970 1 1"

definition kDaysPerWeek :: int where
  "kDaysPerWeek = 7"

datatype date = Date (julianDayNumber: int)

definition date_default :: date where
  "date_default = Date 0"

definition date_ymd :: "int \<Rightarrow> int \<Rightarrow> int \<Rightarrow> date" where
  "date_ymd y m d = Date (getJulianDayNumber y m d)"

definition date_valid :: "date \<Rightarrow> bool" where
  "date_valid t = (0 < julianDayNumber t)"

definition yearMonthDay :: "date \<Rightarrow> year_month_day" where
  "yearMonthDay t = getYearMonthDay (julianDayNumber t)"

definition date_year :: "date \<Rightarrow> int" where
  "date_year t = ymd_year (yearMonthDay t)"

definition date_month :: "date \<Rightarrow> int" where
  "date_month t = ymd_month (yearMonthDay t)"

definition date_day :: "date \<Rightarrow> int" where
  "date_day t = ymd_day (yearMonthDay t)"

definition weekDay :: "date \<Rightarrow> int" where
  "weekDay t = (julianDayNumber t + 1) smod kDaysPerWeek"

definition toIsoString :: "date \<Rightarrow> string" where
  "toIsoString t =
     (let ymd = yearMonthDay t
      in snprintf_to 32 (fmt_d 4 (ymd_year ymd) @ ''-'' @ fmt_0d 2 (ymd_month ymd) @ ''-'' @
           fmt_0d 2 (ymd_day ymd)))"

definition date_swap :: "date \<Rightarrow> date \<Rightarrow> date \<times> date" where
  "date_swap t that = (that, t)"

definition date_less :: "date \<Rightarrow> date \<Rightarrow> bool" where
  "date_less x y = (julianDayNumber x < julianDayNumber y)"

definition date_equal :: "date \<Rightarrow> date \<Rightarrow> bool" where
  "date_equal x y = (julianDayNumber x = julianDayNumber y)"

lemma date_equal_iff: "date_equal x y \<longleftrightarrow> x = y"
  by (auto simp: date_equal_def intro: date.expand)

instantiation date :: linorder
begin

definition less_date :: "date \<Rightarrow> date \<Rightarrow> bool" where
  "less_date = date_less"

definition less_eq_date :: "date \<Rightarrow> date \<Rightarrow> bool" where
  "less_eq_date x y = (julianDayNumber x \<le> julianDayNumber y)"

instance
  by standard (auto simp: less_date_def date_less_def less_eq_date_def intro: date.expand)

end

section \<open>The calendar\<close>

definition leap_year :: "int \<Rightarrow> bool" where
  "leap_year y = (4 dvd y \<and> (\<not> 100 dvd y \<or> 400 dvd y))"

definition days_in_month :: "int \<Rightarrow> int \<Rightarrow> int" where
  "days_in_month y m =
     (if m = 2 then (if leap_year y then 29 else 28)
      else if m \<in> {4, 6, 9, 11} then 30 else 31)"

definition civil :: "int \<Rightarrow> int \<Rightarrow> int \<Rightarrow> bool" where
  "civil y m d = (1 \<le> m \<and> m \<le> 12 \<and> 1 \<le> d \<and> d \<le> days_in_month y m)"

text \<open>Dates from 1 March of the year -4800 on, where the code's divisions meet no sign.\<close>

definition from_origin :: "int \<Rightarrow> int \<Rightarrow> bool" where
  "from_origin y m = (-4800 < y \<or> y = -4800 \<and> 3 \<le> m)"

fun next_date :: "int \<times> int \<times> int \<Rightarrow> int \<times> int \<times> int" where
  "next_date (y, m, d) =
     (if d < days_in_month y m then (y, m, d + 1)
      else if m < 12 then (y, m + 1, 1)
      else (y + 1, 1, 1))"

section \<open>Division\<close>

lemma sdiv_nonneg [simp]: "0 \<le> a \<Longrightarrow> 0 < b \<Longrightarrow> a sdiv b = a div (b :: int)"
  by (cases "a = 0") (simp_all add: signed_divide_int_def)

lemma smod_nonneg [simp]: "0 \<le> a \<Longrightarrow> 0 < b \<Longrightarrow> a smod b = a mod (b :: int)"
  by (cases "a = 0") (simp_all add: signed_modulo_int_def minus_div_mult_eq_mod)

lemma div_int_eqI: "k * q \<le> a \<Longrightarrow> a < k * q + k \<Longrightarrow> a div k = (q :: int)"
  by (rule int_div_pos_eq[where r = "a - k * q"]) simp_all

lemma month_split:
  "1 \<le> (m :: int) \<Longrightarrow> m \<le> 12 \<Longrightarrow>
   m = 1 \<or> m = 2 \<or> m = 3 \<or> m = 4 \<or> m = 5 \<or> m = 6 \<or> m = 7 \<or> m = 8 \<or> m = 9 \<or> m = 10 \<or> m = 11 \<or> m = 12"
  by arith

text \<open>Days before the month \<open>m\<close> of a year that starts on 1 March, and years since -4800.\<close>

definition march_month :: "int \<Rightarrow> int" where
  "march_month m = (if m \<le> 2 then m + 9 else m - 3)"

definition march_year :: "int \<Rightarrow> int \<Rightarrow> int" where
  "march_year y m = (if m \<le> 2 then y + 4799 else y + 4800)"

definition day_of_year :: "int \<Rightarrow> int \<Rightarrow> int" where
  "day_of_year m d = (153 * march_month m + 2) div 5 + d - 1"

lemma march_year_nonneg: "from_origin y m \<Longrightarrow> 0 \<le> march_year y m"
  by (auto simp: from_origin_def march_year_def)

lemma day_number_march:
  assumes "1 \<le> m" "m \<le> 12" "from_origin y m"
  shows "getJulianDayNumber y m d =
    365 * march_year y m + march_year y m div 4 - march_year y m div 100 + march_year y m div 400
    + day_of_year m d - 32044"
proof -
  have a: "(14 - m) sdiv 12 = (if m \<le> 2 then 1 else 0)"
    using assms(1,2) by (auto dest!: month_split)
  then have y: "y + 4800 - (14 - m) sdiv 12 = march_year y m"
    and mm: "m + 12 * ((14 - m) sdiv 12) - 3 = march_month m"
    by (simp_all add: march_year_def march_month_def)
  have "0 \<le> march_month m"
    using assms by (simp add: march_month_def)
  then show ?thesis
    using march_year_nonneg[OF assms(3)]
    unfolding getJulianDayNumber_def Let_def y mm day_of_year_def by simp
qed

section \<open>Day numbers count days\<close>

text \<open>The year that starts in March has a 366th day exactly when its February is a leap one.\<close>

lemma day_of_year_range:
  assumes "civil y m d"
  shows "0 \<le> day_of_year m d \<and> day_of_year m d \<le> 365 \<and>
    (day_of_year m d = 365 \<longrightarrow> m \<le> 2 \<and> leap_year y)"
proof -
  from assms have m: "1 \<le> m" "m \<le> 12" and d: "1 \<le> d" "d \<le> days_in_month y m"
    by (simp_all add: civil_def)
  from month_split[OF m] d show ?thesis
    unfolding day_of_year_def march_month_def days_in_month_def
    by (elim disjE; cases "leap_year y"; simp)
qed

lemma leap_step:
  fixes Y :: int
  shows "(Y + 1) div 4 - (Y + 1) div 100 + (Y + 1) div 400 =
    Y div 4 - Y div 100 + Y div 400 + (if leap_year (Y - 4799) then 1 else 0)"
proof -
  have step: "(Y + 1) div k = Y div k + (if k dvd (Y + 1) then 1 else 0)" if "1 < k" for k :: int
  proof (cases "k dvd (Y + 1)")
    case True
    then obtain q where q: "Y + 1 = k * q" by (elim dvdE)
    with that have "Y div k = q - 1" by (intro div_int_eqI) (auto simp: algebra_simps)
    with q True that show ?thesis by simp
  next
    case False
    let ?r = "(Y + 1) mod k"
    have "?r \<noteq> 0" "0 \<le> ?r" and k: "?r < k"
      using False that by (auto simp: dvd_eq_mod_eq_0)
    then have r: "0 < ?r" by linarith
    have "Y + 1 = k * ((Y + 1) div k) + ?r" by simp
    with r k have "Y div k = (Y + 1) div k" by (intro div_int_eqI) linarith+
    with False show ?thesis by simp
  qed
  have dvd: "k dvd (Y - 4799) \<longleftrightarrow> k dvd (Y + 1)" if "k dvd 4800" for k :: int
  proof -
    have "Y + 1 = (Y - 4799) + 4800" by simp
    with that show ?thesis by (metis dvd_add_left_iff)
  qed
  have "4 dvd (Y + 1)" if "100 dvd (Y + 1)"
    using that by (rule dvd_trans[rotated]) simp
  moreover have "100 dvd (Y + 1)" if "400 dvd (Y + 1)"
    using that by (rule dvd_trans[rotated]) simp
  ultimately show ?thesis
    unfolding step[of 4, simplified] step[of 100, simplified] step[of 400, simplified] leap_year_def
      dvd[of 4, simplified] dvd[of 100, simplified] dvd[of 400, simplified]
    by (cases "4 dvd (Y + 1)"; cases "100 dvd (Y + 1)"; cases "400 dvd (Y + 1)"; simp)
qed

lemma next_date_civil: "civil y m d \<Longrightarrow> next_date (y, m, d) = (y', m', d') \<Longrightarrow> civil y' m' d'"
  by (auto simp: civil_def days_in_month_def split: if_splits)

lemma next_date_origin: "from_origin y m \<Longrightarrow> next_date (y, m, d) = (y', m', d') \<Longrightarrow> from_origin y' m'"
  by (auto simp: from_origin_def split: if_splits)

lemma next_day_number:
  assumes "civil y m d" "from_origin y m" and n: "next_date (y, m, d) = (y', m', d')"
  shows "getJulianDayNumber y' m' d' = getJulianDayNumber y m d + 1"
proof -
  from assms(1) have m: "1 \<le> m" "m \<le> 12" and d: "1 \<le> d" "d \<le> days_in_month y m"
    by (simp_all add: civil_def)
  have c': "civil y' m' d'" by (rule next_date_civil[OF assms(1) n])
  then have m': "1 \<le> m'" "m' \<le> 12" by (simp_all add: civil_def)
  note J = day_number_march[OF m assms(2)] day_number_march[OF m' next_date_origin[OF assms(2) n]]
  note defs = day_of_year_def march_month_def march_year_def days_in_month_def
  show ?thesis
  proof (cases "d < days_in_month y m")
    case True
    with n have "y' = y" "m' = m" "d' = d + 1" by simp_all
    with J show ?thesis by (simp add: day_of_year_def)
  next
    case False
    with d have last: "d = days_in_month y m" by simp
    show ?thesis
    proof (cases "m = 2")
      case True
      with False n have "y' = y" "m' = 3" "d' = 1" by simp_all
      with True last have "march_year y' m' = march_year y m + 1" "day_of_year m' d' = 0"
        "day_of_year m d = 364 + (if leap_year y then 1 else 0)" "march_year y m - 4799 = y"
        by (simp_all add: defs)
      then show ?thesis
        unfolding J using leap_step[of "march_year y m"] by simp
    next
      case feb: False
      with n False have *: "y' = (if m = 12 then y + 1 else y)" "m' = (if m = 12 then 1 else m + 1)" "d' = 1"
        using m by (auto split: if_splits)
      from feb have "march_year (if m = 12 then y + 1 else y) (if m = 12 then 1 else m + 1) = march_year y m"
        using m by (auto simp: march_year_def)
      moreover from feb have "day_of_year (if m = 12 then 1 else m + 1) 1 = day_of_year m (days_in_month y m) + 1"
        using month_split[OF m] unfolding day_of_year_def march_month_def days_in_month_def
        by (elim disjE; simp)
      ultimately have "march_year y' m' = march_year y m" "day_of_year m' d' = day_of_year m d + 1"
        unfolding * last by blast+
      then show ?thesis
        unfolding J by simp
    qed
  qed
qed

section \<open>Dates are read back from their day numbers\<close>

text \<open>The divisions of \<open>getYearMonthDay\<close>, with the 400-year cycle taken apart.\<close>

lemma centuries_and_years:
  fixes b d w :: int
  assumes "0 \<le> b" "0 \<le> d" "d \<le> 99" "0 \<le> w" "w \<le> 365"
    and last: "w = 365 \<longrightarrow> d mod 4 = 3 \<and> (d = 99 \<longrightarrow> b mod 4 = 3)"
  defines "c \<equiv> 365 * d + d div 4 + w"
  defines "a \<equiv> 36524 * b + b div 4 + c"
  shows "(4 * a + 3) div 146097 = b" and "(b * 146097) div 4 = 36524 * b + b div 4"
    and "(4 * c + 3) div 1461 = d" and "(1461 * d) div 4 = 365 * d + d div 4"
proof -
  define q where "q = b div 4"
  define r where "r = b mod 4"
  define u where "u = d div 4"
  define v where "v = d mod 4"
  have b: "b = 4 * q + r" "0 \<le> r" "r \<le> 3" and d: "d = 4 * u + v" "0 \<le> v" "v \<le> 3"
    unfolding q_def r_def u_def v_def using pos_mod_bound[of 4 b] pos_mod_bound[of 4 d] by simp_all
  have div: "b div 4 = q" "d div 4 = u" by (simp_all add: q_def u_def)
  have u: "u \<le> 24" "0 \<le> u" using d assms(2,3) by linarith+
  have last': "w \<le> 364 \<or> v = 3 \<and> (u \<le> 23 \<or> r = 3)"
  proof (cases "w = 365")
    case True
    with last have "v = 3" "d = 99 \<longrightarrow> r = 3" by (simp_all add: v_def r_def)
    then show ?thesis using u d assms(3) by (cases "u = 24") auto
  qed (use assms(5) in linarith)
  have A: "4 * a + 3 = 146097 * b + (4 * c + 3 - r)"
    unfolding a_def div using b(1) by (simp add: algebra_simps)
  have C: "c = 1461 * u + 365 * v + w"
    unfolding c_def div using d(1) by (simp add: algebra_simps)
  have "4 * c + 3 - r < 146097" "4 * w + 3 - v < 1461"
    using last' u d(2,3) b(2,3) assms(5) C by auto
  moreover have "0 \<le> 4 * c + 3 - r" "0 \<le> 4 * w + 3 - v"
    using assms(4) b(2,3) d(2,3) u C by auto
  moreover have "4 * c + 3 = 1461 * d + (4 * w + 3 - v)"
    unfolding C d(1) by simp
  ultimately show "(4 * a + 3) div 146097 = b" "(4 * c + 3) div 1461 = d"
    unfolding A by (intro div_int_eqI; linarith)+
  show "(b * 146097) div 4 = 36524 * b + b div 4"
    unfolding div using b by (intro div_int_eqI; simp)
  show "(1461 * d) div 4 = 365 * d + d div 4"
    unfolding div using d by (intro div_int_eqI; simp)
qed

lemma month_of_day:
  assumes "civil y m d"
  shows "(5 * day_of_year m d + 2) div 153 = march_month m"
proof -
  from assms have m: "1 \<le> m" "m \<le> 12" and d: "1 \<le> d" "d \<le> days_in_month y m"
    by (simp_all add: civil_def)
  from month_split[OF m] d show ?thesis
    unfolding day_of_year_def march_month_def days_in_month_def
    by (intro div_int_eqI; elim disjE; cases "leap_year y"; simp)
qed

lemma civil_of_day_number:
  assumes c: "civil y m d" and "from_origin y m"
  shows "getYearMonthDay (getJulianDayNumber y m d) = \<lparr>ymd_year = y, ymd_month = m, ymd_day = d\<rparr>"
proof -
  define Y where "Y = march_year y m"
  define w where "w = day_of_year m d"
  define b where "b = Y div 100"
  define e where "e = Y mod 100"
  from c have m: "1 \<le> m" "m \<le> 12" by (simp_all add: civil_def)
  have Y: "0 \<le> Y" "Y = 100 * b + e" "0 \<le> b" "0 \<le> e" "e \<le> 99"
    using march_year_nonneg[OF assms(2)] pos_mod_bound[of 100 Y]
    by (simp_all add: Y_def[symmetric] b_def e_def pos_imp_zdiv_nonneg_iff)
  have w: "0 \<le> w" "w \<le> 365" "w = 365 \<Longrightarrow> m \<le> 2 \<and> leap_year y"
    using day_of_year_range[OF c] by (simp_all add: w_def)
  have last: "w = 365 \<longrightarrow> e mod 4 = 3 \<and> (e = 99 \<longrightarrow> b mod 4 = 3)"
  proof
    assume "w = 365"
    from w(3)[OF this] have "Y = y + 4799" and l: "leap_year y"
      by (simp_all add: Y_def march_year_def)
    then have y: "y = 100 * b + e - 4799" using Y(2) by simp
    from l obtain k where "y = 4 * k" by (auto simp: leap_year_def)
    with y have "e = 4 * (k + 1199 - 25 * b) + 3" by simp
    then have 1: "e mod 4 = 3" by (simp only: mod_mult_self4) simp
    moreover have "b mod 4 = 3" if "e = 99"
    proof -
      from that y have y': "y = 100 * (b - 47)" by simp
      then have "100 dvd y" by simp
      with l have "400 dvd y" by (simp add: leap_year_def)
      then obtain j where "y = 400 * j" by (elim dvdE)
      with y' have "b = 4 * (j + 11) + 3" by simp
      then show ?thesis by (simp only: mod_mult_self4) simp
    qed
    ultimately show "e mod 4 = 3 \<and> (e = 99 \<longrightarrow> b mod 4 = 3)" by simp
  qed
  note core = centuries_and_years[OF Y(3,4,5) w(1,2) last]
  have J: "getJulianDayNumber y m d + 32044 = 36524 * b + b div 4 + (365 * e + e div 4 + w)"
  proof -
    have "Y div 4 = 25 * b + e div 4" "Y div 400 = b div 4"
      unfolding Y(2) using Y(4,5) by (simp_all add: zdiv_zmult2_eq[of 4 _ 100, simplified])
    then show ?thesis
      unfolding day_number_march[OF m assms(2)] Y_def[symmetric] w_def[symmetric] b_def[symmetric]
      using Y(2) by simp
  qed
  have dom: "0 \<le> 36524 * b + b div 4 + (365 * e + e div 4 + w)" "0 \<le> 365 * e + e div 4 + w"
    using Y(3,4) w(1) by (simp_all add: pos_imp_zdiv_nonneg_iff)
  have mm: "0 \<le> march_month m" "march_month m sdiv 10 = (if m \<le> 2 then 1 else 0)"
    using month_split[OF m] by (elim disjE; simp add: march_month_def)+
  have ymd: "march_month m + 3 - 12 * (if m \<le> 2 then 1 else 0) = m"
    "b * 100 + e = y + 4800 - (if m \<le> 2 then 1 else 0)"
    "w - (153 * march_month m + 2) div 5 + 1 = d"
    using Y(2) by (auto simp add: march_month_def Y_def march_year_def w_def day_of_year_def split: if_splits)
  have dom': "0 \<le> 4 * (36524 * b + b div 4 + (365 * e + e div 4 + w)) + 3"
    "0 \<le> b * 146097" "0 \<le> 4 * (365 * e + e div 4 + w) + 3" "0 \<le> 1461 * e"
    "0 \<le> 5 * w + 2" "0 \<le> 153 * march_month m + 2"
    using dom Y(3,4) w(1) mm(1) by (auto intro: add_nonneg_nonneg)
  note sdivs = dom'[THEN sdiv_nonneg, OF zero_less_numeral]
  show ?thesis
    unfolding getYearMonthDay_def Let_def J sdivs core add_diff_cancel_left'
      month_of_day[OF c, folded w_def] mm(2) ymd
    by simp
qed


text \<open>Every day number from the origin on is the number of a date.\<close>

lemma day_number_surj:
  "\<exists>y m d. civil y m d \<and> from_origin y m \<and> getJulianDayNumber y m d = int n - 32044"
proof (induction n)
  case 0
  have "civil (-4800) 3 1 \<and> from_origin (-4800) 3 \<and> getJulianDayNumber (-4800) 3 1 = - 32044"
    by (simp add: civil_def from_origin_def days_in_month_def getJulianDayNumber_def)
  then show ?case by fastforce
next
  case (Suc n)
  then obtain y m d where *: "civil y m d" "from_origin y m" "getJulianDayNumber y m d = int n - 32044"
    by blast
  obtain y' m' d' where n: "next_date (y, m, d) = (y', m', d')" by (cases "next_date (y, m, d)")
  from next_date_civil[OF *(1) n] next_date_origin[OF *(2) n] next_day_number[OF *(1,2) n] *(3)
  show ?case by fastforce
qed

lemma civil_of_day_number_valid:
  assumes "- 32044 \<le> j"
  defines "t \<equiv> getYearMonthDay j"
  shows "civil (ymd_year t) (ymd_month t) (ymd_day t)" "from_origin (ymd_year t) (ymd_month t)"
    "getJulianDayNumber (ymd_year t) (ymd_month t) (ymd_day t) = j"
proof -
  obtain y m d where "civil y m d" "from_origin y m" "getJulianDayNumber y m d = j"
    using day_number_surj[of "nat (j + 32044)"] assms(1) by auto
  with civil_of_day_number[of y m d] show "civil (ymd_year t) (ymd_month t) (ymd_day t)"
    "from_origin (ymd_year t) (ymd_month t)"
    "getJulianDayNumber (ymd_year t) (ymd_month t) (ymd_day t) = j"
    unfolding t_def by auto
qed


section \<open>Bounds and properties\<close>

definition int32 :: "int \<Rightarrow> bool" where
  "int32 x = (- (2 ^ 31) \<le> x \<and> x < 2 ^ 31)"

lemma div_le_self: "0 \<le> (a :: int) \<Longrightarrow> 0 < k \<Longrightarrow> 0 \<le> a div k \<and> a div k \<le> a"
  using zdiv_mono2[of a 1 k] by (simp add: pos_imp_zdiv_nonneg_iff)

lemma civil_in_range:
  assumes "- 32044 \<le> j" "j \<le> 500000000"
  defines "a \<equiv> j + 32044"
  defines "b \<equiv> (4 * a + 3) div 146097"
  shows "int32 (4 * a + 3) \<and> int32 (b * 146097)"
proof -
  have "0 \<le> 4 * a + 3" "4 * a + 3 \<le> 2000128179" using assms(1,2) by (simp_all add: a_def)
  moreover have "b * 146097 \<le> 4 * a + 3" "0 \<le> b"
    using \<open>0 \<le> 4 * a + 3\<close> unfolding b_def
    by (simp_all add: pos_imp_zdiv_nonneg_iff minus_mod_eq_div_mult[symmetric])
  ultimately show ?thesis by (simp add: int32_def)
qed

lemma day_number_in_range:
  assumes "1 \<le> m" "m \<le> 12" "1 \<le> d" "d \<le> 31" "from_origin y m" "y \<le> 5000000"
  shows "int32 (getJulianDayNumber y m d)" "int32 (march_year y m * 365)"
proof -
  define Y where "Y = march_year y m"
  have Y: "0 \<le> Y" "Y \<le> 5004800"
    using march_year_nonneg[OF assms(5)] assms(6) by (auto simp: Y_def march_year_def)
  have "0 \<le> day_of_year m d" "day_of_year m d \<le> 367"
    using month_split[OF assms(1,2)] assms(3,4)
    by (elim disjE; simp add: day_of_year_def march_month_def)+
  moreover have "0 \<le> Y div 4 \<and> Y div 4 \<le> Y" "0 \<le> Y div 100 \<and> Y div 100 \<le> Y"
    "0 \<le> Y div 400 \<and> Y div 400 \<le> Y"
    using Y(1) by (simp_all add: div_le_self)
  ultimately show "int32 (getJulianDayNumber y m d)" "int32 (march_year y m * 365)"
    using Y unfolding day_number_march[OF assms(1,2,5)] Y_def[symmetric] int32_def by simp_all
qed



text \<open>
  The day numbers count the days of the calendar: the date that follows a date has the next
  number and the next day of the week. 1 January 1970, a Thursday, has the number 2440588.
\<close>

theorem date_counts_days:
  assumes "civil y m d" "from_origin y m" "next_date (y, m, d) = (y', m', d')"
    and "0 \<le> getJulianDayNumber y m d"
  shows "julianDayNumber (date_ymd y' m' d') = julianDayNumber (date_ymd y m d) + 1 \<and>
    weekDay (date_ymd y' m' d') = (weekDay (date_ymd y m d) + 1) mod 7 \<and>
    kJulianDayOf1970_01_01 = 2440588 \<and> weekDay (Date kJulianDayOf1970_01_01) = 4"
proof -
  note n = next_day_number[OF assms(1,2,3)]
  have k: "kJulianDayOf1970_01_01 = 2440588"
    by (simp add: kJulianDayOf1970_01_01_def getJulianDayNumber_def)
  moreover have "weekDay (Date kJulianDayOf1970_01_01) = 4"
    unfolding k by (simp add: weekDay_def kDaysPerWeek_def)
  ultimately show ?thesis
    using n assms(4) by (simp add: weekDay_def date_ymd_def kDaysPerWeek_def mod_simps add.commute)
qed

theorem date_counts_days_witness:
  "julianDayNumber (date_ymd 2022 3 1) = julianDayNumber (date_ymd 2022 2 28) + 1 \<and>
   weekDay (date_ymd 2022 3 1) = (weekDay (date_ymd 2022 2 28) + 1) mod 7 \<and>
   kJulianDayOf1970_01_01 = 2440588 \<and> weekDay (Date kJulianDayOf1970_01_01) = 4"
  by (rule date_counts_days)
    (simp_all add: civil_def days_in_month_def leap_year_def from_origin_def getJulianDayNumber_def)

end
