(* ===== verification/TimeZone.thy ===== *)
theory TimeZone
  imports Date Endian
begin

text \<open>
  Time zones (src/zing/base/TimeZone.h and TimeZone.cpp): reading a TZif file, finding the local
  time in force at a moment, and the conversions between seconds since the epoch and broken-down
  times. \<open>time_t\<close> and \<open>int\<close> are unbounded integers, except where the code casts to \<open>int\<close>
  explicitly, which keeps the low 32 bits. A file is the list of its bytes; there is memory enough
  for what \<open>reserve\<close> asks for up to \<open>INT_MAX\<close>. The two functions of the C library, \<open>gmtime_r\<close>
  and \<open>timegm\<close>, are given by the calendar of theory Date.
\<close>

section \<open>Broken-down times\<close>

record tm =
  tm_sec :: int
  tm_min :: int
  tm_hour :: int
  tm_mday :: int
  tm_mon :: int
  tm_year :: int
  tm_wday :: int
  tm_yday :: int
  tm_isdst :: int
  tm_gmtoff :: int
  tm_zone :: "byte list"

definition str_bytes :: "string \<Rightarrow> byte list" where
  "str_bytes s = map of_char s"

text \<open>What \<open>memZero\<close> leaves; the zone is a null pointer, shown here as the empty text.\<close>

definition tm_zero :: tm where
  "tm_zero = \<lparr>tm_sec = 0, tm_min = 0, tm_hour = 0, tm_mday = 0, tm_mon = 0, tm_year = 0, tm_wday = 0,
     tm_yday = 0, tm_isdst = 0, tm_gmtoff = 0, tm_zone = []\<rparr>"

definition int_cast :: "int \<Rightarrow> int" where
  "int_cast x = sint (word_of_int x :: 32 word)"

text \<open>
  The C library: the broken-down time of a count of seconds in UTC, and back. \<open>timegm\<close> accepts
  fields outside their ranges.
\<close>

definition gmtime_r :: "int \<Rightarrow> tm" where
  "gmtime_r t =
     (let days = t div 86400; s = t mod 86400; ymd = getYearMonthDay (days + 2440588)
      in \<lparr>tm_sec = s mod 60, tm_min = s div 60 mod 60, tm_hour = s div 3600,
          tm_mday = ymd_day ymd, tm_mon = ymd_month ymd - 1, tm_year = ymd_year ymd - 1900,
          tm_wday = (days + 4) mod 7,
          tm_yday = days + 2440588 - getJulianDayNumber (ymd_year ymd) 1 1,
          tm_isdst = 0, tm_gmtoff = 0, tm_zone = str_bytes ''GMT''\<rparr>)"

definition timegm :: "tm \<Rightarrow> int" where
  "timegm t =
     (getJulianDayNumber (tm_year t + 1900 + tm_mon t div 12) (tm_mon t mod 12 + 1) 1
        + tm_mday t - 1 - 2440588) * 86400
     + tm_hour t * 3600 + tm_min t * 60 + tm_sec t"

text \<open>The constructor of \<open>Date\<close> from a broken-down time.\<close>

definition date_of_tm :: "tm \<Rightarrow> date" where
  "date_of_tm t = Date (getJulianDayNumber (tm_year t + 1900) (tm_mon t + 1) (tm_mday t))"

section \<open>Transitions and local times\<close>

record transition =
  gmttime :: int
  localtime :: int
  localtimeIdx :: int

datatype comp = Comp (compareGmt: bool)

definition comp_less :: "comp \<Rightarrow> transition \<Rightarrow> transition \<Rightarrow> bool" where
  "comp_less c lhs rhs =
     (if compareGmt c then gmttime lhs < gmttime rhs else localtime lhs < localtime rhs)"

definition comp_equal :: "comp \<Rightarrow> transition \<Rightarrow> transition \<Rightarrow> bool" where
  "comp_equal c lhs rhs =
     (if compareGmt c then gmttime lhs = gmttime rhs else localtime lhs = localtime rhs)"

record local_time =
  gmtOffset :: int
  isDst :: bool
  arrbIdx :: int

definition fillHMS :: "32 word \<Rightarrow> tm \<Rightarrow> tm" where
  "fillHMS seconds utc =
     (let minutes = seconds div 60
      in utc\<lparr>tm_sec := uint (seconds mod 60), tm_min := uint (minutes mod 60),
             tm_hour := uint (minutes div 60)\<rparr>)"

definition kSecondsPerDay :: int where
  "kSecondsPerDay = 24 * 60 * 60"

record zone_data =
  transitions :: "transition list"
  localtimes :: "local_time list"
  names :: "string list"
  abbreviations :: "byte list"

definition new_data :: zone_data where
  "new_data = \<lparr>transitions = [], localtimes = [], names = [], abbreviations = []\<rparr>"

section \<open>Reading a file\<close>

text \<open>
  A reader takes the bytes not yet read. \<open>char buf[n]\<close> with a negative \<open>n\<close> is undefined.
\<close>

definition readBytes :: "int \<Rightarrow> byte list \<Rightarrow> (byte list \<times> byte list) result" where
  "readBytes n rest =
     (if n < 0 then Inl Undefined
      else if length rest < nat n then Inl (LogicError ''no enough data'')
      else Inr (take (nat n) rest, drop (nat n) rest))"

definition tz_readInt32 :: "byte_order \<Rightarrow> byte list \<Rightarrow> (int \<times> byte list) result" where
  "tz_readInt32 host rest =
     (if length rest < 4 then Inl (LogicError ''bad int32_t data'')
      else let x = mem_read host (take 4 rest) :: 32 word
           in Inr (sint (htobe host x), drop 4 rest))"

definition readUInt8 :: "byte list \<Rightarrow> (int \<times> byte list) result" where
  "readUInt8 rest =
     (case rest of [] \<Rightarrow> Inl (LogicError ''bad uint8_t data'') | x # r \<Rightarrow> Inr (uint x, r))"

text \<open>The loops over the transition times and over the indices, \<open>timecnt\<close> rounds each.\<close>

fun read_trans :: "byte_order \<Rightarrow> nat \<Rightarrow> byte list \<Rightarrow> (int list \<times> byte list) result" where
  "read_trans host 0 rest = Inr ([], rest)"
| "read_trans host (Suc n) rest =
     rbind (tz_readInt32 host rest) (\<lambda>(x, r).
     rbind (read_trans host n r) (\<lambda>(xs, r'). Inr (x # xs, r')))"

fun read_idxs :: "nat \<Rightarrow> byte list \<Rightarrow> (int list \<times> byte list) result" where
  "read_idxs 0 rest = Inr ([], rest)"
| "read_idxs (Suc n) rest =
     rbind (readUInt8 rest) (\<lambda>(x, r).
     rbind (read_idxs n r) (\<lambda>(xs, r'). Inr (x # xs, r')))"

text \<open>
  The steps that write into \<open>*data\<close>: an exception leaves in \<open>*data\<close> what was pushed before, so an
  error carries the data along.
\<close>

type_synonym 'a data_result = "(error \<times> zone_data) + 'a"

definition with_data :: "zone_data \<Rightarrow> 'a result \<Rightarrow> ('a \<Rightarrow> 'b data_result) \<Rightarrow> 'b data_result" where
  "with_data d r f = (case r of Inl e \<Rightarrow> Inl (e, d) | Inr x \<Rightarrow> f x)"

lemma with_data_simps [simp]:
  "with_data d (Inl e) f = Inl (e, d)" "with_data d (Inr x) f = f x"
  by (simp_all add: with_data_def)

fun read_types :: "byte_order \<Rightarrow> nat \<Rightarrow> byte list \<Rightarrow> zone_data \<Rightarrow> (byte list \<times> zone_data) data_result" where
  "read_types host 0 rest d = Inr (rest, d)"
| "read_types host (Suc n) rest d =
     with_data d (tz_readInt32 host rest) (\<lambda>(gmtoff, r1).
     with_data d (readUInt8 r1) (\<lambda>(isdst, r2).
     with_data d (readUInt8 r2) (\<lambda>(abbrind, r3).
     read_types host n r3
       (d\<lparr>localtimes := localtimes d @ [\<lparr>gmtOffset = gmtoff, isDst = (isdst \<noteq> 0), arrbIdx = abbrind\<rparr>]\<rparr>))))"

fun push_transitions :: "(int \<times> int) list \<Rightarrow> zone_data \<Rightarrow> zone_data data_result" where
  "push_transitions [] d = Inr d"
| "push_transitions ((t, localIdx) # r) d =
     (if 0 \<le> localIdx \<and> nat localIdx < length (localtimes d)
      then push_transitions r
        (d\<lparr>transitions := transitions d @
            [\<lparr>gmttime = t, localtime = t + gmtOffset (localtimes d ! nat localIdx), localtimeIdx = localIdx\<rparr>]\<rparr>)
      else Inl (Undefined, d))"

text \<open>
  The \<open>try\<close> block. \<open>reserve\<close> of a negative count asks for more than \<open>max_size\<close> elements and throws
  \<open>length_error\<close>. The loop over the leap seconds has an empty body.
\<close>

definition read_zone :: "byte_order \<Rightarrow> byte list \<Rightarrow> zone_data \<Rightarrow> zone_data data_result" where
  "read_zone host f d =
     with_data d (readBytes 4 f) (\<lambda>(head, f).
     if head \<noteq> str_bytes ''TZif'' then Inl (LogicError ''bad head'', d)
     else
     with_data d (readBytes 1 f) (\<lambda>(version, f).
     with_data d (readBytes 15 f) (\<lambda>(_, f).
     with_data d (tz_readInt32 host f) (\<lambda>(isgmtcnt, f).
     with_data d (tz_readInt32 host f) (\<lambda>(isstdcnt, f).
     with_data d (tz_readInt32 host f) (\<lambda>(leapcnt, f).
     with_data d (tz_readInt32 host f) (\<lambda>(timecnt, f).
     with_data d (tz_readInt32 host f) (\<lambda>(typecnt, f).
     with_data d (tz_readInt32 host f) (\<lambda>(charcnt, f).
     if timecnt < 0 then Inl (LengthError, d)
     else
     with_data d (read_trans host (nat timecnt) f) (\<lambda>(trans, f).
     with_data d (read_idxs (nat timecnt) f) (\<lambda>(idxs, f).
     case read_types host (nat typecnt) f d of
       Inl e \<Rightarrow> Inl e
     | Inr (f, d1) \<Rightarrow>
        (case push_transitions (zip trans idxs) d1 of
           Inl e \<Rightarrow> Inl e
         | Inr d2 \<Rightarrow>
             with_data d2 (readBytes charcnt f) (\<lambda>(abbr, _). Inr (d2\<lparr>abbreviations := abbr\<rparr>))))))))))))))"

text \<open>\<open>length_error\<close> is a \<open>logic_error\<close>.\<close>

fun is_logic_error :: "error \<Rightarrow> bool" where
  "is_logic_error (LogicError what) = True"
| "is_logic_error LengthError = True"
| "is_logic_error _ = False"

definition readTimeZoneFile :: "byte_order \<Rightarrow> byte list option \<Rightarrow> zone_data \<Rightarrow> (bool \<times> zone_data) result" where
  "readTimeZoneFile host zonefile d =
     (case zonefile of
        None \<Rightarrow> Inr (True, d)
      | Some f \<Rightarrow>
         (case read_zone host f d of
            Inr d' \<Rightarrow> Inr (True, d')
          | Inl (e, d') \<Rightarrow> if is_logic_error e then Inr (True, d') else Inl e))"

section \<open>Finding the local time\<close>

text \<open>\<open>std::lower_bound\<close>: the binary search of the standard library, on positions of a vector.\<close>

function lower_bound_from :: "('a \<Rightarrow> 'a \<Rightarrow> bool) \<Rightarrow> 'a list \<Rightarrow> 'a \<Rightarrow> nat \<Rightarrow> nat \<Rightarrow> nat" where
  "lower_bound_from lt xs x start len =
     (if len = 0 then start
      else let half = len div 2; middle = start + half
           in if lt (xs ! middle) x then lower_bound_from lt xs x (middle + 1) (len - half - 1)
              else lower_bound_from lt xs x start half)"
  by pat_completeness auto
termination by (relation "measure (\<lambda>(lt, xs, x, start, len). len)") auto

declare lower_bound_from.simps [simp del]

definition lower_bound :: "('a \<Rightarrow> 'a \<Rightarrow> bool) \<Rightarrow> 'a list \<Rightarrow> 'a \<Rightarrow> nat" where
  "lower_bound lt xs x = lower_bound_from lt xs x 0 (length xs)"

text \<open>\<open>data.localtimes[i]\<close>, and \<open>front()\<close> for \<open>i = 0\<close>: undefined out of range.\<close>

definition localtime_at :: "zone_data \<Rightarrow> int \<Rightarrow> local_time result" where
  "localtime_at d i =
     (if 0 \<le> i \<and> nat i < length (localtimes d) then Inr (localtimes d ! nat i) else Inl Undefined)"

definition findLocaltime :: "zone_data \<Rightarrow> transition \<Rightarrow> comp \<Rightarrow> local_time result" where
  "findLocaltime d sentry c =
     (if transitions d = [] \<or> comp_less c sentry (hd (transitions d))
      then localtime_at d 0
      else let transI = lower_bound (comp_less c) (transitions d) sentry
           in if transI < length (transitions d)
              then if \<not> comp_equal c sentry (transitions d ! transI)
                   then if transI = 0 then Inl AssertFail
                        else localtime_at d (localtimeIdx (transitions d ! (transI - 1)))
                   else localtime_at d (localtimeIdx (transitions d ! transI))
              else localtime_at d (localtimeIdx (last (transitions d))))"

section \<open>Time zones\<close>

text \<open>The shared pointer to the data; a default-constructed zone has none.\<close>

type_synonym time_zone = "zone_data option"

definition tz_default :: time_zone where
  "tz_default = None"

definition tz_file :: "byte_order \<Rightarrow> byte list option \<Rightarrow> time_zone result" where
  "tz_file host zonefile =
     rbind (readTimeZoneFile host zonefile new_data) (\<lambda>(ok, d). Inr (if \<not> ok then None else Some d))"

definition tz_fixed :: "int \<Rightarrow> byte list \<Rightarrow> time_zone" where
  "tz_fixed eastOfUtc name =
     Some (new_data\<lparr>localtimes := [\<lparr>gmtOffset = eastOfUtc, isDst = False, arrbIdx = 0\<rparr>], abbreviations := name\<rparr>)"

definition tz_valid :: "time_zone \<Rightarrow> bool" where
  "tz_valid z = (z \<noteq> None)"

text \<open>The text that starts at a place of a \<open>std::string\<close>, up to the first NUL.\<close>

definition c_text :: "byte list \<Rightarrow> nat \<Rightarrow> byte list" where
  "c_text s i = takeWhile (\<lambda>b. b \<noteq> 0) (drop i s)"

definition toLocalTime :: "time_zone \<Rightarrow> int \<Rightarrow> tm result" where
  "toLocalTime z seconds =
     (case z of
        None \<Rightarrow> Inl AssertFail
      | Some d \<Rightarrow>
          rbind (findLocaltime d \<lparr>gmttime = seconds, localtime = 0, localtimeIdx = 0\<rparr> (Comp True)) (\<lambda>local.
          let localSeconds = seconds + gmtOffset local;
              localTime = gmtime_r localSeconds
          in if length (abbreviations d) < nat (arrbIdx local) then Inl Undefined
             else Inr (localTime\<lparr>tm_isdst := (if isDst local then 1 else 0), tm_gmtoff := gmtOffset local,
               tm_zone := c_text (abbreviations d) (nat (arrbIdx local))\<rparr>)))"

definition fromLocalTime :: "time_zone \<Rightarrow> tm \<Rightarrow> int result" where
  "fromLocalTime z localTm =
     (case z of
        None \<Rightarrow> Inl AssertFail
      | Some d \<Rightarrow>
          (let seconds = timegm localTm
           in rbind (findLocaltime d \<lparr>gmttime = 0, localtime = seconds, localtimeIdx = 0\<rparr> (Comp False)) (\<lambda>local.
              if tm_isdst localTm \<noteq> 0
              then rbind (toLocalTime z (seconds - gmtOffset local)) (\<lambda>tryTm.
                let seconds' = (if tm_isdst tryTm = 0 \<and> tm_hour tryTm = tm_hour localTm
                                  \<and> tm_min tryTm = tm_min localTm
                                then seconds - 3600 else seconds)
                in Inr (seconds' - gmtOffset local))
              else Inr (seconds - gmtOffset local))))"

definition toUtcTime :: "int \<Rightarrow> bool \<Rightarrow> tm" where
  "toUtcTime secondsSinceEpoch yday =
     (let utc = tm_zero\<lparr>tm_zone := str_bytes ''GMT''\<rparr>;
          seconds = int_cast (secondsSinceEpoch smod kSecondsPerDay);
          days = int_cast (secondsSinceEpoch sdiv kSecondsPerDay);
          (seconds, days) = (if seconds < 0 then (seconds + kSecondsPerDay, days - 1) else (seconds, days));
          utc = fillHMS (word_of_int seconds) utc;
          date = Date (days + kJulianDayOf1970_01_01);
          ymd = yearMonthDay date;
          utc = utc\<lparr>tm_year := ymd_year ymd - 1900, tm_mon := ymd_month ymd - 1, tm_mday := ymd_day ymd,
                    tm_wday := weekDay date\<rparr>
      in if yday
         then let startOfYear = date_ymd (ymd_year ymd) 1 1
              in utc\<lparr>tm_yday := julianDayNumber date - julianDayNumber startOfYear\<rparr>
         else utc)"

definition fromUtcTime_ymd :: "int \<Rightarrow> int \<Rightarrow> int \<Rightarrow> int \<Rightarrow> int \<Rightarrow> int \<Rightarrow> int" where
  "fromUtcTime_ymd year month day hour minute seconds =
     (let date = date_ymd year month day;
          secondsInDay = hour * 3600 + minute * 60 + seconds;
          days = julianDayNumber date - kJulianDayOf1970_01_01
      in days * kSecondsPerDay + secondsInDay)"

definition fromUtcTime :: "tm \<Rightarrow> int" where
  "fromUtcTime utc =
     fromUtcTime_ymd (tm_year utc + 1900) (tm_mon utc + 1) (tm_mday utc) (tm_hour utc) (tm_min utc) (tm_sec utc)"


section \<open>Finding the local time: what the search returns\<close>

text \<open>
  The search keeps two facts whatever the order of the list: the element before the range was
  found smaller, the element after it was not.
\<close>

lemma lower_bound_from_spec:
  assumes "start + len \<le> length xs"
    and "start = 0 \<or> lt (xs ! (start - 1)) x"
    and "start + len = length xs \<or> \<not> lt (xs ! (start + len)) x"
  defines "r \<equiv> lower_bound_from lt xs x start len"
  shows "r \<le> length xs \<and> (r = 0 \<or> lt (xs ! (r - 1)) x) \<and> (r = length xs \<or> \<not> lt (xs ! r) x)"
  using assms(1-3) unfolding r_def
proof (induction lt xs x start len rule: lower_bound_from.induct)
  case (1 lt xs x start len)
  show ?case
  proof (cases "len = 0")
    case True
    with "1.prems" show ?thesis by (simp add: lower_bound_from.simps)
  next
    case False
    define half where "half = len div 2"
    have h: "half < len" using False by (simp add: half_def)
    note unf = lower_bound_from.simps[of lt xs x start len]
    show ?thesis
    proof (cases "lt (xs ! (start + half)) x")
      case True
      have "start + half + 1 + (len - half - 1) = start + len" using h by simp
      with 1 False True h show ?thesis by (simp add: unf Let_def half_def)
    next
      case False
      with 1 \<open>len \<noteq> 0\<close> h show ?thesis by (simp add: unf Let_def half_def)
    qed
  qed
qed

lemma lower_bound_spec:
  fixes lt :: "'a \<Rightarrow> 'a \<Rightarrow> bool" and xs :: "'a list" and x :: 'a
  defines "r \<equiv> lower_bound lt xs x"
  shows "r \<le> length xs \<and> (r = 0 \<or> lt (xs ! (r - 1)) x) \<and> (r = length xs \<or> \<not> lt (xs ! r) x)"
  unfolding r_def lower_bound_def by (rule lower_bound_from_spec) simp_all

definition tr_key :: "comp \<Rightarrow> transition \<Rightarrow> int" where
  "tr_key c t = (if compareGmt c then gmttime t else localtime t)"

lemma comp_less_key: "comp_less c s t \<longleftrightarrow> tr_key c s < tr_key c t"
  and comp_equal_key: "comp_equal c s t \<longleftrightarrow> tr_key c s = tr_key c t"
  by (simp_all add: comp_less_def comp_equal_def tr_key_def)

definition zone_indices :: "zone_data \<Rightarrow> bool" where
  "zone_indices d = (localtimes d \<noteq> [] \<and>
     (\<forall>t \<in> set (transitions d). 0 \<le> localtimeIdx t \<and> nat (localtimeIdx t) < length (localtimes d)))"

text \<open>The local time after the last transition that is not later than \<open>k\<close>, by going through all.\<close>

definition last_local :: "zone_data \<Rightarrow> comp \<Rightarrow> int \<Rightarrow> local_time" where
  "last_local d c k =
     (let past = filter (\<lambda>t. tr_key c t \<le> k) (transitions d)
      in localtimes d ! (if past = [] then 0 else nat (localtimeIdx (last past))))"

lemma localtime_at_ok [simp]:
  "zone_indices d \<Longrightarrow> t \<in> set (transitions d) \<Longrightarrow>
   localtime_at d (localtimeIdx t) = Inr (localtimes d ! nat (localtimeIdx t))"
  "zone_indices d \<Longrightarrow> localtime_at d 0 = Inr (localtimes d ! 0)"
  by (simp_all add: localtime_at_def zone_indices_def)

text \<open>For sorted transitions the past is a prefix.\<close>

lemma filter_prefix:
  assumes "sorted_wrt (\<lambda>a b. f a < f b) xs" "i < length xs" "f (xs ! i) \<le> (k :: int)"
    "i + 1 = length xs \<or> k < f (xs ! (i + 1))"
  shows "filter (\<lambda>t. f t \<le> k) xs = take (i + 1) xs"
proof -
  have before: "f (xs ! j) \<le> k" if "j \<le> i" for j
    using assms(1-3) that sorted_wrt_nth_less[OF assms(1), of j i] by (cases "j = i") auto
  have after: "k < f (xs ! j)" if "i < j" "j < length xs" for j
    using assms(4) that sorted_wrt_nth_less[OF assms(1), of "i + 1" j] by (cases "j = i + 1") auto
  have "filter (\<lambda>t. f t \<le> k) (take (i + 1) xs) = take (i + 1) xs"
    using before assms(2) by (auto simp: filter_id_conv in_set_conv_nth)
  moreover have "filter (\<lambda>t. f t \<le> k) (drop (i + 1) xs) = []"
  proof -
    have "\<not> f t \<le> k" if "t \<in> set (drop (i + 1) xs)" for t
    proof -
      from that obtain j where "j < length (drop (i + 1) xs)" "t = drop (i + 1) xs ! j"
        by (auto simp: in_set_conv_nth)
      then show ?thesis using after[of "i + 1 + j"] assms(2) by (simp add: less_diff_conv)
    qed
    then show ?thesis by (simp add: filter_empty_conv)
  qed
  ultimately show ?thesis
    by (metis append.right_neutral append_take_drop_id filter_append)
qed

lemma last_localI:
  assumes "sorted_wrt (\<lambda>a b. tr_key c a < tr_key c b) (transitions d)"
    and i: "i < length (transitions d)" "tr_key c (transitions d ! i) \<le> k"
    "i + 1 = length (transitions d) \<or> k < tr_key c (transitions d ! (i + 1))"
  shows "last_local d c k = localtimes d ! nat (localtimeIdx (transitions d ! i))"
proof -
  have "filter (\<lambda>t. tr_key c t \<le> k) (transitions d) = take (i + 1) (transitions d)"
    by (rule filter_prefix[OF assms])
  moreover have "last (take (i + 1) (transitions d)) = transitions d ! i"
    using i(1) by (simp add: take_Suc_conv_app_nth)
  moreover have "take (i + 1) (transitions d) \<noteq> []" using i(1) by auto
  ultimately show ?thesis by (simp add: last_local_def Let_def)
qed


text \<open>
  C33. For transitions in order the binary search finds what a walk through all of them finds: the local
  time after the last transition that is not later. No assertion fails and nothing is read out of
  range.
\<close>

theorem findLocaltime_last:
  assumes "zone_indices d"
    and "sorted_wrt (\<lambda>a b. tr_key c a < tr_key c b) (transitions d)"
  shows "findLocaltime d sentry c = Inr (last_local d c (tr_key c sentry))"
proof (cases "transitions d = [] \<or> comp_less c sentry (hd (transitions d))")
  case True
  have "filter (\<lambda>t. tr_key c t \<le> tr_key c sentry) (transitions d) = []"
  proof (cases "transitions d")
    case (Cons t ts)
    with True assms(2) show ?thesis by (auto simp: comp_less_key filter_empty_conv)
  qed simp
  with True assms(1) show ?thesis by (simp add: findLocaltime_def last_local_def)
next
  case False
  let ?T = "transitions d" and ?r = "lower_bound (comp_less c) (transitions d) sentry"
  let ?k = "tr_key c sentry"
  have r: "?r \<le> length ?T" "?r = 0 \<or> tr_key c (?T ! (?r - 1)) < ?k"
    "?r = length ?T \<or> ?k \<le> tr_key c (?T ! ?r)"
    using lower_bound_spec[of "comp_less c" ?T sentry] by (auto simp: comp_less_key)
  have hd: "tr_key c (?T ! 0) \<le> ?k"
    using False by (auto simp add: comp_less_key hd_conv_nth)
  note last = last_localI[OF assms(2)]
  show ?thesis
  proof (cases "?r < length ?T \<and> tr_key c (?T ! ?r) = ?k")
    case True
    then have "?r + 1 = length ?T \<or> ?k < tr_key c (?T ! (?r + 1))"
      using sorted_wrt_nth_less[OF assms(2), of ?r "?r + 1"]
      by (cases "?r + 1 < length ?T") auto
    with True last[of ?r ?k] assms(1) False show ?thesis
      by (simp add: findLocaltime_def Let_def comp_equal_key)
  next
    case neq: False
    with r hd False have r0: "0 < ?r" by (cases "?r = 0") auto
    have i: "?r - 1 < length ?T" "tr_key c (?T ! (?r - 1)) \<le> ?k"
      "?r - 1 + 1 = length ?T \<or> ?k < tr_key c (?T ! (?r - 1 + 1))"
      using r r0 neq by auto
    have "last ?T = ?T ! (?r - 1)" if "?r = length ?T"
      using that False by (simp add: last_conv_nth)
    with last[OF i] i(1) r(1) r0 neq assms(1) False show ?thesis
      by (auto simp: findLocaltime_def Let_def comp_equal_key)
  qed
qed

theorem findLocaltime_last_witness:
  "findLocaltime
     \<lparr>transitions = [\<lparr>gmttime = 10, localtime = 3610, localtimeIdx = 1\<rparr>, \<lparr>gmttime = 7000, localtime = 7000, localtimeIdx = 0\<rparr>],
      localtimes = [\<lparr>gmtOffset = 0, isDst = False, arrbIdx = 0\<rparr>, \<lparr>gmtOffset = 3600, isDst = True, arrbIdx = 4\<rparr>],
      names = [], abbreviations = []\<rparr>
     \<lparr>gmttime = 6999, localtime = 0, localtimeIdx = 0\<rparr> (Comp True)
   = Inr \<lparr>gmtOffset = 3600, isDst = True, arrbIdx = 4\<rparr>"
  by (subst findLocaltime_last) (simp_all add: zone_indices_def tr_key_def last_local_def)

section \<open>Times in UTC\<close>

lemma trunc_to_floor:
  fixes t k :: int
  assumes "0 < k"
  shows "(if t smod k < 0 then (t smod k + k, t sdiv k - 1) else (t smod k, t sdiv k)) = (t mod k, t div k)"
proof (cases "0 \<le> t")
  case True
  with assms show ?thesis by (simp add: leD)
next
  case False
  have sd: "t sdiv k = - ((- t) div k)" "t smod k = - ((- t) mod k)"
    using assms False by (simp_all add: signed_divide_int_def signed_modulo_int_def)
  have "(- t) mod k = 0 \<Longrightarrow> t mod k = 0 \<and> t div k = - ((- t) div k)"
    using zdiv_zminus1_eq_if[of k "- t"] zmod_zminus1_eq_if[of "- t" k] assms by simp
  moreover have "(- t) mod k \<noteq> 0 \<Longrightarrow> t mod k = k - (- t) mod k \<and> t div k = - ((- t) div k) - 1"
    using zdiv_zminus1_eq_if[of k "- t"] zmod_zminus1_eq_if[of "- t" k] assms by simp
  moreover have "0 \<le> (- t) mod k" using assms by simp
  ultimately show ?thesis
    unfolding sd by (cases "(- t) mod k = 0") auto
qed


lemma int_cast_id: "int32 x \<Longrightarrow> int_cast x = x"
  by (simp add: int_cast_def int32_def sint_sbintrunc' signed_take_bit_int_eq_self)

lemma fillHMS_fields:
  assumes "0 \<le> s" "s < 86400"
  shows "fillHMS (word_of_int s) u =
    u\<lparr>tm_sec := s mod 60, tm_min := s div 60 mod 60, tm_hour := s div 3600\<rparr>"
proof -
  have "uint (word_of_int s :: 32 word) = s"
    using assms by (simp add: uint_word_of_int take_bit_int_eq_self)
  then have "uint (word_of_int s mod 60 :: 32 word) = s mod 60"
    "uint (word_of_int s div 60 :: 32 word) = s div 60"
    by (simp_all add: uint_mod uint_div)
  moreover have "s div 60 div 60 = s div 3600" by (simp add: zdiv_zmult2_eq[of 60 s 60, simplified])
  ultimately show ?thesis by (simp add: fillHMS_def Let_def uint_mod uint_div)
qed

text \<open>The range of times whose day number, and every number formed on the way to its date, fits in an \<open>int\<close>.\<close>

definition utc_range :: "int \<Rightarrow> bool" where
  "utc_range t = (- 2472632 * 86400 \<le> t \<and> t < 497559413 * 86400)"

lemma utc_range_days:
  assumes "utc_range t"
  shows "- 2472632 \<le> t div 86400" "t div 86400 < 497559413"
proof -
  have t: "86400 * (t div 86400) + t mod 86400 = t" by simp
  have m: "0 \<le> t mod 86400" "t mod 86400 < 86400" by simp_all
  show "- 2472632 \<le> t div 86400" "t div 86400 < 497559413"
    using assms t m unfolding utc_range_def by linarith+
qed

lemma toUtcTime_fields:
  assumes "utc_range t"
  defines "D \<equiv> t div 86400 + 2440588" and "s \<equiv> t mod 86400"
  shows "toUtcTime t yday =
    (let ymd = getYearMonthDay D
     in \<lparr>tm_sec = s mod 60, tm_min = s div 60 mod 60, tm_hour = s div 3600,
         tm_mday = ymd_day ymd, tm_mon = ymd_month ymd - 1, tm_year = ymd_year ymd - 1900,
         tm_wday = (D + 1) smod 7,
         tm_yday = (if yday then D - getJulianDayNumber (ymd_year ymd) 1 1 else 0),
         tm_isdst = 0, tm_gmtoff = 0, tm_zone = str_bytes ''GMT''\<rparr>)"
proof -
  have k: "kJulianDayOf1970_01_01 = 2440588" "kSecondsPerDay = 86400"
    by (simp_all add: kJulianDayOf1970_01_01_def getJulianDayNumber_def kSecondsPerDay_def)
  have s: "0 \<le> s" "s < 86400" unfolding s_def by simp_all
  note fl = trunc_to_floor[of 86400 t, simplified]
  note days = utc_range_days[OF assms(1)]
  have sd: "t smod 86400 = (if t smod 86400 < 0 then s - 86400 else s)"
    "t sdiv 86400 = (if t smod 86400 < 0 then t div 86400 + 1 else t div 86400)"
    using fl by (simp_all add: s_def split: if_splits)
  have "int32 (t smod 86400)" "int32 (t sdiv 86400)"
    using s days by (subst sd, simp add: int32_def)+
  then have casts: "int_cast (t smod 86400) = t smod 86400" "int_cast (t sdiv 86400) = t sdiv 86400"
    by (simp_all add: int_cast_id)
  show ?thesis
    unfolding toUtcTime_def k casts Let_def fl[folded s_def]
    by (simp add: fillHMS_fields[OF s] tm_zero_def yearMonthDay_def weekDay_def kDaysPerWeek_def
        D_def date_ymd_def)
qed


lemma fromUtcTime_days:
  assumes "0 \<le> D - 2440588 + 2472632"
  shows "let ymd = getYearMonthDay D in
    getJulianDayNumber (ymd_year ymd - 1900 + 1900) (ymd_month ymd - 1 + 1) (ymd_day ymd) = D"
  using civil_of_day_number_valid(3)[of D] assms by (simp add: Let_def)

lemma seconds_of_day: "s div 3600 * 3600 + s div 60 mod 60 * 60 + s mod 60 = (s :: int)"
proof -
  have "s div 60 = s div 3600 * 60 + s div 60 mod 60"
    by (simp add: zdiv_zmult2_eq[of 60 s 60, simplified])
  moreover have "s = s div 60 * 60 + s mod 60" by simp
  ultimately show ?thesis by linarith
qed

text \<open>
  \<open>toUtcTime\<close> is \<open>gmtime\<close> when the day of the year is asked for, and \<open>fromUtcTime\<close> brings the
  seconds back from it, for all times whose days fit in the code's integers.
\<close>

theorem utc_roundtrip:
  assumes "utc_range t" and "0 \<le> t div 86400 + 2440588"
  shows "fromUtcTime (toUtcTime t yday) = t \<and> toUtcTime t True = gmtime_r t"
proof -
  let ?D = "t div 86400 + 2440588"
  have k: "kJulianDayOf1970_01_01 = 2440588" "kSecondsPerDay = 86400"
    by (simp_all add: kJulianDayOf1970_01_01_def getJulianDayNumber_def kSecondsPerDay_def)
  note F = toUtcTime_fields[OF assms(1), unfolded Let_def]
  have J: "getJulianDayNumber (ymd_year (getYearMonthDay ?D)) (ymd_month (getYearMonthDay ?D))
      (ymd_day (getYearMonthDay ?D)) = ?D"
    using assms(2) by (intro civil_of_day_number_valid(3)) simp
  have "fromUtcTime (toUtcTime t yday) = t div 86400 * 86400 +
      (t mod 86400 div 3600 * 3600 + t mod 86400 div 60 mod 60 * 60 + t mod 86400 mod 60)"
    unfolding F fromUtcTime_def fromUtcTime_ymd_def Let_def k date_ymd_def by (simp add: J)
  also have "\<dots> = t" unfolding seconds_of_day by simp
  finally have "fromUtcTime (toUtcTime t yday) = t" .
  moreover have "(?D + 1) smod 7 = (t div 86400 + 4) mod 7"
  proof -
    have e: "?D + 1 = (t div 86400 + 4) + 7 * 348655" by simp
    have "(?D + 1) smod 7 = (?D + 1) mod 7" using assms(2) by simp
    then show ?thesis unfolding e mod_mult_self2 .
  qed
  then have "toUtcTime t True = gmtime_r t"
    unfolding F gmtime_r_def Let_def by simp
  ultimately show ?thesis by blast
qed

theorem utc_roundtrip_witness:
  "fromUtcTime (toUtcTime (- 1) False) = - 1 \<and> toUtcTime (- 1) True = gmtime_r (- 1)"
  by (rule utc_roundtrip) (simp_all add: utc_range_def)


section \<open>Times in a zone\<close>

text \<open>The C library's functions undo each other, and hour and minute depend on the second count alone.\<close>

lemma timegm_gmtime:
  assumes "0 \<le> t div 86400 + 2440588 + 32044"
  shows "timegm (gmtime_r t) = t"
proof -
  let ?D = "t div 86400 + 2440588"
  define y m d where ymd: "y = ymd_year (getYearMonthDay ?D)" "m = ymd_month (getYearMonthDay ?D)"
    "d = ymd_day (getYearMonthDay ?D)"
  have v: "civil y m d" "from_origin y m" "getJulianDayNumber y m d = ?D"
    unfolding ymd using civil_of_day_number_valid[of ?D] assms by simp_all
  then have m: "1 \<le> m" "m \<le> 12" by (simp_all add: civil_def)
  then have "(m - 1) div 12 = 0" "(m - 1) mod 12 = m - 1" by simp_all
  moreover have "getJulianDayNumber y m 1 = ?D - d + 1"
    using v(3) day_number_march[OF m v(2)] by (simp add: day_of_year_def)
  ultimately have "timegm (gmtime_r t) = t div 86400 * 86400 +
      (t mod 86400 div 3600 * 3600 + t mod 86400 div 60 mod 60 * 60 + t mod 86400 mod 60)"
    unfolding gmtime_r_def timegm_def Let_def by (simp add: ymd[symmetric])
  also have "\<dots> = t" unfolding seconds_of_day by simp
  finally show ?thesis .
qed

lemma gmtime_ranges:
  assumes "0 \<le> t"
  shows "0 \<le> tm_mon (gmtime_r t)" "tm_mon (gmtime_r t) < 12" "0 \<le> tm_mday (gmtime_r t)" "tm_mday (gmtime_r t) < 100"
    "0 \<le> tm_hour (gmtime_r t)" "tm_hour (gmtime_r t) < 100" "0 \<le> tm_min (gmtime_r t)" "tm_min (gmtime_r t) < 100"
    "0 \<le> tm_sec (gmtime_r t)" "tm_sec (gmtime_r t) < 100"
proof -
  let ?D = "t div 86400 + 2440588"
  have "0 \<le> t div 86400" using assms by simp
  then have "civil (ymd_year (getYearMonthDay ?D)) (ymd_month (getYearMonthDay ?D)) (ymd_day (getYearMonthDay ?D))"
    by (intro civil_of_day_number_valid) simp
  then show "0 \<le> tm_mon (gmtime_r t)" "tm_mon (gmtime_r t) < 12" "0 \<le> tm_mday (gmtime_r t)" "tm_mday (gmtime_r t) < 100"
    by (auto simp: gmtime_r_def Let_def civil_def days_in_month_def split: if_splits)
  define s where "s = t mod 86400"
  have f: "tm_hour (gmtime_r t) = s div 3600" "tm_min (gmtime_r t) = s div 60 mod 60" "tm_sec (gmtime_r t) = s mod 60"
    unfolding s_def by (simp_all only: gmtime_r_def Let_def tm.select_convs)
  have "0 \<le> s" "s < 86400" unfolding s_def by simp_all
  then have h: "0 \<le> s div 3600" "s div 3600 < 100" "0 \<le> s div 60 mod 60" "s div 60 mod 60 < 60" "0 \<le> s mod 60" "s mod 60 < 60"
    by (simp_all add: pos_imp_zdiv_nonneg_iff div_less_iff_less_mult)
  show "0 \<le> tm_hour (gmtime_r t)" "tm_hour (gmtime_r t) < 100" "0 \<le> tm_min (gmtime_r t)" "tm_min (gmtime_r t) < 100"
    "0 \<le> tm_sec (gmtime_r t)" "tm_sec (gmtime_r t) < 100"
    unfolding f using h by linarith+
qed

text \<open>The six fields of the clock determine the moment.\<close>

lemma gmtime_inject:
  assumes "0 \<le> s" "0 \<le> t"
    and "tm_year (gmtime_r s) = tm_year (gmtime_r t)" "tm_mon (gmtime_r s) = tm_mon (gmtime_r t)"
    and "tm_mday (gmtime_r s) = tm_mday (gmtime_r t)" "tm_hour (gmtime_r s) = tm_hour (gmtime_r t)"
    and "tm_min (gmtime_r s) = tm_min (gmtime_r t)" "tm_sec (gmtime_r s) = tm_sec (gmtime_r t)"
  shows "s = t"
proof -
  have "timegm (gmtime_r s) = timegm (gmtime_r t)" using assms(3-) by (simp add: timegm_def)
  moreover have "timegm (gmtime_r s) = s" "timegm (gmtime_r t) = t"
    using assms(1,2) by (simp_all add: timegm_gmtime pos_imp_zdiv_nonneg_iff)
  ultimately show ?thesis by simp
qed

text \<open>
  A zone whose conversions are exact: transitions in order on both clocks and at least an hour
  apart, each of them either moving the clock forward (or not at all), or moving it back by one
  hour from summer time to normal time.
\<close>

definition tr_local :: "zone_data \<Rightarrow> nat \<Rightarrow> local_time" where
  "tr_local d i = localtimes d ! nat (localtimeIdx (transitions d ! i))"

definition regular_zone :: "zone_data \<Rightarrow> bool" where
  "regular_zone d = (zone_indices d \<and>
     (\<forall>l \<in> set (localtimes d). nat (arrbIdx l) \<le> length (abbreviations d) \<and> - 86400 \<le> gmtOffset l) \<and>
     (\<forall>i < length (transitions d).
        localtime (transitions d ! i) = gmttime (transitions d ! i) + gmtOffset (tr_local d i)) \<and>
     (\<forall>i. i + 1 < length (transitions d) \<longrightarrow>
        gmttime (transitions d ! i) + 3600 \<le> gmttime (transitions d ! (i + 1)) \<and>
        localtime (transitions d ! i) + 3600 \<le> localtime (transitions d ! (i + 1)) \<and>
        (gmtOffset (tr_local d i) \<le> gmtOffset (tr_local d (i + 1)) \<or>
         gmtOffset (tr_local d i) = gmtOffset (tr_local d (i + 1)) + 3600 \<and>
         isDst (tr_local d i) \<and> \<not> isDst (tr_local d (i + 1)))))"

lemma sorted_wrt_steps:
  fixes f :: "'a \<Rightarrow> int"
  assumes "\<And>i. i + 1 < length xs \<Longrightarrow> f (xs ! i) < f (xs ! (i + 1))"
  shows "sorted_wrt (\<lambda>a b. f a < f b) xs"
  using assms by (subst sorted_wrt_iff_nth_Suc_transp) (auto intro: transpI)

lemma regular_sorted:
  assumes "regular_zone d"
  shows "sorted_wrt (\<lambda>a b. tr_key c a < tr_key c b) (transitions d)"
proof (rule sorted_wrt_steps)
  fix i
  assume "i + 1 < length (transitions d)"
  with assms have "gmttime (transitions d ! i) + 3600 \<le> gmttime (transitions d ! (i + 1))"
    "localtime (transitions d ! i) + 3600 \<le> localtime (transitions d ! (i + 1))"
    unfolding regular_zone_def by blast+
  then show "tr_key c (transitions d ! i) < tr_key c (transitions d ! (i + 1))"
    by (simp add: tr_key_def)
qed

lemma regular_find:
  assumes "regular_zone d" "i < length (transitions d)" "tr_key c (transitions d ! i) \<le> tr_key c s"
    "i + 1 = length (transitions d) \<or> tr_key c s < tr_key c (transitions d ! (i + 1))"
  shows "findLocaltime d s c = Inr (tr_local d i)"
  unfolding tr_local_def last_localI[OF regular_sorted[OF assms(1)] assms(2-4), symmetric]
proof (rule findLocaltime_last)
  show "zone_indices d" using assms(1) unfolding regular_zone_def by blast
qed (rule regular_sorted[OF assms(1)])


lemma regular_local:
  assumes "regular_zone d" "i < length (transitions d)"
  shows "nat (arrbIdx (tr_local d i)) \<le> length (abbreviations d)" "- 86400 \<le> gmtOffset (tr_local d i)"
proof -
  have "zone_indices d" using assms(1) unfolding regular_zone_def by blast
  then have "tr_local d i \<in> set (localtimes d)"
    using assms(2) by (simp add: tr_local_def zone_indices_def)
  with assms(1) show "nat (arrbIdx (tr_local d i)) \<le> length (abbreviations d)"
    "- 86400 \<le> gmtOffset (tr_local d i)"
    unfolding regular_zone_def by blast+
qed

text \<open>\<open>i\<close> is the transition in force at \<open>t\<close>.\<close>

definition in_force :: "zone_data \<Rightarrow> nat \<Rightarrow> int \<Rightarrow> bool" where
  "in_force d i t = (i < length (transitions d) \<and> gmttime (transitions d ! i) \<le> t \<and>
     (i + 1 = length (transitions d) \<or> t < gmttime (transitions d ! (i + 1))))"

lemma in_force_ex:
  assumes "transitions d \<noteq> []" "gmttime (transitions d ! 0) \<le> t"
  shows "\<exists>i. in_force d i t"
proof -
  let ?S = "{j. j < length (transitions d) \<and> gmttime (transitions d ! j) \<le> t}"
  have S: "finite ?S" "?S \<noteq> {}" using assms by auto
  have "Max ?S \<in> ?S" by (rule Max_in[OF S])
  moreover have "Max ?S + 1 \<notin> ?S"
  proof
    assume "Max ?S + 1 \<in> ?S"
    from Max_ge[OF S(1) this] show False by simp
  qed
  ultimately have "in_force d (Max ?S) t" by (auto simp: in_force_def)
  then show ?thesis by blast
qed

lemma toLocalTime_in_force:
  assumes "regular_zone d" "in_force d i t"
  shows "toLocalTime (Some d) t =
    Inr ((gmtime_r (t + gmtOffset (tr_local d i)))\<lparr>tm_isdst := (if isDst (tr_local d i) then 1 else 0),
      tm_gmtoff := gmtOffset (tr_local d i),
      tm_zone := c_text (abbreviations d) (nat (arrbIdx (tr_local d i)))\<rparr>)"
proof -
  have "findLocaltime d \<lparr>gmttime = t, localtime = 0, localtimeIdx = 0\<rparr> (Comp True) = Inr (tr_local d i)"
    using assms(2) by (intro regular_find[OF assms(1)]) (simp_all add: in_force_def tr_key_def)
  then show ?thesis
    using regular_local(1)[OF assms(1), of i] assms(2)
    by (simp add: toLocalTime_def Let_def in_force_def)
qed

text \<open>
  C14. In a regular zone \<open>fromLocalTime\<close> undoes \<open>toLocalTime\<close> from the first transition on, also in the
  hour that a change back to normal time repeats: there the lookup by local time picks the normal
  time, and the correction by an hour for a summer time repairs it.
\<close>

theorem local_roundtrip:
  assumes "regular_zone d" "transitions d \<noteq> []" "gmttime (transitions d ! 0) \<le> t"
    and range: "- 2472631 * 86400 \<le> t"
  shows "rbind (toLocalTime (Some d) t) (fromLocalTime (Some d)) = Inr t"
proof -
  obtain i where i: "in_force d i t" using in_force_ex[OF assms(2,3)] by blast
  let ?T = "transitions d" and ?l = "tr_local d i"
  define ls where "ls = t + gmtOffset ?l"
  note L = toLocalTime_in_force[OF assms(1) i, folded ls_def]
  have i': "i < length ?T" "gmttime (?T ! i) \<le> t" using i by (simp_all add: in_force_def)
  have "0 \<le> ls div 86400 + 2440588 + 32044"
    using range regular_local(2)[OF assms(1) i'(1)] by (simp add: ls_def)
  then have tg: "timegm ((gmtime_r ls)\<lparr>tm_isdst := a, tm_gmtoff := b, tm_zone := z\<rparr>) = ls" for a b z
    using timegm_gmtime[of ls] by (simp add: timegm_def)
  have loc: "localtime (?T ! j) = gmttime (?T ! j) + gmtOffset (tr_local d j)" if "j < length ?T" for j
    using assms(1) that unfolding regular_zone_def by blast
  show ?thesis
  proof (cases "i + 1 = length ?T \<or> ls < localtime (?T ! (i + 1))")
    case True
    have "findLocaltime d \<lparr>gmttime = 0, localtime = ls, localtimeIdx = 0\<rparr> (Comp False) = Inr ?l"
      using True i' loc[OF i'(1)] by (intro regular_find[OF assms(1)]) (simp_all add: tr_key_def ls_def)
    moreover have "toLocalTime (Some d) (ls - gmtOffset ?l) = toLocalTime (Some d) t"
      by (simp add: ls_def)
    ultimately show ?thesis
      unfolding L by (simp add: fromLocalTime_def tg L Let_def) (simp add: ls_def)
  next
    case False
    then have j: "i + 1 < length ?T" and wrapped: "localtime (?T ! (i + 1)) \<le> ls" using i'(1) by auto
    let ?n = "tr_local d (i + 1)"
    have lt: "t < gmttime (?T ! (i + 1))" using i j by (simp add: in_force_def)
    have "gmtOffset ?l \<le> gmtOffset ?n \<or> gmtOffset ?l = gmtOffset ?n + 3600 \<and> isDst ?l \<and> \<not> isDst ?n"
      using assms(1) j unfolding regular_zone_def by blast
    with lt wrapped loc[OF j] have b: "gmtOffset ?l = gmtOffset ?n + 3600" "isDst ?l" "\<not> isDst ?n"
      by (auto simp: ls_def)
    have next2: "gmttime (?T ! (i + 1)) + 3600 \<le> gmttime (?T ! (i + 1 + 1))"
      "localtime (?T ! (i + 1)) + 3600 \<le> localtime (?T ! (i + 1 + 1))" if "i + 1 + 1 < length ?T"
      using assms(1) that unfolding regular_zone_def by blast+
    have last: "i + 1 + 1 = length ?T \<or> i + 1 + 1 < length ?T" using j by linarith
    have "findLocaltime d \<lparr>gmttime = 0, localtime = ls, localtimeIdx = 0\<rparr> (Comp False) = Inr ?n"
      using last next2(2) lt loc[OF j] wrapped b(1)
      by (intro regular_find[OF assms(1) j]) (auto simp add: tr_key_def ls_def)
    moreover have "in_force d (i + 1) (t + 3600)"
      using last next2(1) lt j wrapped loc[OF j] b(1) by (auto simp: in_force_def ls_def)
    note toLocalTime_in_force[OF assms(1) this]
    moreover have e: "ls - gmtOffset (tr_local d (Suc i)) = t + 3600"
      "t + 3600 + gmtOffset (tr_local d (Suc i)) = ls" "ls - 3600 - gmtOffset (tr_local d (Suc i)) = t"
      using b(1) by (simp_all add: ls_def)
    ultimately show ?thesis
      unfolding L using b(3) by (simp add: fromLocalTime_def tg Let_def b(2) e)
  qed
qed


theorem local_roundtrip_witness:
  "\<exists>d. (rbind (toLocalTime (Some d) 10799) (fromLocalTime (Some d)) :: int result) = Inr 10799"
proof -
  let ?d = "\<lparr>transitions = [\<lparr>gmttime = 0, localtime = 7200, localtimeIdx = 1\<rparr>,
      \<lparr>gmttime = 10800, localtime = 14400, localtimeIdx = 0\<rparr>],
    localtimes = [\<lparr>gmtOffset = 3600, isDst = False, arrbIdx = 0\<rparr>, \<lparr>gmtOffset = 7200, isDst = True, arrbIdx = 4\<rparr>],
    names = [], abbreviations = str_bytes ''CET_CEST''\<rparr>"
  have "regular_zone ?d"
    by (simp add: regular_zone_def zone_indices_def tr_local_def str_bytes_def less_Suc_eq)
  from local_roundtrip[OF this, of 10799] show ?thesis by (intro exI) simp
qed


section \<open>Files are read back\<close>

text \<open>
  The bytes of a TZif file, as the format has them: a header of 20 bytes, six counts in network
  order, the transition times, one byte of local-time index each, six bytes for every local time and
  the abbreviations. What follows (leap seconds, the second block) is not read.
\<close>

definition be_int :: "int \<Rightarrow> byte list" where
  "be_int x = be_bytes (word_of_int x :: 32 word)"

definition type_bytes :: "local_time \<Rightarrow> byte list" where
  "type_bytes l = be_int (gmtOffset l) @ [of_bool (isDst l), word_of_int (arrbIdx l)]"

definition tzif :: "byte list \<Rightarrow> int \<Rightarrow> int \<Rightarrow> int \<Rightarrow> zone_data \<Rightarrow> byte list \<Rightarrow> byte list" where
  "tzif header isgmtcnt isstdcnt leapcnt d rest =
     str_bytes ''TZif'' @ header @ be_int isgmtcnt @ be_int isstdcnt @ be_int leapcnt
       @ be_int (int (length (transitions d))) @ be_int (int (length (localtimes d)))
       @ be_int (int (length (abbreviations d)))
       @ concat (map (\<lambda>t. be_int (gmttime t)) (transitions d))
       @ map (\<lambda>t. word_of_int (localtimeIdx t)) (transitions d)
       @ concat (map type_bytes (localtimes d)) @ abbreviations d @ rest"

text \<open>The zones that have such a file.\<close>

definition writable_zone :: "zone_data \<Rightarrow> bool" where
  "writable_zone d = (zone_indices d \<and> names d = [] \<and>
     length (transitions d) < 2 ^ 31 \<and> length (localtimes d) \<le> 256 \<and> length (abbreviations d) < 2 ^ 31 \<and>
     (\<forall>t \<in> set (transitions d). int32 (gmttime t) \<and>
        localtime t = gmttime t + gmtOffset (localtimes d ! nat (localtimeIdx t))) \<and>
     (\<forall>l \<in> set (localtimes d). int32 (gmtOffset l) \<and> 0 \<le> arrbIdx l \<and> arrbIdx l < 256))"

lemma length_be_int [simp]: "length (be_int x) = 4"
  by (simp add: be_int_def)

lemma tz_readInt32_be [simp]:
  "int32 x \<Longrightarrow> tz_readInt32 host (be_int x @ rest) = Inr (x, rest)"
  by (simp add: tz_readInt32_def be_int_def Let_def htobe_mem_read int_cast_id[unfolded int_cast_def])

lemma readBytes_append [simp]:
  "n = int (length bs) \<Longrightarrow> readBytes n (bs @ rest) = Inr (bs, rest)"
  by (simp add: readBytes_def)

lemma readBytes_one [simp]: "readBytes 1 (b # rest) = Inr ([b], rest)"
  by (simp add: readBytes_def)

lemma length_str_bytes [simp]: "length (str_bytes s) = length s"
  by (simp add: str_bytes_def)

lemma read_trans_be:
  "(\<And>x. x \<in> set xs \<Longrightarrow> int32 x) \<Longrightarrow>
   read_trans host (length xs) (concat (map be_int xs) @ rest) = Inr (xs, rest)"
  by (induction xs) simp_all

lemma read_idxs_bytes:
  "(\<And>x. x \<in> set xs \<Longrightarrow> 0 \<le> x \<and> x < 256) \<Longrightarrow>
   read_idxs (length xs) (map word_of_int xs @ rest) = Inr (xs, rest)"
  by (induction xs) (simp_all add: readUInt8_def uint_word_of_int take_bit_int_eq_self)

lemma read_types_bytes:
  "(\<And>l. l \<in> set ls \<Longrightarrow> int32 (gmtOffset l) \<and> 0 \<le> arrbIdx l \<and> arrbIdx l < 256) \<Longrightarrow>
   read_types host (length ls) (concat (map type_bytes ls) @ rest) d =
   Inr (rest, d\<lparr>localtimes := localtimes d @ ls\<rparr>)"
proof (induction ls arbitrary: d)
  case (Cons l ls)
  have l: "int32 (gmtOffset l)" "0 \<le> arrbIdx l" "arrbIdx l < 256"
    using Cons.prems[of l] by simp_all
  have "uint (word_of_int (arrbIdx l) :: byte) = arrbIdx l"
    using l(2,3) by (simp add: uint_word_of_int take_bit_int_eq_self)
  moreover have "uint (of_bool (isDst l) :: byte) \<noteq> 0 \<longleftrightarrow> isDst l" by simp
  moreover have "read_types host (length ls) (concat (map type_bytes ls) @ rest)
      (d\<lparr>localtimes := localtimes d @ [l]\<rparr>) = Inr (rest, d\<lparr>localtimes := localtimes d @ l # ls\<rparr>)"
    using Cons.prems by (subst Cons.IH) simp_all
  moreover have "type_bytes l @ r = be_int (gmtOffset l) @ of_bool (isDst l) # word_of_int (arrbIdx l) # r" for r
    by (simp add: type_bytes_def)
  moreover have rec: "\<lparr>gmtOffset = gmtOffset l, isDst = isDst l, arrbIdx = arrbIdx l\<rparr> = l"
    by (cases l) simp
  ultimately show ?case
    using l(1) by (simp add: readUInt8_def rec)
qed simp

lemma push_transitions_ok:
  assumes "\<And>t. t \<in> set ts \<Longrightarrow> 0 \<le> localtimeIdx t \<and> nat (localtimeIdx t) < length (localtimes d) \<and>
    localtime t = gmttime t + gmtOffset (localtimes d ! nat (localtimeIdx t))"
  shows "push_transitions (zip (map gmttime ts) (map localtimeIdx ts)) d =
    Inr (d\<lparr>transitions := transitions d @ ts\<rparr>)"
  using assms
proof (induction ts arbitrary: d)
  case (Cons t ts)
  have t: "0 \<le> localtimeIdx t" "nat (localtimeIdx t) < length (localtimes d)"
    "localtime t = gmttime t + gmtOffset (localtimes d ! nat (localtimeIdx t))"
    using Cons.prems by simp_all
  have "push_transitions (zip (map gmttime ts) (map localtimeIdx ts))
      (d\<lparr>transitions := transitions d @ [t]\<rparr>) =
    Inr (d\<lparr>transitions := (transitions d @ [t]) @ ts\<rparr>)"
    using Cons.prems by (subst Cons.IH) simp_all
  moreover have "\<lparr>gmttime = gmttime t, localtime = gmttime t + gmtOffset (localtimes d ! nat (localtimeIdx t)),
      localtimeIdx = localtimeIdx t\<rparr> = t"
    by (cases t) (use t(3) in simp)
  ultimately show ?case using t(1,2) by simp
qed simp

lemma new_data_localtimes: "localtimes new_data = []"
  by (simp add: new_data_def)

text \<open>
  C19. Every zone that a file can hold is read back from its file, on hosts of either byte order, and
  the constructor then holds exactly this zone.
\<close>

theorem tz_file_roundtrip:
  assumes "writable_zone d" "length header = 16" "int32 isgmtcnt" "int32 isstdcnt" "int32 leapcnt"
  shows "tz_file host (Some (tzif header isgmtcnt isstdcnt leapcnt d rest)) = Inr (Some d)"
proof -
  obtain version pad where h: "header = [version] @ pad" "length pad = 15"
    using assms(2) by (cases header) auto
  have w: "zone_indices d" "names d = []"
    "length (transitions d) < 2 ^ 31" "length (localtimes d) \<le> 256" "length (abbreviations d) < 2 ^ 31"
    "\<And>t. t \<in> set (transitions d) \<Longrightarrow> int32 (gmttime t) \<and>
       localtime t = gmttime t + gmtOffset (localtimes d ! nat (localtimeIdx t))"
    "\<And>l. l \<in> set (localtimes d) \<Longrightarrow> int32 (gmtOffset l) \<and> 0 \<le> arrbIdx l \<and> arrbIdx l < 256"
    using assms(1) unfolding writable_zone_def by blast+
  have idx: "0 \<le> localtimeIdx t" "nat (localtimeIdx t) < length (localtimes d)"
    if "t \<in> set (transitions d)" for t
    using w(1) that by (auto simp: zone_indices_def)
  have byte: "0 \<le> x \<and> x < 256" if "x \<in> set (map localtimeIdx (transitions d))" for x
    using that idx w(4) by fastforce
  have counts: "int32 (int (length (transitions d)))" "int32 (int (length (localtimes d)))"
    "int32 (int (length (abbreviations d)))"
    using w(3-5) by (simp_all add: int32_def)
  have reads: "read_trans host (length (transitions d))
      (concat (map (\<lambda>t. be_int (gmttime t)) (transitions d)) @ r) = Inr (map gmttime (transitions d), r)"
    "read_idxs (length (transitions d))
      (map (\<lambda>t. word_of_int (localtimeIdx t)) (transitions d) @ r) = Inr (map localtimeIdx (transitions d), r)" for r
    using read_trans_be[of "map gmttime (transitions d)" host r] w(6)
      read_idxs_bytes[of "map localtimeIdx (transitions d)" r, OF byte]
    by (auto simp: comp_def)
  note types = read_types_bytes[of "localtimes d", OF w(7)]
  have push: "push_transitions (zip (map gmttime (transitions d)) (map localtimeIdx (transitions d)))
      (new_data\<lparr>localtimes := localtimes d\<rparr>) =
    Inr (new_data\<lparr>localtimes := localtimes d, transitions := transitions d\<rparr>)"
    using idx w(6) by (subst push_transitions_ok) (simp_all add: new_data_def)
  have "read_zone host (tzif header isgmtcnt isstdcnt leapcnt d rest) new_data = Inr d"
    unfolding read_zone_def tzif_def h(1) append_assoc
    by (simp add: counts assms(3-5) h(2) reads types push new_data_localtimes)
      (use w(2) in \<open>cases d; simp add: new_data_def\<close>)
  then show ?thesis by (simp add: tz_file_def readTimeZoneFile_def)
qed


theorem tz_file_roundtrip_witness:
  "\<exists>d. transitions d \<noteq> [] \<and>
    tz_file LittleEndian (Some (tzif (replicate 16 0) 1 1 0 d [1, 2, 3])) = Inr (Some d)"
proof -
  let ?d = "\<lparr>transitions = [\<lparr>gmttime = - 100, localtime = 3500, localtimeIdx = 0\<rparr>],
    localtimes = [\<lparr>gmtOffset = 3600, isDst = True, arrbIdx = 2\<rparr>], names = [], abbreviations = str_bytes ''ABCD''\<rparr>"
  have "writable_zone ?d" by (simp add: writable_zone_def zone_indices_def int32_def)
  from tz_file_roundtrip[OF this, of "replicate 16 0" 1 1 0 LittleEndian "[1, 2, 3]"] show ?thesis
    by (intro exI[of _ ?d]) (simp add: int32_def)
qed

text \<open>
  \<open>readTimeZoneFile\<close> returns true on every path, so a zone made from a file that is missing or
  not a TZif file counts as valid; it has no local times, and every conversion then reads the front
  of an empty vector, which is undefined.
\<close>

theorem bad_file_counts_as_valid:
  assumes "zonefile = None \<or> zonefile = Some f \<and> take 4 f \<noteq> str_bytes ''TZif''"
  shows "\<exists>z. tz_file host zonefile = Inr z \<and> tz_valid z \<and>
    toLocalTime z t = Inl Undefined \<and> fromLocalTime z tm = Inl Undefined"
proof -
  have "tz_file host zonefile = Inr (Some new_data)"
    using assms
    by (auto simp: tz_file_def readTimeZoneFile_def read_zone_def readBytes_def)
  then show ?thesis
    by (simp add: tz_valid_def toLocalTime_def fromLocalTime_def findLocaltime_def localtime_at_def
        new_data_def Let_def)
qed

theorem bad_file_counts_as_valid_witness:
  "\<exists>z. tz_file LittleEndian None = Inr z \<and> tz_valid z \<and>
    toLocalTime z 0 = Inl Undefined \<and> fromLocalTime z tm_zero = Inl Undefined"
  by (rule bad_file_counts_as_valid) simp

end
