(* ===== verification/Doubles.thy ===== *)
theory Doubles
  imports Complex_Main "HOL-Library.Log_Nat" Text
begin

text \<open>
  The part of \<open>double\<close> that the number formatting of the code uses: rounding a rational to the
  nearest number with a 53-bit significand (ties to the even one), so that conversion from
  \<open>int64_t\<close>, products and quotients are the rounded exact results, and the conversions \<open>%.<p>f\<close>
  of \<open>printf\<close>, which round the exact value to \<open>p\<close> decimals, ties to even. All numbers formatted are
  far from the limits of the exponent, which is unbounded here.
\<close>

section \<open>Rounding to an integer\<close>

definition round_half_even :: "rat \<Rightarrow> int" where
  "round_half_even x =
     (let f = \<lfloor>x\<rfloor>; r = x - of_int f
      in if r < 1 / 2 then f else if 1 / 2 < r then f + 1 else if even f then f else f + 1)"

lemma round_half_even_of_int [simp]: "round_half_even (of_int k) = k"
  by (simp add: round_half_even_def)

lemma round_half_even_numeral [simp]: "round_half_even (numeral n) = numeral n"
  using round_half_even_of_int[of "numeral n"] by simp

lemma round_half_even_close: "\<bar>of_int (round_half_even x) - x\<bar> \<le> 1 / 2"
proof -
  have "of_int \<lfloor>x\<rfloor> \<le> x" "x < of_int \<lfloor>x\<rfloor> + 1" by linarith+
  then show ?thesis
    unfolding round_half_even_def Let_def abs_if
    by (cases "x - of_int \<lfloor>x\<rfloor> < 1 / 2"; cases "1 / 2 < x - of_int \<lfloor>x\<rfloor>"; cases "even \<lfloor>x\<rfloor>")
      (simp, linarith?)+
qed

lemma round_half_even_less: "x < of_int k + 1 / 2 \<Longrightarrow> round_half_even x \<le> k"
  using round_half_even_close[of x] by linarith

lemma round_half_even_ge: "of_int k \<le> x \<Longrightarrow> k \<le> round_half_even x"
  using round_half_even_close[of x] by linarith

lemma round_half_even_mono:
  assumes "x \<le> y"
  shows "round_half_even x \<le> round_half_even y"
proof (cases "\<lfloor>x\<rfloor> = \<lfloor>y\<rfloor>")
  case True
  with assms show ?thesis by (auto simp: round_half_even_def Let_def)
next
  case False
  with assms have f: "\<lfloor>x\<rfloor> + 1 \<le> \<lfloor>y\<rfloor>" using floor_mono[OF assms] by linarith
  have "round_half_even x \<le> \<lfloor>x\<rfloor> + 1" "\<lfloor>y\<rfloor> \<le> round_half_even y"
    by (simp_all add: round_half_even_def Let_def)
  with f show ?thesis by linarith
qed

lemma round_half_even_eqI:
  assumes "\<bar>of_int k - x\<bar> < 1 / 2 \<or> \<bar>of_int k - x\<bar> \<le> 1 / 2 \<and> even k"
  shows "round_half_even x = k"
proof -
  have c: "\<bar>of_int (round_half_even x) - x\<bar> \<le> 1 / 2" by (rule round_half_even_close)
  show ?thesis
  proof (cases "\<bar>of_int k - x\<bar> < 1 / 2")
    case True
    with c have "\<bar>of_int (round_half_even x) - of_int k :: rat\<bar> < 1" by linarith
    then show ?thesis by linarith
  next
    case False
    with assms have k: "even k" "\<bar>of_int k - x\<bar> = 1 / 2" by auto
    then have "x = of_int k - 1 / 2 \<or> x = of_int k + 1 / 2" by linarith
    then show ?thesis
    proof
      assume x: "x = of_int k - 1 / 2"
      then have "\<lfloor>x\<rfloor> = k - 1" by linarith
      with x k(1) show ?thesis by (simp add: round_half_even_def Let_def)
    next
      assume x: "x = of_int k + 1 / 2"
      then have "\<lfloor>x\<rfloor> = k" by linarith
      with x k(1) show ?thesis by (simp add: round_half_even_def Let_def)
    qed
  qed
qed

section \<open>The binary exponent\<close>

definition binexp :: "rat \<Rightarrow> int" where
  "binexp x =
     (let (a, b) = quotient_of x; k = bitlen a - bitlen b
      in if 2 powi k \<le> x then k else k - 1)"


lemma pow2_pos [simp]: "0 < (2 :: rat) powi e"
  by (simp add: zero_less_power_int)

lemma pow2_add: "(2 :: rat) powi (a + b) = 2 powi a * 2 powi b"
  by (simp add: power_int_add)

lemma pow2_mono: "a \<le> b \<Longrightarrow> (2 :: rat) powi a \<le> 2 powi b"
  by (simp add: power_int_increasing)

lemma pow2_less_iff: "(2 :: rat) powi a < 2 powi b \<longleftrightarrow> a < b"
  by (metis less_le_not_le linorder_not_less one_less_numeral_iff power_int_strict_increasing
      pow2_mono semiring_norm(76))

lemma bitlen_range:
  assumes "0 < (a :: int)"
  shows "2 powi (bitlen a - 1) \<le> (of_int a :: rat)" "(of_int a :: rat) < 2 powi (bitlen a)"
proof -
  have l: "1 \<le> bitlen a" using assms by (simp add: bitlen_ge_iff_power)
  from bitlen_bounds[OF assms] have b: "2 ^ nat (bitlen a - 1) \<le> a" "a < 2 ^ nat (bitlen a)" by auto
  have "(of_int (2 ^ nat (bitlen a - 1)) :: rat) \<le> of_int a" using b(1) by (simp only: of_int_le_iff)
  then show "2 powi (bitlen a - 1) \<le> (of_int a :: rat)"
    using l by (simp add: power_int_def)
  have "(of_int a :: rat) < of_int (2 ^ nat (bitlen a))" using b(2) by (simp only: of_int_less_iff)
  then show "(of_int a :: rat) < 2 powi (bitlen a)"
    using l by (simp add: power_int_def)
qed

lemma binexp_bounds:
  assumes "0 < x"
  shows "2 powi (binexp x) \<le> x" "x < 2 powi (binexp x + 1)"
proof -
  obtain a b where ab: "quotient_of x = (a, b)" by (cases "quotient_of x")
  have b: "0 < b" using ab by (rule quotient_of_denom_pos)
  have x: "x = of_int a / of_int b" using ab by (rule quotient_of_div)
  have a: "0 < a" using assms b by (simp add: x zero_less_divide_iff)
  define k where "k = bitlen a - bitlen b"
  have "x * 2 powi (bitlen b) > of_int a"
    using bitlen_range(2)[OF b] a b by (simp add: x field_simps)
  moreover have "x * 2 powi (bitlen b - 1) \<le> of_int a"
    using bitlen_range(1)[OF b] a b by (simp add: x field_simps)
  ultimately have lo: "2 powi (bitlen a - 1) < x * 2 powi (bitlen b)"
    and hi: "x * 2 powi (bitlen b - 1) < 2 powi (bitlen a)"
    using bitlen_range[OF a] by linarith+
  have "2 powi (bitlen a - 1) = 2 powi (k - 1) * (2 :: rat) powi (bitlen b)"
    by (simp add: pow2_add[symmetric] k_def)
  with lo have lo': "2 powi (k - 1) < x" by simp
  have "2 powi (bitlen a) = 2 powi (k + 1) * (2 :: rat) powi (bitlen b - 1)"
    by (simp add: pow2_add[symmetric] k_def)
  with hi have hi': "x < 2 powi (k + 1)" by simp
  have "binexp x = (if 2 powi k \<le> x then k else k - 1)"
    by (simp add: binexp_def ab k_def Let_def)
  with lo' hi' show "2 powi (binexp x) \<le> x" "x < 2 powi (binexp x + 1)" by auto
qed

lemma binexp_eqI: "2 powi k \<le> x \<Longrightarrow> x < 2 powi (k + 1) \<Longrightarrow> binexp x = k"
proof -
  assume k: "2 powi k \<le> x" "x < 2 powi (k + 1)"
  then have x: "0 < x" using pow2_pos[of k] by linarith
  note b = binexp_bounds[OF x]
  have "(2 :: rat) powi k < 2 powi (binexp x + 1)" "(2 :: rat) powi (binexp x) < 2 powi (k + 1)"
    using k b by linarith+
  then show "binexp x = k" by (simp add: pow2_less_iff)
qed

section \<open>Rounding to a \<open>double\<close>\<close>

definition rnd :: "rat \<Rightarrow> rat" where
  "rnd x =
     (if x = 0 then 0
      else let e = binexp \<bar>x\<bar> - 52
           in of_int (round_half_even (x / 2 powi e)) * 2 powi e)"

definition fmul :: "rat \<Rightarrow> rat \<Rightarrow> rat" where
  "fmul a b = rnd (a * b)"

definition fdiv :: "rat \<Rightarrow> rat \<Rightarrow> rat" where
  "fdiv a b = rnd (a / b)"

text \<open>A number in the binade of \<open>2 ^ (e + 52)\<close>, with its significand rounded.\<close>

lemma rnd_eqI:
  assumes "2 ^ 52 * 2 powi e \<le> x" "x < 2 ^ 53 * 2 powi e" "round_half_even (x / 2 powi e) = m"
  shows "rnd x = of_int m * 2 powi e"
proof -
  have p: "2 ^ 52 * 2 powi e = (2 :: rat) powi (e + 52)" "2 ^ 53 * 2 powi e = (2 :: rat) powi (e + 52 + 1)"
    by (simp_all add: pow2_add)
  have "0 < 2 ^ 52 * (2 :: rat) powi e" by simp
  with assms(1) have x: "0 < x" by (rule less_le_trans[rotated])
  have "binexp x = e + 52" using assms(1,2) unfolding p by (rule binexp_eqI)
  with x assms(3) show ?thesis by (simp add: rnd_def)
qed

lemma rnd_significand:
  assumes "0 < x"
  obtains e m where "2 ^ 52 * 2 powi e \<le> x" "x < 2 ^ 53 * 2 powi e" "rnd x = of_int m * 2 powi e"
    "m = round_half_even (x / 2 powi e)" "2 ^ 52 \<le> m" "m \<le> 2 ^ 53" "e = binexp x - 52"
proof -
  define e where "e = binexp x - 52"
  have p: "2 ^ 52 * 2 powi e = (2 :: rat) powi (binexp x)" "2 ^ 53 * 2 powi e = (2 :: rat) powi (binexp x + 1)"
    by (simp_all add: pow2_add e_def power_int_diff)
  have b: "2 ^ 52 * 2 powi e \<le> x" "x < 2 ^ 53 * 2 powi e"
    unfolding p using binexp_bounds[OF assms] .
  let ?m = "round_half_even (x / 2 powi e)"
  have q: "2 ^ 52 \<le> x / 2 powi e" "x / 2 powi e \<le> 2 ^ 53"
    using b by (simp_all add: field_simps)
  have "round_half_even (of_int (2 ^ 52)) \<le> ?m"
    by (rule round_half_even_mono) (use q in simp)
  moreover have "?m \<le> round_half_even (of_int (2 ^ 53))"
    by (rule round_half_even_mono) (use q in simp)
  ultimately show thesis
    using that[of e ?m] b rnd_eqI[OF b refl] by (simp add: e_def)
qed


lemma rnd_zero [simp]: "rnd 0 = 0"
  by (simp add: rnd_def)

text \<open>Monotone, and at most half a unit in the last place off.\<close>

lemma rnd_mono:
  assumes "0 < x" "x \<le> y"
  shows "rnd x \<le> rnd y"
proof -
  have y: "0 < y" using assms by linarith
  obtain e m where x: "2 ^ 52 * 2 powi e \<le> x" "x < 2 ^ 53 * 2 powi e" "rnd x = of_int m * 2 powi e"
    "m = round_half_even (x / 2 powi e)" "2 ^ 52 \<le> m" "m \<le> 2 ^ 53"
    by (rule rnd_significand[OF assms(1)])
  obtain e' m' where y: "2 ^ 52 * 2 powi e' \<le> y" "y < 2 ^ 53 * 2 powi e'" "rnd y = of_int m' * 2 powi e'"
    "m' = round_half_even (y / 2 powi e')" "2 ^ 52 \<le> m'" "m' \<le> 2 ^ 53"
    by (rule rnd_significand[OF y])
  show ?thesis
  proof (cases "e = e'")
    case True
    have "m \<le> m'" unfolding x(4) y(4) True
      by (rule round_half_even_mono) (use assms(2) in \<open>simp add: divide_right_mono less_imp_le\<close>)
    then show ?thesis by (simp add: x(3) y(3) True)
  next
    case False
    have "2 ^ 52 * 2 powi e < 2 ^ 53 * (2 :: rat) powi e'" using x(1) y(2) assms(2) by linarith
    then have "(2 :: rat) powi e < 2 powi (e' + 1)" by (simp add: pow2_add)
    with False have "e + 1 \<le> e'" by (simp add: pow2_less_iff)
    then have p: "(2 :: rat) powi (e + 1) \<le> 2 powi e'" by (rule pow2_mono)
    have "rnd x \<le> 2 ^ 53 * 2 powi e"
      unfolding x(3) using x(6) by (intro mult_right_mono) (simp_all add: less_imp_le)
    also have "\<dots> = 2 ^ 52 * 2 powi (e + 1)" by (simp add: pow2_add)
    also have "\<dots> \<le> 2 ^ 52 * 2 powi e'" using p by simp
    also have "\<dots> \<le> rnd y"
      unfolding y(3) using y(5) by (intro mult_right_mono) (simp_all add: less_imp_le)
    finally show ?thesis .
  qed
qed

lemma rnd_above:
  assumes "0 < x"
  shows "rnd x \<le> x * (1 + 1 / 2 ^ 53)"
proof -
  obtain e m where x: "2 ^ 52 * 2 powi e \<le> x" "x < 2 ^ 53 * 2 powi e" "rnd x = of_int m * 2 powi e"
    "m = round_half_even (x / 2 powi e)" "2 ^ 52 \<le> m" "m \<le> 2 ^ 53"
    by (rule rnd_significand[OF assms(1)])
  have "of_int m - x / 2 powi e \<le> 1 / 2"
    using round_half_even_close[of "x / 2 powi e"] unfolding x(4) by linarith
  then have "rnd x \<le> x + 2 powi e / 2" unfolding x(3) by (simp add: field_simps)
  also have "2 powi e / 2 \<le> x / 2 ^ 53" using x(1) by simp
  finally show ?thesis by (simp add: field_simps)
qed

lemma rnd_of_int:
  assumes "0 \<le> k" "k < 2 ^ 53"
  shows "rnd (of_int k) = of_int k"
proof (cases "k = 0")
  case False
  with assms have k: "0 < (of_int k :: rat)" by simp
  obtain e m where x: "2 ^ 52 * 2 powi e \<le> (of_int k :: rat)" "of_int k < 2 ^ 53 * (2 :: rat) powi e"
    "rnd (of_int k) = of_int m * 2 powi e" "m = round_half_even (of_int k / 2 powi e)"
    by (rule rnd_significand[OF k])
  have "2 ^ 52 * (2 :: rat) powi e < 2 ^ 53"
    using x(1) assms(2) of_int_less_iff[of k "2 ^ 53", where 'a = rat] by simp
  then have "e \<le> 0" using pow2_less_iff[of e 1] by simp
  then have "of_int k / (2 :: rat) powi e = of_int (k * 2 ^ nat (- e))"
    by (simp add: power_int_def field_simps)
  then have "of_int m = of_int k / (2 :: rat) powi e"
    unfolding x(4) by (simp only: round_half_even_of_int)
  then show ?thesis unfolding x(3) by simp
qed simp

text \<open>Scaling by a power of two is exact.\<close>

lemma rnd_scale:
  assumes "0 < x"
  shows "rnd (x * 2 powi k) = rnd x * 2 powi k"
proof -
  obtain e m where x: "2 ^ 52 * 2 powi e \<le> x" "x < 2 ^ 53 * 2 powi e" "rnd x = of_int m * 2 powi e"
    "m = round_half_even (x / 2 powi e)"
    by (rule rnd_significand[OF assms])
  have "rnd (x * 2 powi k) = of_int m * 2 powi (e + k)"
    by (rule rnd_eqI) (use x(1,2) in \<open>simp_all add: pow2_add x(4) field_simps\<close>)
  then show ?thesis by (simp add: x(3) pow2_add)
qed

lemma rnd_rnd:
  assumes "0 < x"
  shows "rnd (rnd x) = rnd x"
proof -
  obtain e m where x: "rnd x = of_int m * 2 powi e" "2 ^ 52 \<le> m" "m \<le> 2 ^ 53"
    by (rule rnd_significand[OF assms])
  show ?thesis
  proof (cases "m = 2 ^ 53")
    case True
    then have "rnd x = 1 * 2 powi (e + 53)" by (simp add: x(1) pow2_add)
    moreover have "rnd (1 * 2 powi (e + 53)) = 1 * 2 powi (e + 53)"
      using rnd_scale[of 1 "e + 53"] rnd_of_int[of 1] by simp
    ultimately show ?thesis by simp
  next
    case False
    with x show ?thesis
      using rnd_scale[of "of_int m" e] rnd_of_int[of m] by simp
  qed
qed

lemma rnd_pow2: "rnd (2 ^ k) = 2 ^ k"
  using rnd_scale[of 1 "int k"] rnd_of_int[of 1] by simp

text \<open>A rounded number below a representable one is at most its predecessor.\<close>

lemma rnd_pred:
  assumes "0 < x" "rnd x < of_int M * 2 powi k" "2 ^ 52 < M" "M \<le> 2 ^ 53"
  shows "rnd x \<le> of_int (M - 1) * 2 powi k"
proof -
  obtain e m where x: "rnd x = of_int m * 2 powi e" "2 ^ 52 \<le> m" "m \<le> 2 ^ 53"
    by (rule rnd_significand[OF assms(1)])
  have mr: "2 ^ 52 \<le> (of_int m :: rat)" "(of_int m :: rat) \<le> 2 ^ 53" "(of_int M :: rat) \<le> 2 ^ 53"
    "2 ^ 52 \<le> (of_int (M - 1) :: rat)"
    using x(2,3) assms(3,4) by simp_all
  consider "e = k" | "e + 1 \<le> k" | "k + 1 \<le> e" by linarith
  then show ?thesis
  proof cases
    case 1
    then have "m < M" using assms(2) unfolding x(1) by simp
    then show ?thesis by (simp add: x(1) 1)
  next
    case 2
    have "rnd x \<le> 2 ^ 53 * 2 powi e" unfolding x(1) using mr(2) by (intro mult_right_mono) simp_all
    also have "\<dots> = 2 ^ 52 * 2 powi (e + 1)" by (simp add: pow2_add)
    also have "\<dots> \<le> 2 ^ 52 * 2 powi k" using pow2_mono[OF 2] by simp
    also have "\<dots> \<le> of_int (M - 1) * 2 powi k" using mr(4) by (intro mult_right_mono) simp_all
    finally show ?thesis .
  next
    case 3
    have "of_int M * 2 powi k \<le> 2 ^ 53 * (2 :: rat) powi k" using mr(3) by (intro mult_right_mono) simp_all
    also have "\<dots> = 2 ^ 52 * 2 powi (k + 1)" by (simp add: pow2_add)
    also have "\<dots> \<le> 2 ^ 52 * 2 powi e" using pow2_mono[OF 3] by simp
    also have "\<dots> \<le> rnd x" unfolding x(1) using mr(1) by (intro mult_right_mono) simp_all
    finally show ?thesis using assms(2) by simp
  qed
qed

lemma rnd_pos: "0 < x \<Longrightarrow> 0 < rnd x"
  by (rule rnd_significand) (auto intro!: mult_pos_pos)

section \<open>Printing with a fixed number of decimals\<close>

definition fmt_f :: "nat \<Rightarrow> rat \<Rightarrow> string" where
  "fmt_f p x =
     (let q = round_half_even (x * 10 ^ p); sg = (if q < 0 then ''-'' else []); n = nat \<bar>q\<bar>
      in sg @ nat_dec (n div 10 ^ p) @
         (if p = 0 then [] else ''.'' @ fmt_0d p (int (n mod 10 ^ p))))"

lemma length_fmt_0d: "0 \<le> i \<Longrightarrow> i < 10 ^ p \<Longrightarrow> 0 < p \<Longrightarrow> length (fmt_0d p i) = p"
proof -
  assume i: "0 \<le> i" "i < 10 ^ p" "0 < p"
  then have "nat i < 10 ^ p" by (simp add: nat_less_iff)
  then have "length (nat_dec (nat i)) \<le> p" using i(3) by (rule length_nat_dec_le)
  then show ?thesis using i(1) by (simp add: fmt_0d_def Let_def)
qed

lemma length_fmt_f:
  assumes "0 \<le> x" "round_half_even (x * 10 ^ p) < 10 ^ (w + p)" "0 < w"
  shows "length (fmt_f p x) \<le> w + (if p = 0 then 0 else p + 1)"
proof -
  let ?q = "round_half_even (x * 10 ^ p)"
  have q: "0 \<le> ?q" using assms(1) round_half_even_ge[of 0 "x * 10 ^ p"] by simp
  have "nat ?q < 10 ^ (w + p)" using assms(2) q by (simp add: nat_less_iff)
  then have "nat ?q div 10 ^ p < 10 ^ w" by (simp add: less_mult_imp_div_less power_add)
  then have "length (nat_dec (nat ?q div 10 ^ p)) \<le> w" using assms(3) by (rule length_nat_dec_le)
  moreover have "length (fmt_0d p (int (nat ?q mod 10 ^ p))) = p" if "p \<noteq> 0"
    using that by (intro length_fmt_0d) (simp_all flip: of_nat_power)
  ultimately show ?thesis using q by (cases "p = 0") (simp_all add: fmt_f_def Let_def)
qed

end
