(* ===== verification/LogStream.thy ===== *)
theory LogStream
  imports Doubles
begin

text \<open>
  The stream that log lines are formatted into (src/zing/base/LogStream.h and LogStream.cpp):
  conversion of integers, the fixed buffer, the insertion operators and the two formats for
  quantities. Insertions check for room first; the model of the writes reports a write outside the
  array as \<open>Undefined\<close>, and the lemmas show that it never happens. The text of a \<open>double\<close>
  (\<open>%.12g\<close>) and that of a user's \<open>Fmt\<close> come from \<open>snprintf\<close> and are arguments.
\<close>

section \<open>Integers to text\<close>

definition digits :: string where
  "digits = ''9876543210123456789''"

text \<open>\<open>zero\<close> points at the tenth character of \<open>digits\<close>, so it can be indexed from -9 to 9.\<close>

definition zero_at :: "int \<Rightarrow> char" where
  "zero_at lsd = digits ! nat (9 + lsd)"

definition digitsHex :: string where
  "digitsHex = ''0123456789ABCDEF''"

lemma sdiv_10_less: "(i :: int) sdiv 10 \<noteq> 0 \<Longrightarrow> i \<noteq> 0 \<and> \<bar>i sdiv 10\<bar> < \<bar>i\<bar>"
  by (auto simp: signed_divide_int_def abs_mult sgn_if split: if_splits)

text \<open>The characters that the \<open>do\<close>-loop writes, last digit first; \<open>%\<close> and \<open>/\<close> truncate.\<close>

function convert_loop :: "int \<Rightarrow> string" where
  "convert_loop i =
     (let lsd = i smod 10; i' = i sdiv 10
      in zero_at lsd # (if i' \<noteq> 0 then convert_loop i' else []))"
  by pat_completeness auto

termination by (relation "measure (\<lambda>i. nat \<bar>i\<bar>)") (simp_all add: sdiv_10_less)

declare convert_loop.simps [simp del]

definition convert :: "int \<Rightarrow> string" where
  "convert v = rev (convert_loop v @ (if v < 0 then ''-'' else []))"

function convertHex_loop :: "nat \<Rightarrow> string" where
  "convertHex_loop i =
     (let lsd = i mod 16; i' = i div 16
      in digitsHex ! lsd # (if i' \<noteq> 0 then convertHex_loop i' else []))"
  by pat_completeness auto

termination by (relation "measure (\<lambda>i. i)") auto

declare convertHex_loop.simps [simp del]

definition convertHex :: "64 word \<Rightarrow> string" where
  "convertHex v = rev (convertHex_loop (unat v))"

section \<open>Quantities\<close>

definition formatSI :: "int \<Rightarrow> string" where
  "formatSI s =
     (let n = rnd (of_int s)
      in snprintf_to 64
       (if s < 1000 then int_dec s
        else if s < 9995 then fmt_f 2 (fdiv n (10 ^ 3)) @ ''k''
        else if s < 99950 then fmt_f 1 (fdiv n (10 ^ 3)) @ ''k''
        else if s < 999500 then fmt_f 0 (fdiv n (10 ^ 3)) @ ''k''
        else if s < 9995000 then fmt_f 2 (fdiv n (10 ^ 6)) @ ''M''
        else if s < 99950000 then fmt_f 1 (fdiv n (10 ^ 6)) @ ''M''
        else if s < 999500000 then fmt_f 0 (fdiv n (10 ^ 6)) @ ''M''
        else if s < 9995000000 then fmt_f 2 (fdiv n (10 ^ 9)) @ ''G''
        else if s < 99950000000 then fmt_f 1 (fdiv n (10 ^ 9)) @ ''G''
        else if s < 999500000000 then fmt_f 0 (fdiv n (10 ^ 9)) @ ''G''
        else if s < 9995000000000 then fmt_f 2 (fdiv n (10 ^ 12)) @ ''T''
        else if s < 99950000000000 then fmt_f 1 (fdiv n (10 ^ 12)) @ ''T''
        else if s < 999500000000000 then fmt_f 0 (fdiv n (10 ^ 12)) @ ''T''
        else if s < 9995000000000000 then fmt_f 2 (fdiv n (10 ^ 15)) @ ''P''
        else if s < 99950000000000000 then fmt_f 1 (fdiv n (10 ^ 15)) @ ''P''
        else if s < 999500000000000000 then fmt_f 0 (fdiv n (10 ^ 15)) @ ''P''
        else fmt_f 2 (fdiv n (10 ^ 18)) @ ''E''))"

text \<open>The literals \<open>9.995\<close> and \<open>99.95\<close> are rounded to \<open>double\<close>; \<open>1023.5\<close> is one.\<close>

definition lit_9_995 :: rat where
  "lit_9_995 = rnd (9995 / 1000)"

definition lit_99_95 :: rat where
  "lit_99_95 = rnd (9995 / 100)"

definition lit_1023_5 :: rat where
  "lit_1023_5 = rnd (10235 / 10)"

definition formatIEC :: "int \<Rightarrow> string" where
  "formatIEC s =
     (let n = rnd (of_int s);
          Ki = 1024;
          Mi = fmul Ki 1024;
          Gi = fmul Mi 1024;
          Ti = fmul Gi 1024;
          Pi = fmul Ti 1024;
          Ei = fmul Pi 1024
      in snprintf_to 64
       (if n < Ki then int_dec s
        else if n < fmul Ki lit_9_995 then fmt_f 2 (fdiv n Ki) @ ''Ki''
        else if n < fmul Ki lit_99_95 then fmt_f 1 (fdiv n Ki) @ ''Ki''
        else if n < fmul Ki lit_1023_5 then fmt_f 0 (fdiv n Ki) @ ''Ki''
        else if n < fmul Mi lit_9_995 then fmt_f 2 (fdiv n Mi) @ ''Mi''
        else if n < fmul Mi lit_99_95 then fmt_f 1 (fdiv n Mi) @ ''Mi''
        else if n < fmul Mi lit_1023_5 then fmt_f 0 (fdiv n Mi) @ ''Mi''
        else if n < fmul Gi lit_9_995 then fmt_f 2 (fdiv n Gi) @ ''Gi''
        else if n < fmul Gi lit_99_95 then fmt_f 1 (fdiv n Gi) @ ''Gi''
        else if n < fmul Gi lit_1023_5 then fmt_f 0 (fdiv n Gi) @ ''Gi''
        else if n < fmul Ti lit_9_995 then fmt_f 2 (fdiv n Ti) @ ''Ti''
        else if n < fmul Ti lit_99_95 then fmt_f 1 (fdiv n Ti) @ ''Ti''
        else if n < fmul Ti lit_1023_5 then fmt_f 0 (fdiv n Ti) @ ''Ti''
        else if n < fmul Pi lit_9_995 then fmt_f 2 (fdiv n Pi) @ ''Pi''
        else if n < fmul Pi lit_99_95 then fmt_f 1 (fdiv n Pi) @ ''Pi''
        else if n < fmul Pi lit_1023_5 then fmt_f 0 (fdiv n Pi) @ ''Pi''
        else if n < fmul Ei lit_9_995 then fmt_f 2 (fdiv n Ei) @ ''Ei''
        else fmt_f 1 (fdiv n Ei) @ ''Ei''))"

section \<open>The fixed buffer\<close>

text \<open>The array \<open>data_\<close> and the position of \<open>cur_\<close> in it.\<close>

record fixed_buffer =
  fb_data :: string
  fb_cur :: nat

definition kSmallBuffer :: nat where
  "kSmallBuffer = 4000"

definition kLargeBuffer :: nat where
  "kLargeBuffer = 4000 * 1000"

text \<open>The array is not initialised; \<open>junk\<close> is what it holds.\<close>

definition new_fixed_buffer :: "string \<Rightarrow> fixed_buffer" where
  "new_fixed_buffer junk = \<lparr>fb_data = junk, fb_cur = 0\<rparr>"

definition fb_length :: "fixed_buffer \<Rightarrow> int" where
  "fb_length b = int (fb_cur b)"

definition fb_avail :: "fixed_buffer \<Rightarrow> int" where
  "fb_avail b = int (length (fb_data b)) - int (fb_cur b)"

text \<open>A write of \<open>s\<close> at \<open>cur_\<close>.\<close>

definition fb_write :: "string \<Rightarrow> fixed_buffer \<Rightarrow> fixed_buffer result" where
  "fb_write s b =
     (if length (fb_data b) < fb_cur b + length s then Inl Undefined
      else Inr (b\<lparr>fb_data := overwrite (fb_cur b) s (fb_data b)\<rparr>))"

definition fb_add :: "nat \<Rightarrow> fixed_buffer \<Rightarrow> fixed_buffer" where
  "fb_add len b = b\<lparr>fb_cur := fb_cur b + len\<rparr>"

definition fb_append :: "string \<Rightarrow> fixed_buffer \<Rightarrow> fixed_buffer result" where
  "fb_append buf b =
     (let len = length buf
      in if int len < fb_avail b
         then rbind (fb_write buf b) (\<lambda>b. Inr (fb_add len b))
         else Inr b)"

definition fb_reset :: "fixed_buffer \<Rightarrow> fixed_buffer" where
  "fb_reset b = b\<lparr>fb_cur := 0\<rparr>"

definition fb_bzero :: "fixed_buffer \<Rightarrow> fixed_buffer" where
  "fb_bzero b = b\<lparr>fb_data := replicate (length (fb_data b)) (CHR 0x00)\<rparr>"

definition fb_toString :: "fixed_buffer \<Rightarrow> string" where
  "fb_toString b = take (fb_cur b) (fb_data b)"

text \<open>\<open>debugString\<close> writes a NUL at \<open>cur_\<close> and returns the text in front of the first NUL.\<close>

definition fb_debugString :: "fixed_buffer \<Rightarrow> (string \<times> fixed_buffer) result" where
  "fb_debugString b =
     rbind (fb_write [CHR 0x00] b) (\<lambda>b. Inr (takeWhile (\<lambda>c. c \<noteq> CHR 0x00) (fb_data b), b))"

section \<open>The insertion operators\<close>

text \<open>The buffer is the only state of a stream.\<close>

record log_stream =
  ls_buffer :: fixed_buffer

definition kMaxNumericSize :: int where
  "kMaxNumericSize = 48"

definition ls_with :: "log_stream \<Rightarrow> fixed_buffer result \<Rightarrow> log_stream result" where
  "ls_with s r = rbind r (\<lambda>b. Inr (s\<lparr>ls_buffer := b\<rparr>))"

text \<open>\<open>convert\<close> writes its text and a NUL; only the text is counted.\<close>

definition formatInteger :: "int \<Rightarrow> log_stream \<Rightarrow> log_stream result" where
  "formatInteger v s =
     (if kMaxNumericSize \<le> fb_avail (ls_buffer s)
      then ls_with s (rbind (fb_write (convert v @ [CHR 0x00]) (ls_buffer s))
             (\<lambda>b. Inr (fb_add (length (convert v)) b)))
      else Inr s)"

definition ls_bool :: "bool \<Rightarrow> log_stream \<Rightarrow> log_stream result" where
  "ls_bool v s = ls_with s (fb_append (if v then ''1'' else ''0'') (ls_buffer s))"

definition ls_int :: "32 word \<Rightarrow> log_stream \<Rightarrow> log_stream result" where
  "ls_int v s = formatInteger (sint v) s"

definition ls_uint :: "32 word \<Rightarrow> log_stream \<Rightarrow> log_stream result" where
  "ls_uint v s = formatInteger (uint v) s"

definition ls_short :: "16 word \<Rightarrow> log_stream \<Rightarrow> log_stream result" where
  "ls_short v s = ls_int (scast v) s"

definition ls_ushort :: "16 word \<Rightarrow> log_stream \<Rightarrow> log_stream result" where
  "ls_ushort v s = ls_uint (ucast v) s"

definition ls_long :: "64 word \<Rightarrow> log_stream \<Rightarrow> log_stream result" where
  "ls_long v s = formatInteger (sint v) s"

definition ls_ulong :: "64 word \<Rightarrow> log_stream \<Rightarrow> log_stream result" where
  "ls_ulong v s = formatInteger (uint v) s"

definition ls_longlong :: "64 word \<Rightarrow> log_stream \<Rightarrow> log_stream result" where
  "ls_longlong v s = formatInteger (sint v) s"

definition ls_ulonglong :: "64 word \<Rightarrow> log_stream \<Rightarrow> log_stream result" where
  "ls_ulonglong v s = formatInteger (uint v) s"

definition ls_pointer :: "64 word \<Rightarrow> log_stream \<Rightarrow> log_stream result" where
  "ls_pointer p s =
     (if kMaxNumericSize \<le> fb_avail (ls_buffer s)
      then ls_with s (rbind (fb_write (''0x'' @ convertHex p @ [CHR 0x00]) (ls_buffer s))
             (\<lambda>b. Inr (fb_add (length (convertHex p) + 2) b)))
      else Inr s)"

text \<open>\<open>g12 v\<close> is the text of \<open>%.12g\<close>; \<open>snprintf\<close> stores what fits and returns its full length.\<close>

definition ls_double :: "('d \<Rightarrow> string) \<Rightarrow> 'd \<Rightarrow> log_stream \<Rightarrow> log_stream result" where
  "ls_double g12 v s =
     (if kMaxNumericSize \<le> fb_avail (ls_buffer s)
      then ls_with s (rbind (fb_write (snprintf_to (nat kMaxNumericSize) (g12 v) @ [CHR 0x00]) (ls_buffer s))
             (\<lambda>b. Inr (fb_add (length (g12 v)) b)))
      else Inr s)"

definition ls_char :: "char \<Rightarrow> log_stream \<Rightarrow> log_stream result" where
  "ls_char v s = ls_with s (fb_append [v] (ls_buffer s))"

text \<open>A C string: \<open>None\<close> is the null pointer, otherwise the characters in front of the NUL.\<close>

definition ls_cstr :: "string option \<Rightarrow> log_stream \<Rightarrow> log_stream result" where
  "ls_cstr str s =
     (case str of
        Some t \<Rightarrow> ls_with s (fb_append t (ls_buffer s))
      | None \<Rightarrow> ls_with s (fb_append ''(null)'' (ls_buffer s)))"

definition ls_string :: "string \<Rightarrow> log_stream \<Rightarrow> log_stream result" where
  "ls_string v s = ls_with s (fb_append v (ls_buffer s))"

definition ls_StringPiece :: "string \<Rightarrow> log_stream \<Rightarrow> log_stream result" where
  "ls_StringPiece v s = ls_with s (fb_append v (ls_buffer s))"

definition ls_Buffer :: "fixed_buffer \<Rightarrow> log_stream \<Rightarrow> log_stream result" where
  "ls_Buffer v s = ls_StringPiece (fb_toString v) s"

definition ls_append :: "string \<Rightarrow> log_stream \<Rightarrow> log_stream result" where
  "ls_append t s = ls_with s (fb_append t (ls_buffer s))"

definition ls_resetBuffer :: "log_stream \<Rightarrow> log_stream" where
  "ls_resetBuffer s = s\<lparr>ls_buffer := fb_reset (ls_buffer s)\<rparr>"

text \<open>A \<open>Fmt\<close> holds what \<open>snprintf\<close> made of a number; \<open>txt\<close> is the full text.\<close>

definition new_Fmt :: "string \<Rightarrow> string result" where
  "new_Fmt txt = (if length txt < 32 then Inr (snprintf_to 32 txt) else Inl AssertFail)"

definition ls_Fmt :: "string \<Rightarrow> log_stream \<Rightarrow> log_stream result" where
  "ls_Fmt fmt s = ls_append fmt s"


section \<open>The texts of integers\<close>

lemma eq_char_of: "c = char_of (n :: nat) \<longleftrightarrow> take_bit 8 n = of_char c"
  unfolding char_of_eq_iff[symmetric] by (rule eq_commute)

lemma zero_at_digit:
  assumes "- 9 \<le> d" "d \<le> 9"
  shows "zero_at d = digit_char (nat \<bar>d\<bar>)"
proof -
  have "nat (9 + d) \<in> set [0..<19]" using assms by simp
  then have "digits ! nat (9 + d) = digit_char (nat \<bar>int (nat (9 + d)) - 9\<bar>)"
  proof -
    have "\<forall>k \<in> set [0..<19]. digits ! k = digit_char (nat \<bar>int k - 9\<bar>)"
      by (simp add: digits_def digit_char_def upt_rec eq_char_of)
    then show ?thesis using \<open>nat (9 + d) \<in> set [0..<19]\<close> by blast
  qed
  then show ?thesis using assms by (simp add: zero_at_def)
qed

lemma trunc_abs:
  "\<bar>(i :: int) smod 10\<bar> = \<bar>i\<bar> mod 10" "\<bar>i sdiv 10\<bar> = \<bar>i\<bar> div 10"
  by (cases "i = 0"; simp add: signed_modulo_int_def signed_divide_int_def abs_mult abs_sgn_eq)+

lemma convert_loop_dec: "rev (convert_loop i) = nat_dec (nat \<bar>i\<bar>)"
proof (induction i rule: convert_loop.induct)
  case (1 i)
  have m: "\<bar>i\<bar> mod 10 < 10" "0 \<le> \<bar>i\<bar> mod 10" by simp_all
  have "zero_at (i smod 10) = digit_char (nat (\<bar>i\<bar> mod 10))"
    using zero_at_digit[of "i smod 10"] m unfolding trunc_abs[symmetric] by linarith
  then have d: "zero_at (i smod 10) = digit_char (nat \<bar>i\<bar> mod 10)"
    by (simp add: nat_mod_distrib)
  have q: "nat \<bar>i sdiv 10\<bar> = nat \<bar>i\<bar> div 10" unfolding trunc_abs by (simp add: nat_div_distrib)
  have z: "i sdiv 10 \<noteq> 0 \<longleftrightarrow> \<not> nat \<bar>i\<bar> < 10"
    using q by (metis abs_eq_0 div_eq_0_iff nat_0_iff abs_ge_zero order_antisym zero_neq_numeral)
  show ?case
    using 1 d q z by (subst convert_loop.simps, subst nat_dec.simps) (simp add: Let_def)
qed

lemma length_nat_dec_pos: "0 < length (nat_dec n)"
  by simp

text \<open>
  The conversion of integers by way of the two-sided table of digits is \<open>%d\<close>, for negative numbers
  too (the least one included, whose absolute value is not an \<open>int64_t\<close>). No 64-bit number needs
  more than 20 characters.
\<close>

theorem convert_is_decimal:
  "convert v = int_dec v \<and> length (convert (sint (w :: 64 word))) \<le> 20 \<and> length (convert (uint w)) \<le> 20"
proof -
  have eq: "convert v = int_dec v" for v
    by (simp add: convert_def convert_loop_dec int_dec_def)
  have s: "- (2 ^ 63) \<le> sint w" "sint w < 2 ^ 63"
    using sint_range_size[of w] by (simp_all add: word_size)
  have "length (nat_dec n) \<le> 19" if "n \<le> 2 ^ 63" for n
    using that by (intro length_nat_dec_le) simp_all
  from this[of "nat (sint w)"] this[of "nat (- sint w)"] s have "length (int_dec (sint w)) \<le> 20"
    by (simp add: int_dec_def nat_le_iff)
  moreover have "nat (uint w) < 10 ^ 20"
    using uint_bounded[of w] unfolding nat_less_iff[OF uint_ge_0] by simp
  then have "length (nat_dec (nat (uint w))) \<le> 20"
    by (rule length_nat_dec_le) simp
  then have "length (int_dec (uint w)) \<le> 20" by (simp add: int_dec_def)
  ultimately show ?thesis by (simp add: eq)
qed

text \<open>Hexadecimal digits are read back.\<close>

definition hex_digit_val :: "char \<Rightarrow> nat" where
  "hex_digit_val c = (if of_char c < (58 :: nat) then of_char c - 48 else of_char c - 55)"

definition hex_val :: "string \<Rightarrow> nat" where
  "hex_val t = foldl (\<lambda>a c. 16 * a + hex_digit_val c) 0 t"

lemma hex_digit_val_digit:
  assumes "k < 16"
  shows "hex_digit_val (digitsHex ! k) = k"
proof -
  have "\<forall>k \<in> set [0..<16]. hex_digit_val (digitsHex ! k) = k"
    by (simp add: hex_digit_val_def digitsHex_def upt_rec)
  with assms show ?thesis by simp
qed

lemma hex_val_loop: "hex_val (rev (convertHex_loop n)) = n"
proof (induction n rule: convertHex_loop.induct)
  case (1 n)
  have "hex_digit_val (digitsHex ! (n mod 16)) = n mod 16" by (rule hex_digit_val_digit) simp
  with 1 show ?case
    by (subst convertHex_loop.simps) (auto simp: Let_def hex_val_def)
qed

lemma length_hex_loop: "n < 16 ^ k \<Longrightarrow> 0 < k \<Longrightarrow> length (convertHex_loop n) \<le> k"
proof (induction n arbitrary: k rule: convertHex_loop.induct)
  case (1 n)
  show ?case
  proof (cases "n div 16 = 0")
    case True
    with "1.prems" show ?thesis by (subst convertHex_loop.simps) simp
  next
    case False
    then obtain j where j: "k = Suc j" "0 < j"
      using "1.prems" by (cases k; cases "k - 1") auto
    with "1.prems" have "n div 16 < 16 ^ j" by (simp add: less_mult_imp_div_less mult.commute)
    with 1 False j have "length (convertHex_loop (n div 16)) \<le> j" by blast
    with False j show ?thesis by (subst convertHex_loop.simps) simp
  qed
qed

lemma convertHex_value: "hex_val (convertHex v) = unat v" "length (convertHex v) \<le> 16"
proof -
  show "hex_val (convertHex v) = unat v" by (simp add: convertHex_def hex_val_loop)
  have "unat v < 2 ^ 64" using unsigned_less[of v, where 'a = nat] by simp
  then have "unat v < 16 ^ 16" by simp
  then show "length (convertHex v) \<le> 16" unfolding convertHex_def by (simp add: length_hex_loop)
qed


section \<open>Lengths of formatted quantities\<close>

lemma nat_dec_1: "n < 10 ^ w \<Longrightarrow> 0 < w \<Longrightarrow> 0 \<le> s \<Longrightarrow> nat s = n \<Longrightarrow> length (int_dec s) \<le> w"
  by (simp add: int_dec_def length_nat_dec_le)

text \<open>
  A quotient that is rounded below a bound that is away from the next power of ten by half of the
  last decimal prints within its width.
\<close>

lemma length_fmt_bound:
  assumes "0 < x" "x \<le> B" "B * 10 ^ p < 10 ^ (w + p) - 1 / 2" "0 < w"
  shows "length (fmt_f p x) \<le> w + (if p = 0 then 0 else p + 1)"
proof (rule length_fmt_f)
  have "x * 10 ^ p \<le> B * 10 ^ p" using assms(2) by (intro mult_right_mono) simp_all
  then have "x * 10 ^ p < 10 ^ (w + p) - 1 / 2" using assms(3) by (rule le_less_trans)
  then have "x * 10 ^ p < of_int (10 ^ (w + p) - 1) + 1 / 2" by simp
  then have "round_half_even (x * 10 ^ p) \<le> 10 ^ (w + p) - 1" by (rule round_half_even_less)
  then show "round_half_even (x * 10 ^ p) < 10 ^ (w + p)" by simp
qed (use assms(1,4) in simp_all)

lemma fdiv_range:
  assumes "1000 \<le> s" "s \<le> L" "rnd (of_int L) = N" "0 < D"
  shows "0 < fdiv (rnd (of_int s)) D" "fdiv (rnd (of_int s)) D \<le> rnd (N / D)"
proof -
  have n: "0 < rnd (of_int s)" using assms(1) by (intro rnd_pos) simp
  then have q: "0 < rnd (of_int s) / D" using assms(4) by simp
  then show "0 < fdiv (rnd (of_int s)) D" unfolding fdiv_def by (rule rnd_pos)
  have "rnd (of_int s) \<le> N"
    unfolding assms(3)[symmetric] using assms(1,2) by (intro rnd_mono) simp_all
  then have "rnd (of_int s) / D \<le> N / D" using assms(4) by (simp add: divide_right_mono)
  with q show "fdiv (rnd (of_int s)) D \<le> rnd (N / D)" unfolding fdiv_def by (rule rnd_mono)
qed

lemma length_si:
  assumes "1000 \<le> s" "s \<le> L" "rnd (of_int L) = N" "0 < N" "0 < D"
    and "N / D * (1 + 1 / 2 ^ 53) * 10 ^ p < 10 ^ (w + p) - 1 / 2" "0 < w"
  shows "length (fmt_f p (fdiv (rnd (of_int s)) D)) \<le> w + (if p = 0 then 0 else p + 1)"
proof (rule length_fmt_bound[OF fdiv_range(1)[OF assms(1-3,5)]])
  show "fdiv (rnd (of_int s)) D \<le> N / D * (1 + 1 / 2 ^ 53)"
    using fdiv_range(2)[OF assms(1-3,5)] rnd_above[of "N / D"] assms(4,5) by simp
qed (rule assms(6,7))+

text \<open>Numbers whose conversions decide the boundary cases.\<close>

lemma rnd_cases:
  "rnd 99949999999999991 = 99949999999999984" "rnd 9995000000000000 = 9995000000000000"
  "rnd 999500000000000000 = 999500000000000000" "rnd (2 ^ 63) = 2 ^ 63"
proof -
  have e: "\<bar>of_int 6246874999999999 - 99949999999999991 / (2 :: rat) powi 4\<bar> < 1 / 2" by simp
  show "rnd 99949999999999991 = 99949999999999984"
    using rnd_eqI[of 4 99949999999999991, OF _ _ round_half_even_eqI[OF disjI1[OF e]]] by simp
  show "rnd 9995000000000000 = 9995000000000000"
    using rnd_scale[of "of_int 4997500000000000" 1] rnd_of_int[of 4997500000000000] by simp
  show "rnd 999500000000000000 = 999500000000000000"
    using rnd_scale[of "of_int 7808593750000000" 7] rnd_of_int[of 7808593750000000] by simp
  show "rnd (2 ^ 63) = 2 ^ 63" by (rule rnd_pow2)
qed

lemma lit_values:
  "lit_9_995 = of_int 5626684784446013 * 2 powi (- 49)"
  "lit_99_95 = of_int 7033355980557517 * 2 powi (- 46)"
  "lit_1023_5 = 2047 / 2"
proof -
  have "round_half_even (9995 / 1000 / 2 powi (- 49)) = 5626684784446013"
    "round_half_even (9995 / 100 / 2 powi (- 46)) = 7033355980557517"
    by (rule round_half_even_eqI; simp add: power_int_def power_one_over)+
  then show "lit_9_995 = of_int 5626684784446013 * 2 powi (- 49)"
    "lit_99_95 = of_int 7033355980557517 * 2 powi (- 46)"
    unfolding lit_9_995_def lit_99_95_def by (intro rnd_eqI; simp add: power_int_def power_one_over)+
  show "lit_1023_5 = 2047 / 2"
    unfolding lit_1023_5_def using rnd_scale[of "of_int 2047" "- 1"] rnd_of_int[of 2047]
    by (simp add: power_int_def power_one_over)
qed

text \<open>The eight numbers just below \<open>99.95P\<close> become the double \<open>99950000000000000\<close>.\<close>

lemma rnd_si_window:
  assumes "99949999999999992 \<le> s" "s < 99950000000000000"
  shows "rnd (of_int s) = 99950000000000000"
proof -
  have s: "(99949999999999992 :: rat) \<le> of_int s" "of_int s < (99950000000000000 :: rat)"
    using assms by (metis of_int_le_iff of_int_numeral, metis of_int_less_iff of_int_numeral)
  then have "\<bar>of_int 6246875000000000 - of_int s / (2 :: rat) powi 4\<bar> \<le> 1 / 2 \<and> even (6246875000000000 :: int)"
    by (simp add: abs_le_iff)
  from rnd_eqI[of 4 "of_int s", OF _ _ round_half_even_eqI[OF disjI2[OF this]]] s show ?thesis by simp
qed

lemma si_window_text:
  assumes "99949999999999992 \<le> s" "s < 99950000000000000"
  shows "fmt_f 1 (fdiv (rnd (of_int s)) (10 ^ 15)) = ''100.0''"
proof -
  have "fdiv (rnd (of_int s)) (10 ^ 15) = lit_99_95"
    unfolding rnd_si_window[OF assms] fdiv_def lit_99_95_def by simp
  moreover have "round_half_even (lit_99_95 * 10) = 1000"
    by (rule round_half_even_eqI) (simp add: lit_values power_int_def power_one_over)
  ultimately show ?thesis
    by (simp add: fmt_f_def fmt_0d_def nat_dec.simps digit_char_def char_of_eq_iff)
qed


text \<open>The branches below \<open>2 ^ 53\<close>, where the conversion to \<open>double\<close> is exact.\<close>

lemma si_branches:
  "\<lbrakk>1000 \<le> s; s < 9995\<rbrakk> \<Longrightarrow> length (fmt_f 2 (fdiv (rnd (of_int s)) (10 ^ 3))) \<le> 4"
  "\<lbrakk>9995 \<le> s; s < 99950\<rbrakk> \<Longrightarrow> length (fmt_f 1 (fdiv (rnd (of_int s)) (10 ^ 3))) \<le> 4"
  "\<lbrakk>99950 \<le> s; s < 999500\<rbrakk> \<Longrightarrow> length (fmt_f 0 (fdiv (rnd (of_int s)) (10 ^ 3))) \<le> 4"
  "\<lbrakk>999500 \<le> s; s < 9995000\<rbrakk> \<Longrightarrow> length (fmt_f 2 (fdiv (rnd (of_int s)) (10 ^ 6))) \<le> 4"
  "\<lbrakk>9995000 \<le> s; s < 99950000\<rbrakk> \<Longrightarrow> length (fmt_f 1 (fdiv (rnd (of_int s)) (10 ^ 6))) \<le> 4"
  "\<lbrakk>99950000 \<le> s; s < 999500000\<rbrakk> \<Longrightarrow> length (fmt_f 0 (fdiv (rnd (of_int s)) (10 ^ 6))) \<le> 4"
  "\<lbrakk>999500000 \<le> s; s < 9995000000\<rbrakk> \<Longrightarrow> length (fmt_f 2 (fdiv (rnd (of_int s)) (10 ^ 9))) \<le> 4"
  "\<lbrakk>9995000000 \<le> s; s < 99950000000\<rbrakk> \<Longrightarrow> length (fmt_f 1 (fdiv (rnd (of_int s)) (10 ^ 9))) \<le> 4"
  "\<lbrakk>99950000000 \<le> s; s < 999500000000\<rbrakk> \<Longrightarrow> length (fmt_f 0 (fdiv (rnd (of_int s)) (10 ^ 9))) \<le> 4"
  "\<lbrakk>999500000000 \<le> s; s < 9995000000000\<rbrakk> \<Longrightarrow> length (fmt_f 2 (fdiv (rnd (of_int s)) (10 ^ 12))) \<le> 4"
  "\<lbrakk>9995000000000 \<le> s; s < 99950000000000\<rbrakk> \<Longrightarrow> length (fmt_f 1 (fdiv (rnd (of_int s)) (10 ^ 12))) \<le> 4"
  "\<lbrakk>99950000000000 \<le> s; s < 999500000000000\<rbrakk> \<Longrightarrow> length (fmt_f 0 (fdiv (rnd (of_int s)) (10 ^ 12))) \<le> 4"
proof -
  show "\<lbrakk>1000 \<le> s; s < 9995\<rbrakk> \<Longrightarrow> length (fmt_f 2 (fdiv (rnd (of_int s)) (10 ^ 3))) \<le> 4"
    using length_si[of s 9994 "of_int 9994" "10 ^ 3" 2 1, OF _ _ rnd_of_int] by simp
  show "\<lbrakk>9995 \<le> s; s < 99950\<rbrakk> \<Longrightarrow> length (fmt_f 1 (fdiv (rnd (of_int s)) (10 ^ 3))) \<le> 4"
    using length_si[of s 99949 "of_int 99949" "10 ^ 3" 1 2, OF _ _ rnd_of_int] by simp
  show "\<lbrakk>99950 \<le> s; s < 999500\<rbrakk> \<Longrightarrow> length (fmt_f 0 (fdiv (rnd (of_int s)) (10 ^ 3))) \<le> 4"
    using length_si[of s 999499 "of_int 999499" "10 ^ 3" 0 3, OF _ _ rnd_of_int] by simp
  show "\<lbrakk>999500 \<le> s; s < 9995000\<rbrakk> \<Longrightarrow> length (fmt_f 2 (fdiv (rnd (of_int s)) (10 ^ 6))) \<le> 4"
    using length_si[of s 9994999 "of_int 9994999" "10 ^ 6" 2 1, OF _ _ rnd_of_int] by simp
  show "\<lbrakk>9995000 \<le> s; s < 99950000\<rbrakk> \<Longrightarrow> length (fmt_f 1 (fdiv (rnd (of_int s)) (10 ^ 6))) \<le> 4"
    using length_si[of s 99949999 "of_int 99949999" "10 ^ 6" 1 2, OF _ _ rnd_of_int] by simp
  show "\<lbrakk>99950000 \<le> s; s < 999500000\<rbrakk> \<Longrightarrow> length (fmt_f 0 (fdiv (rnd (of_int s)) (10 ^ 6))) \<le> 4"
    using length_si[of s 999499999 "of_int 999499999" "10 ^ 6" 0 3, OF _ _ rnd_of_int] by simp
  show "\<lbrakk>999500000 \<le> s; s < 9995000000\<rbrakk> \<Longrightarrow> length (fmt_f 2 (fdiv (rnd (of_int s)) (10 ^ 9))) \<le> 4"
    using length_si[of s 9994999999 "of_int 9994999999" "10 ^ 9" 2 1, OF _ _ rnd_of_int] by simp
  show "\<lbrakk>9995000000 \<le> s; s < 99950000000\<rbrakk> \<Longrightarrow> length (fmt_f 1 (fdiv (rnd (of_int s)) (10 ^ 9))) \<le> 4"
    using length_si[of s 99949999999 "of_int 99949999999" "10 ^ 9" 1 2, OF _ _ rnd_of_int] by simp
  show "\<lbrakk>99950000000 \<le> s; s < 999500000000\<rbrakk> \<Longrightarrow> length (fmt_f 0 (fdiv (rnd (of_int s)) (10 ^ 9))) \<le> 4"
    using length_si[of s 999499999999 "of_int 999499999999" "10 ^ 9" 0 3, OF _ _ rnd_of_int] by simp
  show "\<lbrakk>999500000000 \<le> s; s < 9995000000000\<rbrakk> \<Longrightarrow> length (fmt_f 2 (fdiv (rnd (of_int s)) (10 ^ 12))) \<le> 4"
    using length_si[of s 9994999999999 "of_int 9994999999999" "10 ^ 12" 2 1, OF _ _ rnd_of_int] by simp
  show "\<lbrakk>9995000000000 \<le> s; s < 99950000000000\<rbrakk> \<Longrightarrow> length (fmt_f 1 (fdiv (rnd (of_int s)) (10 ^ 12))) \<le> 4"
    using length_si[of s 99949999999999 "of_int 99949999999999" "10 ^ 12" 1 2, OF _ _ rnd_of_int] by simp
  show "\<lbrakk>99950000000000 \<le> s; s < 999500000000000\<rbrakk> \<Longrightarrow> length (fmt_f 0 (fdiv (rnd (of_int s)) (10 ^ 12))) \<le> 4"
    using length_si[of s 999499999999999 "of_int 999499999999999" "10 ^ 12" 0 3, OF _ _ rnd_of_int] by simp
qed

lemma si_branches_peta:
  "\<lbrakk>999500000000000 \<le> s; s < 9995000000000000\<rbrakk> \<Longrightarrow> length (fmt_f 2 (fdiv (rnd (of_int s)) (10 ^ 15))) \<le> 4"
  "\<lbrakk>9995000000000000 \<le> s; s < 99949999999999992\<rbrakk> \<Longrightarrow> length (fmt_f 1 (fdiv (rnd (of_int s)) (10 ^ 15))) \<le> 4"
  "\<lbrakk>99950000000000000 \<le> s; s < 999500000000000000\<rbrakk> \<Longrightarrow> length (fmt_f 0 (fdiv (rnd (of_int s)) (10 ^ 15))) \<le> 4"
  "\<lbrakk>999500000000000000 \<le> s; s < 2 ^ 63\<rbrakk> \<Longrightarrow> length (fmt_f 2 (fdiv (rnd (of_int s)) (10 ^ 18))) \<le> 4"
proof -
  assume s: "999500000000000 \<le> s" "s < 9995000000000000"
  have "fdiv (rnd (of_int s)) (10 ^ 15) \<le> lit_9_995"
    using fdiv_range(2)[of s 9995000000000000 9995000000000000 "10 ^ 15"] s rnd_cases(2)
    by (simp add: lit_9_995_def)
  moreover have "0 < fdiv (rnd (of_int s)) (10 ^ 15)"
    using fdiv_range(1)[of s s "rnd (of_int s)" "10 ^ 15"] s by simp
  ultimately show "length (fmt_f 2 (fdiv (rnd (of_int s)) (10 ^ 15))) \<le> 4"
    using length_fmt_bound[of "fdiv (rnd (of_int s)) (10 ^ 15)" lit_9_995 2 1]
    by (simp add: lit_values power_int_def power_one_over)
next
  assume s: "9995000000000000 \<le> s" "s < 99949999999999992"
  then show "length (fmt_f 1 (fdiv (rnd (of_int s)) (10 ^ 15))) \<le> 4"
    using length_si[of s 99949999999999991 99949999999999984 "10 ^ 15" 1 2] rnd_cases(1) by simp
next
  assume s: "99950000000000000 \<le> s" "s < 999500000000000000"
  then show "length (fmt_f 0 (fdiv (rnd (of_int s)) (10 ^ 15))) \<le> 4"
    using length_si[of s 999500000000000000 999500000000000000 "10 ^ 15" 0 4] rnd_cases(3) by simp
next
  assume s: "999500000000000000 \<le> s" "s < 2 ^ 63"
  then show "length (fmt_f 2 (fdiv (rnd (of_int s)) (10 ^ 18))) \<le> 4"
    using length_si[of s "2 ^ 63" "2 ^ 63" "10 ^ 18" 2 1] rnd_cases(4) by simp
qed

lemma length_if: "(c \<Longrightarrow> length a \<le> n) \<Longrightarrow> (\<not> c \<Longrightarrow> length b \<le> n) \<Longrightarrow> length (if c then a else b) \<le> n"
  by simp

lemma length_snprintf: "length t \<le> n \<Longrightarrow> length (snprintf_to k t) \<le> n"
  by (simp add: snprintf_to_def)

lemma length_unit: "length t \<le> 4 \<Longrightarrow> length (t @ [c]) \<le> 5" "length t \<le> 4 \<Longrightarrow> length (t @ [c, d]) \<le> 6"
  by simp_all

text \<open>
  C36. \<open>formatSI\<close> keeps its promise of at most five characters except for the eight integers just below
  \<open>99950000000000000\<close>, for which the test on the integer and the rounding of the quotient disagree:
  they are printed as \<open>100.0P\<close>.
\<close>

theorem formatSI_length:
  assumes "0 \<le> s" "s < 2 ^ 63"
  shows "length (formatSI s) \<le> 6 \<and>
    (length (formatSI s) \<le> 5 \<longleftrightarrow> \<not> (99949999999999992 \<le> s \<and> s < 99950000000000000))"
proof (cases "99949999999999992 \<le> s \<and> s < 99950000000000000")
  case True
  then have "formatSI s = ''100.0P''"
    using si_window_text[of s] by (simp add: formatSI_def snprintf_to_def)
  with True show ?thesis by simp
next
  case False
  have "length (formatSI s) \<le> 5"
    unfolding formatSI_def Let_def
    by (intro length_snprintf length_if; (rule length_unit)?;
        (rule si_branches si_branches_peta nat_dec_1[OF _ _ _ refl, of _ 5])?;
        use assms False in \<open>simp add: nat_less_iff\<close>)
  with False show ?thesis by simp
qed

theorem formatSI_length_witness:
  "length (formatSI 99949999999999999) \<le> 6 \<and>
    (length (formatSI 99949999999999999) \<le> 5 \<longleftrightarrow>
      \<not> (99949999999999992 \<le> (99949999999999999 :: int) \<and> (99949999999999999 :: int) < 99950000000000000))"
  by (rule formatSI_length) simp_all


text \<open>In units of a power of two the products and quotients are exact.\<close>

lemma iec_exact:
  assumes "0 < s"
  defines "n \<equiv> rnd (of_int s)"
  shows "fdiv n (2 ^ k) = n / 2 ^ k" "n / 2 ^ k = rnd (of_int s / 2 ^ k)"
    "fmul (2 ^ k) lit_9_995 = 2 ^ k * lit_9_995" "fmul (2 ^ k) lit_99_95 = 2 ^ k * lit_99_95"
    "fmul (2 ^ k) lit_1023_5 = 2 ^ k * lit_1023_5" "fmul (2 ^ k) 1024 = 2 ^ (k + 10)"
proof -
  have s: "0 < (of_int s :: rat)" using assms(1) by simp
  have scale: "rnd (x / 2 ^ k) = rnd x / 2 ^ k" "rnd (2 ^ k * x) = 2 ^ k * rnd x" if "0 < x" for x
    using rnd_scale[OF that, of "- int k"] rnd_scale[OF that, of "int k"]
    by (simp_all add: power_int_minus field_simps)
  show "fdiv n (2 ^ k) = n / 2 ^ k" "n / 2 ^ k = rnd (of_int s / 2 ^ k)"
    using scale(1)[OF rnd_pos[OF s]] scale(1)[OF s] rnd_rnd[OF s] by (simp_all add: n_def fdiv_def)
  have lit: "fmul (2 ^ k) (rnd x) = 2 ^ k * rnd x" if "0 < x" for x
    using scale(2)[OF rnd_pos[OF that]] rnd_rnd[OF that] by (simp add: fmul_def)
  show "fmul (2 ^ k) lit_9_995 = 2 ^ k * lit_9_995" "fmul (2 ^ k) lit_99_95 = 2 ^ k * lit_99_95"
    "fmul (2 ^ k) lit_1023_5 = 2 ^ k * lit_1023_5"
    unfolding lit_9_995_def lit_99_95_def lit_1023_5_def by (rule lit; simp)+
  show "fmul (2 ^ k) 1024 = 2 ^ (k + 10)"
    using rnd_pow2[of "k + 10"] by (simp add: fmul_def power_add)
qed

lemma iec_unit:
  assumes "0 < s"
  defines "n \<equiv> rnd (of_int s)"
  shows "n < fmul (2 ^ k) lit_9_995 \<Longrightarrow> length (fmt_f 2 (fdiv n (2 ^ k))) \<le> 4"
    "n < fmul (2 ^ k) lit_99_95 \<Longrightarrow> length (fmt_f 1 (fdiv n (2 ^ k))) \<le> 4"
    "n < fmul (2 ^ k) lit_1023_5 \<Longrightarrow> length (fmt_f 0 (fdiv n (2 ^ k))) \<le> 4"
proof -
  note ex = iec_exact[OF assms(1), of k, folded n_def]
  have s: "0 < (of_int s :: rat)" using assms(1) by simp
  have v: "0 < n / 2 ^ k" using rnd_pos[OF s] by (simp add: n_def)
  have scaled: "n / 2 ^ k < lit" if "n < 2 ^ k * lit" for lit
    using that by (simp add: field_simps)
  show "length (fmt_f 2 (fdiv n (2 ^ k))) \<le> 4" if "n < fmul (2 ^ k) lit_9_995"
    using length_fmt_bound[OF v less_imp_le[OF scaled[OF that[unfolded ex(3)]]], of 2 1]
    unfolding ex(1) by (simp add: lit_values power_int_def power_one_over)
  show "length (fmt_f 0 (fdiv n (2 ^ k))) \<le> 4" if "n < fmul (2 ^ k) lit_1023_5"
    using length_fmt_bound[OF v less_imp_le[OF scaled[OF that[unfolded ex(5)]]], of 0 4]
    unfolding ex(1) by (simp add: lit_values)
  show "length (fmt_f 1 (fdiv n (2 ^ k))) \<le> 4" if "n < fmul (2 ^ k) lit_99_95"
  proof -
    have "n / 2 ^ k < of_int 7033355980557517 * 2 powi (- 46)"
      using scaled[OF that[unfolded ex(4)]] by (simp only: lit_values)
    then have "n / 2 ^ k \<le> of_int (7033355980557517 - 1) * 2 powi (- 46)"
      unfolding ex(2) using s by (intro rnd_pred) simp_all
    from length_fmt_bound[OF v this, of 1 2] show ?thesis
      unfolding ex(1) by (simp add: power_int_def power_one_over)
  qed
qed

text \<open>
  \<open>formatIEC\<close> keeps its promise of at most six characters.
\<close>

theorem formatIEC_length:
  assumes "0 \<le> s" "s < 2 ^ 63"
  shows "length (formatIEC s) \<le> 6"
proof (cases "s < 1000")
  case True
  then have "rnd (of_int s) = of_int s" using assms(1) by (intro rnd_of_int) simp_all
  moreover have "(of_int s :: rat) < 1024" using True by simp
  moreover have "length (int_dec s) \<le> 6" using True assms(1) by (intro nat_dec_1[OF _ _ _ refl]) simp_all
  ultimately show ?thesis by (simp add: formatIEC_def Let_def length_snprintf)
next
  case False
  then have pos: "0 < s" by simp
  define n where "n = rnd (of_int s)"
  have small: "length (int_dec s) \<le> 6" if "n < 1024"
  proof -
    have "s < 1024"
    proof (rule ccontr)
      assume "\<not> s < 1024"
      then have "rnd (of_int 1024) \<le> n" unfolding n_def by (intro rnd_mono) simp_all
      with that show False using rnd_of_int[of 1024] by simp
    qed
    then show ?thesis using pos by (intro nat_dec_1[OF _ _ _ refl]) simp_all
  qed
  have "(of_int s :: rat) \<le> of_int (2 ^ 63)" using assms(2) by (simp only: of_int_le_iff)
  then have "n \<le> rnd (of_int (2 ^ 63))" unfolding n_def using pos by (intro rnd_mono) simp_all
  then have "n \<le> 2 ^ 63" using rnd_pow2[of 63] by simp
  then have top: "n < fmul (2 ^ 60) lit_9_995"
    unfolding iec_exact(3)[OF pos] by (simp add: lit_values power_int_def power_one_over)
  note units = iec_exact(6)[OF pos, of 10] iec_exact(6)[OF pos, of 20] iec_exact(6)[OF pos, of 30]
    iec_exact(6)[OF pos, of 40] iec_exact(6)[OF pos, of 50]
  have u: "fmul 1024 1024 = 2 ^ 20" "fmul (2 ^ 20) 1024 = 2 ^ 30" "fmul (2 ^ 30) 1024 = 2 ^ 40"
    "fmul (2 ^ 40) 1024 = 2 ^ 50" "fmul (2 ^ 50) 1024 = 2 ^ 60"
    using units by simp_all
  note B = iec_unit[OF pos, folded n_def]
  have B10: "n < fmul 1024 lit_9_995 \<Longrightarrow> length (fmt_f 2 (fdiv n 1024)) \<le> 4"
    "n < fmul 1024 lit_99_95 \<Longrightarrow> length (fmt_f 1 (fdiv n 1024)) \<le> 4"
    "n < fmul 1024 lit_1023_5 \<Longrightarrow> length (fmt_f 0 (fdiv n 1024)) \<le> 4"
    using B[of 10] by simp_all
  show ?thesis
    unfolding formatIEC_def Let_def n_def[symmetric] u
    by (intro length_snprintf length_if; (rule length_unit)?;
        (rule B B10 small)?;
        use top in simp)
qed

theorem formatIEC_length_witness: "length (formatIEC 9223372036854775807) \<le> 6"
  by (rule formatIEC_length) simp_all


section \<open>What a stream holds\<close>

text \<open>
  Everything that can be inserted, its text, and the room that the code asks for: one character more
  than the text, or \<open>kMaxNumericSize\<close> for numbers.
\<close>

datatype 'd log_item = IBool bool | IShort "16 word" | IUShort "16 word" | IInt "32 word" | IUInt "32 word"
  | ILong "64 word" | IULong "64 word" | ILongLong "64 word" | IULongLong "64 word" | IPointer "64 word"
  | IDouble 'd | IChar char | ICStr "string option" | IString string | IPiece string
  | IBuffer fixed_buffer | IFmt string | IAppend string

fun insert_item :: "('d \<Rightarrow> string) \<Rightarrow> 'd log_item \<Rightarrow> log_stream \<Rightarrow> log_stream result" where
  "insert_item g (IBool v) = ls_bool v"
| "insert_item g (IShort v) = ls_short v"
| "insert_item g (IUShort v) = ls_ushort v"
| "insert_item g (IInt v) = ls_int v"
| "insert_item g (IUInt v) = ls_uint v"
| "insert_item g (ILong v) = ls_long v"
| "insert_item g (IULong v) = ls_ulong v"
| "insert_item g (ILongLong v) = ls_longlong v"
| "insert_item g (IULongLong v) = ls_ulonglong v"
| "insert_item g (IPointer v) = ls_pointer v"
| "insert_item g (IDouble v) = ls_double g v"
| "insert_item g (IChar v) = ls_char v"
| "insert_item g (ICStr v) = ls_cstr v"
| "insert_item g (IString v) = ls_string v"
| "insert_item g (IPiece v) = ls_StringPiece v"
| "insert_item g (IBuffer v) = ls_Buffer v"
| "insert_item g (IFmt v) = ls_Fmt v"
| "insert_item g (IAppend v) = ls_append v"

fun item_text :: "('d \<Rightarrow> string) \<Rightarrow> 'd log_item \<Rightarrow> string" where
  "item_text g (IBool v) = (if v then ''1'' else ''0'')"
| "item_text g (IShort v) = int_dec (sint v)"
| "item_text g (IUShort v) = int_dec (uint v)"
| "item_text g (IInt v) = int_dec (sint v)"
| "item_text g (IUInt v) = int_dec (uint v)"
| "item_text g (ILong v) = int_dec (sint v)"
| "item_text g (IULong v) = int_dec (uint v)"
| "item_text g (ILongLong v) = int_dec (sint v)"
| "item_text g (IULongLong v) = int_dec (uint v)"
| "item_text g (IPointer v) = ''0x'' @ convertHex v"
| "item_text g (IDouble v) = g v"
| "item_text g (IChar v) = [v]"
| "item_text g (ICStr v) = (case v of Some t \<Rightarrow> t | None \<Rightarrow> ''(null)'')"
| "item_text g (IString v) = v"
| "item_text g (IPiece v) = v"
| "item_text g (IBuffer v) = fb_toString v"
| "item_text g (IFmt v) = v"
| "item_text g (IAppend v) = v"

fun numeric :: "'d log_item \<Rightarrow> bool" where
  "numeric (IShort _) = True" | "numeric (IUShort _) = True" | "numeric (IInt _) = True"
| "numeric (IUInt _) = True" | "numeric (ILong _) = True" | "numeric (IULong _) = True"
| "numeric (ILongLong _) = True" | "numeric (IULongLong _) = True" | "numeric (IPointer _) = True"
| "numeric (IDouble _) = True"
| "numeric _ = False"

definition item_room :: "('d \<Rightarrow> string) \<Rightarrow> 'd log_item \<Rightarrow> nat" where
  "item_room g it = (if numeric it then 48 else length (item_text g it) + 1)"

text \<open>The abstract stream: an item is taken whole or not at all.\<close>

definition put_item :: "('d \<Rightarrow> string) \<Rightarrow> nat \<Rightarrow> 'd log_item \<Rightarrow> string \<Rightarrow> string" where
  "put_item g cap it t = (if length t + item_room g it \<le> cap then t @ item_text g it else t)"

definition stream_inv :: "nat \<Rightarrow> log_stream \<Rightarrow> bool" where
  "stream_inv cap s = (length (fb_data (ls_buffer s)) = cap \<and> fb_cur (ls_buffer s) \<le> cap)"

definition stream_text :: "log_stream \<Rightarrow> string" where
  "stream_text s = fb_toString (ls_buffer s)"

definition good_g12 :: "('d \<Rightarrow> string) \<Rightarrow> bool" where
  "good_g12 g = (\<forall>v. length (g v) < 48)"

text \<open>One append and one number.\<close>

definition step_ok :: "nat \<Rightarrow> string \<Rightarrow> log_stream result \<Rightarrow> bool" where
  "step_ok cap t r = (\<exists>s'. r = Inr s' \<and> stream_inv cap s' \<and> stream_text s' = t)"

lemma stream_append_ok:
  assumes "stream_inv cap s"
  shows "step_ok cap (if length (stream_text s) + (length t + 1) \<le> cap then stream_text s @ t else stream_text s)
    (ls_with s (fb_append t (ls_buffer s)))"
  using assms
  by (auto simp: step_ok_def stream_inv_def stream_text_def fb_toString_def fb_append_def fb_write_def
      fb_avail_def fb_add_def ls_with_def Let_def overwrite_def)

lemma number_ok:
  assumes "stream_inv cap s" "length t < 48"
  shows "step_ok cap (if length (stream_text s) + 48 \<le> cap then stream_text s @ t else stream_text s)
    (if kMaxNumericSize \<le> fb_avail (ls_buffer s)
     then ls_with s (rbind (fb_write (t @ [CHR 0x00]) (ls_buffer s)) (\<lambda>b. Inr (fb_add (length t) b)))
     else Inr s)"
  using assms
  by (auto simp: step_ok_def stream_inv_def stream_text_def fb_toString_def fb_write_def
      fb_avail_def fb_add_def ls_with_def kMaxNumericSize_def overwrite_def)


lemma convert_text:
  fixes v :: "'a::len word"
  assumes "LENGTH('a) \<le> 64"
  shows "convert (sint v) = int_dec (sint v)" "length (convert (sint v)) < 48"
    "convert (uint v) = int_dec (uint v)" "length (convert (uint v)) < 48"
proof -
  have "uint v < 2 ^ LENGTH('a)" by (rule uint_bounded)
  also have "\<dots> \<le> 2 ^ 64" using assms by (intro power_increasing) simp_all
  finally have u: "nat (uint v) < 10 ^ 20" unfolding nat_less_iff[OF uint_ge_0] by simp
  have "\<bar>sint v\<bar> \<le> 2 ^ (LENGTH('a) - 1)"
    using sint_range_size[of v] by (simp add: word_size abs_le_iff)
  also have "(2 :: int) ^ (LENGTH('a) - 1) \<le> 2 ^ 63" using assms by (intro power_increasing) simp_all
  finally have "nat \<bar>sint v\<bar> < 10 ^ 20" by (simp add: nat_less_iff)
  then have "nat (sint v) < 10 ^ 20" "nat (- sint v) < 10 ^ 20" by (simp_all add: nat_less_iff abs_le_iff)
  note length_nat_dec_le[OF u] this[THEN length_nat_dec_le]
  moreover have "convert x = int_dec x" for x
    by (simp add: convert_def convert_loop_dec int_dec_def)
  ultimately show "convert (sint v) = int_dec (sint v)" "length (convert (sint v)) < 48"
    "convert (uint v) = int_dec (uint v)" "length (convert (uint v)) < 48"
    by (simp_all add: int_dec_def)
qed

lemma insert_item_ok:
  assumes "stream_inv cap s" "good_g12 g"
  shows "step_ok cap (put_item g cap it (stream_text s)) (insert_item g it s)"
proof -
  note A = stream_append_ok[OF assms(1)] and N = number_ok[OF assms(1)]
  note C = convert_text
  note ops = formatInteger_def ls_bool_def ls_char_def ls_cstr_def ls_string_def ls_StringPiece_def
    ls_Buffer_def ls_append_def ls_Fmt_def ls_short_def ls_ushort_def ls_int_def ls_uint_def
    ls_long_def ls_ulong_def ls_longlong_def ls_ulonglong_def put_item_def item_room_def
  show ?thesis
  proof (cases it)
    case (IShort v)
    have "- (2 ^ 31) \<le> sint v" "sint v < 2 ^ 31" using sint_range_size[of v] by (simp_all add: word_size)
    then have "sint (scast v :: 32 word) = sint v"
      by (simp add: signed_scast_eq signed_take_bit_int_eq_self)
    with N[of "convert (sint v)"] C[of v] IShort show ?thesis by (simp add: ops cong: if_cong split del: if_split)
  next
    case (IUShort v)
    have "uint v < 2 ^ 32" using uint_bounded[of v] by simp
    then have "uint (ucast v :: 32 word) = uint v"
      by (simp add: unsigned_ucast_eq take_bit_int_eq_self)
    with N[of "convert (uint v)"] C[of v] IUShort show ?thesis by (simp add: ops cong: if_cong split del: if_split)
  next
    case (IInt v)
    with N[of "convert (sint v)"] C[of v] show ?thesis by (simp add: ops cong: if_cong split del: if_split)
  next
    case (IUInt v)
    with N[of "convert (uint v)"] C[of v] show ?thesis by (simp add: ops cong: if_cong split del: if_split)
  next
    case (ILong v)
    with N[of "convert (sint v)"] C[of v] show ?thesis by (simp add: ops cong: if_cong split del: if_split)
  next
    case (IULong v)
    with N[of "convert (uint v)"] C[of v] show ?thesis by (simp add: ops cong: if_cong split del: if_split)
  next
    case (ILongLong v)
    with N[of "convert (sint v)"] C[of v] show ?thesis by (simp add: ops cong: if_cong split del: if_split)
  next
    case (IULongLong v)
    with N[of "convert (uint v)"] C[of v] show ?thesis by (simp add: ops cong: if_cong split del: if_split)
  next
    case (IPointer v)
    with N[of "''0x'' @ convertHex v"] convertHex_value(2)[of v] show ?thesis
      by (simp add: ops ls_pointer_def cong: if_cong split del: if_split)
  next
    case (IDouble v)
    have "length (g v) < 48" using assms(2) by (simp add: good_g12_def)
    moreover from this have sn: "snprintf_to (nat kMaxNumericSize) (g v) = g v"
      by (simp add: snprintf_to_def kMaxNumericSize_def)
    ultimately show ?thesis using N[of "g v"] IDouble
      by (simp add: ops ls_double_def sn cong: if_cong split del: if_split)
  next
    case (IChar v)
    with A[of "[v]"] show ?thesis by (simp add: ops cong: if_cong split del: if_split)
  next
    case (IString v)
    with A[of "v"] show ?thesis by (simp add: ops cong: if_cong split del: if_split)
  next
    case (IPiece v)
    with A[of "v"] show ?thesis by (simp add: ops cong: if_cong split del: if_split)
  next
    case (IBuffer v)
    with A[of "fb_toString v"] show ?thesis by (simp add: ops cong: if_cong split del: if_split)
  next
    case (IFmt v)
    with A[of "v"] show ?thesis by (simp add: ops cong: if_cong split del: if_split)
  next
    case (IAppend v)
    with A[of "v"] show ?thesis by (simp add: ops cong: if_cong split del: if_split)
  next
    case (IBool v)
    with A[of "''1''"] A[of "''0''"] show ?thesis by (cases v) (simp_all add: ops cong: if_cong split del: if_split)
  next
    case (ICStr v)
    with A[of "''(null)''"] A[of "the v"] show ?thesis by (cases v) (simp_all add: ops cong: if_cong split del: if_split)
  qed
qed

lemma insert_items_ok:
  assumes "stream_inv cap s" "good_g12 g"
  shows "\<exists>s'. rfold (insert_item g) items s = Inr s' \<and> stream_inv cap s' \<and>
    stream_text s' = fold (put_item g cap) items (stream_text s)"
  using assms(1)
proof (induction items arbitrary: s)
  case (Cons it items)
  from insert_item_ok[OF Cons.prems assms(2), of it] obtain s1 where
    "insert_item g it s = Inr s1" "stream_inv cap s1" "stream_text s1 = put_item g cap it (stream_text s)"
    by (auto simp: step_ok_def)
  with Cons.IH[of s1] show ?case by simp
qed simp

text \<open>
  C20. Whatever is inserted, in any order: no byte is written outside the array, and the stream holds the
  texts of the items in order, each of them whole or, when the room the code asks for is not left,
  not at all.
\<close>

theorem stream_holds_whole_items:
  assumes "stream_inv cap s" "good_g12 g"
  shows "\<exists>s'. rfold (insert_item g) items s = Inr s' \<and> stream_inv cap s' \<and>
    stream_text s' = fold (put_item g cap) items (stream_text s)"
  by (rule insert_items_ok[OF assms])

theorem stream_holds_whole_items_witness:
  "\<exists>s'. rfold (insert_item (\<lambda>v :: unit. ''0.5'')) [IInt (- 7), IChar (CHR '' ''), IDouble ()]
      \<lparr>ls_buffer = new_fixed_buffer (replicate kSmallBuffer (CHR ''?''))\<rparr> = Inr s' \<and>
    stream_inv kSmallBuffer s' \<and>
    stream_text s' = fold (put_item (\<lambda>v :: unit. ''0.5'') kSmallBuffer) [IInt (- 7), IChar (CHR '' ''), IDouble ()]
      (stream_text \<lparr>ls_buffer = new_fixed_buffer (replicate kSmallBuffer (CHR ''?''))\<rparr>)"
  by (rule stream_holds_whole_items) (simp_all add: stream_inv_def new_fixed_buffer_def good_g12_def)

end
