(* ===== verification/Queues.thy ===== *)
theory Queues
  imports Zing_Prelude
begin

text \<open>
  The monitors of src/zing/base: BlockingQueue.h, BoundedBlockingQueue.h, CountDownLatch.h/.cpp and
  the part of Condition.h they use. A function that holds the mutex from its first line runs as one
  atomic step up to its end or up to \<open>wait\<close>, which releases the mutex and blocks in the same step.
  A thread that is notified (or wakes up spuriously, which is allowed at any time) has to take the
  mutex again and tests its condition again.
\<close>

section \<open>Threads of a monitor\<close>

text \<open>
  Threads are positions of a list of program points. \<open>cnt\<close> counts the threads at points with a
  property, \<open>notify_one\<close> moves the thread that the scheduler picked (none when no thread waits),
  \<open>notify_all\<close> moves all that wait.
\<close>

definition cnt :: "('p \<Rightarrow> bool) \<Rightarrow> 'p list \<Rightarrow> nat" where
  "cnt P ts = length (filter P ts)"

definition may_notify :: "('p \<Rightarrow> bool) \<Rightarrow> nat option \<Rightarrow> 'p list \<Rightarrow> bool" where
  "may_notify P w ts =
     (case w of None \<Rightarrow> cnt P ts = 0 | Some u \<Rightarrow> u < length ts \<and> P (ts ! u))"

definition notify_one :: "('p \<Rightarrow> 'p) \<Rightarrow> nat option \<Rightarrow> 'p list \<Rightarrow> 'p list" where
  "notify_one wake w ts = (case w of None \<Rightarrow> ts | Some u \<Rightarrow> ts[u := wake (ts ! u)])"

definition notify_all :: "('p \<Rightarrow> bool) \<Rightarrow> ('p \<Rightarrow> 'p) \<Rightarrow> 'p list \<Rightarrow> 'p list" where
  "notify_all P wake ts = map (\<lambda>p. if P p then wake p else p) ts"

lemma cnt_update:
  assumes "t < length ts"
  shows "cnt P (ts[t := p]) + (if P (ts ! t) then 1 else 0) = cnt P ts + (if P p then 1 else 0)"
  using assms
proof (induction ts arbitrary: t)
  case (Cons q ts)
  show ?case
  proof (cases t)
    case (Suc k)
    with Cons.IH[of k] Cons.prems show ?thesis by (simp add: cnt_def split: if_splits)
  qed (simp add: cnt_def)
qed simp

lemma cnt_same: "t < length ts \<Longrightarrow> P (ts ! t) = P p \<Longrightarrow> cnt P (ts[t := p]) = cnt P ts"
  using cnt_update[of t ts P p] by simp

lemma cnt_leave: "t < length ts \<Longrightarrow> P (ts ! t) \<Longrightarrow> \<not> P p \<Longrightarrow> cnt P (ts[t := p]) + 1 = cnt P ts"
  using cnt_update[of t ts P p] by simp

lemma cnt_enter: "t < length ts \<Longrightarrow> \<not> P (ts ! t) \<Longrightarrow> P p \<Longrightarrow> cnt P (ts[t := p]) = cnt P ts + 1"
  using cnt_update[of t ts P p] by simp

lemma cnt_pos: "t < length ts \<Longrightarrow> P (ts ! t) \<Longrightarrow> 0 < cnt P ts"
  by (auto simp: cnt_def filter_empty_conv)

lemma cnt_posD: "0 < cnt P ts \<Longrightarrow> \<exists>t < length ts. P (ts ! t)"
  by (auto simp: cnt_def filter_empty_conv in_set_conv_nth)

lemma cnt_replicate [simp]: "cnt P (replicate n p) = (if P p then n else 0)"
  by (simp add: cnt_def)

lemma length_notify_one [simp]: "length (notify_one wake w ts) = length ts"
  by (simp add: notify_one_def split: option.split)

section \<open>BlockingQueue\<close>

datatype bq_point = BIdle | BTake | BTakeWait

record 'a blocking_queue =
  bq_queue :: "'a list"
  bq_threads :: "bq_point list"

text \<open>Constructed with no elements; \<open>n\<close> threads are going to take from it.\<close>

definition new_bq :: "nat \<Rightarrow> 'a blocking_queue" where
  "new_bq n = \<lparr>bq_queue = [], bq_threads = replicate n BIdle\<rparr>"

fun bq_wake :: "bq_point \<Rightarrow> bq_point" where
  "bq_wake BTakeWait = BTake"
| "bq_wake p = p"

text \<open>Any thread may put; both overloads push the element. \<open>w\<close> is the thread that \<open>notify\<close> picks.\<close>

definition bq_put :: "'a \<Rightarrow> nat option \<Rightarrow> 'a blocking_queue \<Rightarrow> 'a blocking_queue" where
  "bq_put x w q =
     q\<lparr>bq_queue := bq_queue q @ [x], bq_threads := notify_one bq_wake w (bq_threads q)\<rparr>"

text \<open>
  The loop of \<open>take\<close> by thread \<open>t\<close>, from where it holds the mutex: it blocks, or it returns the
  front.
\<close>

definition bq_take :: "nat \<Rightarrow> 'a blocking_queue \<Rightarrow> ('a option \<times> 'a blocking_queue) result" where
  "bq_take t q =
     (if bq_queue q = [] then Inr (None, q\<lparr>bq_threads := (bq_threads q)[t := BTakeWait]\<rparr>)
      else case bq_queue q of
             [] \<Rightarrow> Inl AssertFail
           | front # rest \<Rightarrow>
               Inr (Some front, q\<lparr>bq_queue := rest, bq_threads := (bq_threads q)[t := BIdle]\<rparr>))"

definition bq_drain :: "'a blocking_queue \<Rightarrow> 'a list \<times> 'a blocking_queue" where
  "bq_drain q = (bq_queue q, q\<lparr>bq_queue := []\<rparr>)"

definition bq_size :: "'a blocking_queue \<Rightarrow> nat" where
  "bq_size q = length (bq_queue q)"

text \<open>
  A run of the queue, with the elements put and taken so far. \<open>bq_call\<close> is a thread that enters
  \<open>take\<close>, \<open>bq_spurious\<close> one that wakes up unasked.
\<close>

inductive bq_run :: "nat \<Rightarrow> 'a list \<Rightarrow> 'a list \<Rightarrow> 'a blocking_queue \<Rightarrow> bool" for n where
  bq_start: "bq_run n [] [] (new_bq n)"
| bq_call: "bq_run n ps gs q \<Longrightarrow> t < n \<Longrightarrow> bq_threads q ! t = BIdle \<Longrightarrow>
    bq_run n ps gs (q\<lparr>bq_threads := (bq_threads q)[t := BTake]\<rparr>)"
| bq_spurious: "bq_run n ps gs q \<Longrightarrow> t < n \<Longrightarrow> bq_threads q ! t = BTakeWait \<Longrightarrow>
    bq_run n ps gs (q\<lparr>bq_threads := (bq_threads q)[t := BTake]\<rparr>)"
| bq_puts: "bq_run n ps gs q \<Longrightarrow> may_notify (\<lambda>p. p = BTakeWait) w (bq_threads q) \<Longrightarrow>
    bq_run n (ps @ [x]) gs (bq_put x w q)"
| bq_takes: "bq_run n ps gs q \<Longrightarrow> t < n \<Longrightarrow> bq_threads q ! t = BTake \<Longrightarrow>
    bq_take t q = Inr (r, q') \<Longrightarrow> bq_run n ps (gs @ (case r of None \<Rightarrow> [] | Some x \<Rightarrow> [x])) q'"
| bq_drains: "bq_run n ps gs q \<Longrightarrow> bq_drain q = (xs, q') \<Longrightarrow> bq_run n ps (gs @ xs) q'"

text \<open>
  While a thread waits, every element present is matched by a thread that was notified for it (or
  is entering) and will take it.
\<close>

definition bq_inv :: "nat \<Rightarrow> 'a list \<Rightarrow> 'a list \<Rightarrow> 'a blocking_queue \<Rightarrow> bool" where
  "bq_inv n ps gs q = (ps = gs @ bq_queue q \<and> length (bq_threads q) = n \<and>
     (0 < cnt (\<lambda>p. p = BTakeWait) (bq_threads q) \<longrightarrow>
        length (bq_queue q) \<le> cnt (\<lambda>p. p = BTake) (bq_threads q)))"

lemma bq_run_inv: "bq_run n ps gs q \<Longrightarrow> bq_inv n ps gs q"
proof (induction rule: bq_run.induct)
  case bq_start
  then show ?case by (simp add: bq_inv_def new_bq_def)
next
  case (bq_call ps gs q t)
  have "cnt (\<lambda>p. p = BTakeWait) ((bq_threads q)[t := BTake]) = cnt (\<lambda>p. p = BTakeWait) (bq_threads q)"
    "cnt (\<lambda>p. p = BTake) ((bq_threads q)[t := BTake]) = cnt (\<lambda>p. p = BTake) (bq_threads q) + 1"
    using bq_call by (intro cnt_same cnt_enter; simp add: bq_inv_def)+
  with bq_call show ?case by (auto simp: bq_inv_def)
next
  case (bq_spurious ps gs q t)
  have "cnt (\<lambda>p. p = BTake) ((bq_threads q)[t := BTake]) = cnt (\<lambda>p. p = BTake) (bq_threads q) + 1"
    "0 < cnt (\<lambda>p. p = BTakeWait) (bq_threads q)"
    using bq_spurious by (intro cnt_enter cnt_pos[of t]; simp add: bq_inv_def)+
  with bq_spurious show ?case by (simp add: bq_inv_def)
next
  case (bq_puts ps gs q w x)
  show ?case
  proof (cases w)
    case None
    with bq_puts show ?thesis by (simp add: bq_inv_def bq_put_def may_notify_def notify_one_def)
  next
    case (Some u)
    with bq_puts have u: "u < length (bq_threads q)" "bq_threads q ! u = BTakeWait"
      by (simp_all add: may_notify_def)
    then have "cnt (\<lambda>p. p = BTake) ((bq_threads q)[u := BTake]) = cnt (\<lambda>p. p = BTake) (bq_threads q) + 1"
      "0 < cnt (\<lambda>p. p = BTakeWait) (bq_threads q)"
      by (intro cnt_enter cnt_pos[of u]; simp)+
    with Some u bq_puts show ?thesis by (simp add: bq_inv_def bq_put_def notify_one_def)
  qed
next
  case (bq_takes ps gs q t r q')
  show ?case
  proof (cases "bq_queue q")
    case Nil
    with bq_takes show ?thesis by (auto simp: bq_take_def bq_inv_def)
  next
    case (Cons x xs)
    have "cnt (\<lambda>p. p = BTake) ((bq_threads q)[t := BIdle]) + 1 = cnt (\<lambda>p. p = BTake) (bq_threads q)"
      "cnt (\<lambda>p. p = BTakeWait) ((bq_threads q)[t := BIdle]) = cnt (\<lambda>p. p = BTakeWait) (bq_threads q)"
      using bq_takes by (intro cnt_leave cnt_same; simp add: bq_inv_def)+
    with bq_takes Cons show ?thesis by (auto simp: bq_take_def bq_inv_def)
  qed
next
  case (bq_drains ps gs q xs q')
  then show ?case by (auto simp: bq_drain_def bq_inv_def)
qed

text \<open>
  In every run elements come out in the order they went in, none lost or twice, no assertion fails,
  and a thread that waits while the queue holds elements is not forgotten: another thread is on its
  way to them and its \<open>take\<close> will return one.
\<close>

theorem blocking_queue_fifo:
  assumes "bq_run n ps gs q"
  shows "ps = gs @ bq_queue q \<and>
    ((\<exists>t < n. bq_threads q ! t = BTakeWait) \<and> bq_queue q \<noteq> [] \<longrightarrow>
      (\<exists>u < n. bq_threads q ! u = BTake \<and> bq_take u q =
        Inr (Some (hd (bq_queue q)), q\<lparr>bq_queue := tl (bq_queue q), bq_threads := (bq_threads q)[u := BIdle]\<rparr>)))"
proof -
  note inv = bq_run_inv[OF assms, unfolded bq_inv_def]
  have "\<exists>u < n. bq_threads q ! u = BTake \<and> bq_take u q =
      Inr (Some (hd (bq_queue q)), q\<lparr>bq_queue := tl (bq_queue q), bq_threads := (bq_threads q)[u := BIdle]\<rparr>)"
    if w: "t < n" "bq_threads q ! t = BTakeWait" and ne: "bq_queue q \<noteq> []" for t
  proof -
    have "0 < cnt (\<lambda>p. p = BTakeWait) (bq_threads q)" using inv w by (intro cnt_pos[of t]) simp_all
    with inv ne have "0 < cnt (\<lambda>p. p = BTake) (bq_threads q)" by (cases "bq_queue q") auto
    from cnt_posD[OF this] inv ne show ?thesis by (auto simp: bq_take_def neq_Nil_conv)
  qed
  with inv show ?thesis by blast
qed

text \<open>A taker blocks, an element is put: the taker that was notified gets it.\<close>

theorem blocking_queue_fifo_witness:
  "\<exists>q. bq_run 1 [5 :: int] [] q \<and> bq_queue q = [5] \<and> [5] = [] @ bq_queue q"
proof -
  have "bq_run 1 ([] @ [5 :: int]) [] (bq_put 5 None (new_bq 1))"
    by (rule bq_puts[OF bq_start]) (simp add: may_notify_def new_bq_def cnt_def)
  then have run: "bq_run 1 [5 :: int] [] (bq_put 5 None (new_bq 1))" by simp
  from blocking_queue_fifo[OF this] run show ?thesis
    by (intro exI[of _ "bq_put 5 None (new_bq 1)"]) (simp add: bq_put_def new_bq_def)
qed

section \<open>BoundedBlockingQueue\<close>

datatype 'a bb_point = QIdle | QPut 'a | QPutWait 'a | QTake | QTakeWait

fun put_waits :: "'a bb_point \<Rightarrow> bool" where
  "put_waits (QPutWait x) = True" | "put_waits p = False"

fun putting :: "'a bb_point \<Rightarrow> bool" where
  "putting (QPut x) = True" | "putting p = False"

fun take_waits :: "'a bb_point \<Rightarrow> bool" where
  "take_waits QTakeWait = True" | "take_waits p = False"

fun taking :: "'a bb_point \<Rightarrow> bool" where
  "taking QTake = True" | "taking p = False"

fun bb_wake :: "'a bb_point \<Rightarrow> 'a bb_point" where
  "bb_wake (QPutWait x) = QPut x"
| "bb_wake QTakeWait = QTake"
| "bb_wake p = p"

record 'a bounded_queue =
  bb_queue :: "'a list"
  bb_maxSize :: int
  bb_threads :: "'a bb_point list"

definition new_bb :: "nat \<Rightarrow> int \<Rightarrow> 'a bounded_queue result" where
  "new_bb n maxSize =
     (if 0 < maxSize then Inr \<lparr>bb_queue = [], bb_maxSize = maxSize, bb_threads = replicate n QIdle\<rparr>
      else Inl AssertFail)"

text \<open>\<open>static_cast<int>\<close> keeps the low 32 bits of the size.\<close>

definition isFull :: "'a bounded_queue \<Rightarrow> bool" where
  "isFull q = (sint (of_nat (length (bb_queue q)) :: 32 word) = bb_maxSize q)"

definition bb_put :: "nat \<Rightarrow> 'a \<Rightarrow> nat option \<Rightarrow> 'a bounded_queue \<Rightarrow> 'a bounded_queue" where
  "bb_put t x w q =
     (if isFull q then q\<lparr>bb_threads := (bb_threads q)[t := QPutWait x]\<rparr>
      else q\<lparr>bb_queue := bb_queue q @ [x],
             bb_threads := notify_one bb_wake w ((bb_threads q)[t := QIdle])\<rparr>)"

definition bb_take :: "nat \<Rightarrow> nat option \<Rightarrow> 'a bounded_queue \<Rightarrow> ('a option \<times> 'a bounded_queue) result" where
  "bb_take t w q =
     (if bb_queue q = [] then Inr (None, q\<lparr>bb_threads := (bb_threads q)[t := QTakeWait]\<rparr>)
      else case bb_queue q of
             [] \<Rightarrow> Inl AssertFail
           | front # rest \<Rightarrow>
               Inr (Some front, q\<lparr>bb_queue := rest,
                 bb_threads := notify_one bb_wake w ((bb_threads q)[t := QIdle])\<rparr>))"

definition bb_empty :: "'a bounded_queue \<Rightarrow> bool" where
  "bb_empty q = (bb_queue q = [])"

definition bb_full :: "'a bounded_queue \<Rightarrow> bool" where
  "bb_full q = isFull q"

definition bb_size :: "'a bounded_queue \<Rightarrow> nat" where
  "bb_size q = length (bb_queue q)"

definition bb_capacity :: "'a bounded_queue \<Rightarrow> int" where
  "bb_capacity q = bb_maxSize q"

text \<open>
  Runs: a thread that calls \<open>put\<close> or \<open>take\<close>, a spurious wake-up, the two critical sections. The
  thread that is notified waits on the other condition, so it is not the one that notifies.
\<close>

inductive bb_run :: "nat \<Rightarrow> int \<Rightarrow> 'a list \<Rightarrow> 'a list \<Rightarrow> 'a bounded_queue \<Rightarrow> bool" for n m where
  bb_start: "new_bb n m = Inr q \<Longrightarrow> bb_run n m [] [] q"
| bb_call: "bb_run n m ps gs q \<Longrightarrow> t < n \<Longrightarrow> bb_threads q ! t = QIdle \<Longrightarrow> putting p \<or> taking p \<Longrightarrow>
    bb_run n m ps gs (q\<lparr>bb_threads := (bb_threads q)[t := p]\<rparr>)"
| bb_spurious: "bb_run n m ps gs q \<Longrightarrow> t < n \<Longrightarrow> put_waits (bb_threads q ! t) \<or> take_waits (bb_threads q ! t) \<Longrightarrow>
    bb_run n m ps gs (q\<lparr>bb_threads := (bb_threads q)[t := bb_wake (bb_threads q ! t)]\<rparr>)"
| bb_puts: "bb_run n m ps gs q \<Longrightarrow> t < n \<Longrightarrow> bb_threads q ! t = QPut x \<Longrightarrow>
    may_notify take_waits w (bb_threads q) \<Longrightarrow>
    bb_run n m (if isFull q then ps else ps @ [x]) gs (bb_put t x w q)"
| bb_takes: "bb_run n m ps gs q \<Longrightarrow> t < n \<Longrightarrow> bb_threads q ! t = QTake \<Longrightarrow>
    may_notify put_waits w (bb_threads q) \<Longrightarrow> bb_take t w q = Inr (r, q') \<Longrightarrow>
    bb_run n m ps (gs @ (case r of None \<Rightarrow> [] | Some x \<Rightarrow> [x])) q'"

definition bb_inv :: "nat \<Rightarrow> int \<Rightarrow> 'a list \<Rightarrow> 'a list \<Rightarrow> 'a bounded_queue \<Rightarrow> bool" where
  "bb_inv n m ps gs q =
     (ps = gs @ bb_queue q \<and> length (bb_threads q) = n \<and> bb_maxSize q = m \<and>
      0 < m \<and> int (length (bb_queue q)) \<le> m \<and>
      (0 < cnt take_waits (bb_threads q) \<longrightarrow> length (bb_queue q) \<le> cnt taking (bb_threads q)) \<and>
      (0 < cnt put_waits (bb_threads q) \<longrightarrow> m - int (length (bb_queue q)) \<le> int (cnt putting (bb_threads q))))"


lemma isFull_iff:
  assumes "int (length (bb_queue q)) \<le> bb_maxSize q" "bb_maxSize q < 2 ^ 31"
  shows "isFull q \<longleftrightarrow> int (length (bb_queue q)) = bb_maxSize q"
proof -
  have "sint (word_of_nat (length (bb_queue q)) :: 32 word) = int (length (bb_queue q))"
    using assms by (simp add: signed_of_nat signed_take_bit_int_eq_self)
  then show ?thesis by (simp add: isFull_def)
qed

text \<open>How the four counts move when one thread moves.\<close>

lemma bb_counts:
  assumes "t < length ts"
  shows "cnt putting (ts[t := p]) + of_bool (putting (ts ! t)) = cnt putting ts + of_bool (putting p)"
    "cnt put_waits (ts[t := p]) + of_bool (put_waits (ts ! t)) = cnt put_waits ts + of_bool (put_waits p)"
    "cnt taking (ts[t := p]) + of_bool (taking (ts ! t)) = cnt taking ts + of_bool (taking p)"
    "cnt take_waits (ts[t := p]) + of_bool (take_waits (ts ! t)) = cnt take_waits ts + of_bool (take_waits p)"
  using cnt_update[OF assms] by (simp_all add: of_bool_def split: if_splits)

lemma putting_iff: "putting p \<longleftrightarrow> (\<exists>x. p = QPut x)"
  and put_waits_iff: "put_waits p \<longleftrightarrow> (\<exists>x. p = QPutWait x)"
  and taking_iff: "taking p \<longleftrightarrow> p = QTake"
  and take_waits_iff: "take_waits p \<longleftrightarrow> p = QTakeWait"
  by (cases p; simp)+

lemma bb_inv_call:
  assumes "bb_inv n m ps gs q" "t < n" "bb_threads q ! t = QIdle" "putting p \<or> taking p"
  shows "bb_inv n m ps gs (q\<lparr>bb_threads := (bb_threads q)[t := p]\<rparr>)"
proof -
  have t: "t < length (bb_threads q)" using assms(1,2) by (simp add: bb_inv_def)
  show ?thesis
    using assms bb_counts[OF t, of p] unfolding bb_inv_def
    by (auto simp: putting_iff taking_iff)
qed

lemma bb_inv_spurious:
  assumes "bb_inv n m ps gs q" "t < n" "put_waits (bb_threads q ! t) \<or> take_waits (bb_threads q ! t)"
  shows "bb_inv n m ps gs (q\<lparr>bb_threads := (bb_threads q)[t := bb_wake (bb_threads q ! t)]\<rparr>)"
proof -
  have t: "t < length (bb_threads q)" using assms(1,2) by (simp add: bb_inv_def)
  show ?thesis
    using assms bb_counts[OF t, of "bb_wake (bb_threads q ! t)"] unfolding bb_inv_def
    by (auto simp: put_waits_iff take_waits_iff)
qed

lemma bb_inv_put:
  assumes "bb_inv n m ps gs q" "m < 2 ^ 31" "t < n" "bb_threads q ! t = QPut x"
    and w: "may_notify take_waits w (bb_threads q)"
  shows "bb_inv n m (if isFull q then ps else ps @ [x]) gs (bb_put t x w q)"
proof -
  let ?ts = "bb_threads q"
  have t: "t < length ?ts" using assms(1,3) by (simp add: bb_inv_def)
  have full: "isFull q \<longleftrightarrow> int (length (bb_queue q)) = m"
    using assms(1,2) isFull_iff[of q] by (simp add: bb_inv_def)
  show ?thesis
  proof (cases "isFull q")
    case True
    with assms bb_counts[OF t, of "QPutWait x"] full show ?thesis
      by (simp add: bb_inv_def bb_put_def)
  next
    case False
    note c = bb_counts[OF t, of QIdle]
    show ?thesis
    proof (cases w)
      case None
      with False assms c full show ?thesis
        by (auto simp: bb_inv_def bb_put_def may_notify_def notify_one_def)
    next
      case (Some u)
      with w assms(4) have "u \<noteq> t" by (auto simp: may_notify_def)
      with Some w have u: "u < length (?ts[t := QIdle])" "(?ts[t := QIdle]) ! u = QTakeWait" "?ts ! u = QTakeWait"
        by (auto simp: may_notify_def take_waits_iff)
      note d = bb_counts[OF u(1), of QTake, unfolded u(2)]
      have "0 < cnt take_waits ?ts" using u by (intro cnt_pos[of u]) simp_all
      with Some False assms c d u full show ?thesis
        by (auto simp: bb_inv_def bb_put_def notify_one_def)
    qed
  qed
qed

lemma bb_inv_take:
  assumes "bb_inv n m ps gs q" "t < n" "bb_threads q ! t = QTake"
    and w: "may_notify put_waits w (bb_threads q)" and r: "bb_take t w q = Inr (r, q')"
  shows "bb_inv n m ps (gs @ (case r of None \<Rightarrow> [] | Some x \<Rightarrow> [x])) q'"
proof -
  let ?ts = "bb_threads q"
  have t: "t < length ?ts" using assms(1,2) by (simp add: bb_inv_def)
  show ?thesis
  proof (cases "bb_queue q")
    case Nil
    with assms bb_counts[OF t, of QTakeWait] show ?thesis
      by (auto simp: bb_inv_def bb_take_def)
  next
    case (Cons x xs)
    note c = bb_counts[OF t, of QIdle]
    show ?thesis
    proof (cases w)
      case None
      with Cons assms c show ?thesis
        by (auto simp: bb_inv_def bb_take_def may_notify_def notify_one_def)
    next
      case (Some u)
      with w assms(3) have "u \<noteq> t" by (auto simp: may_notify_def)
      with Some w obtain y where u: "u < length (?ts[t := QIdle])" "(?ts[t := QIdle]) ! u = QPutWait y"
        "?ts ! u = QPutWait y"
        by (auto simp: may_notify_def put_waits_iff)
      note d = bb_counts[OF u(1), of "QPut y", unfolded u(2)]
      have "0 < cnt put_waits ?ts" using u by (intro cnt_pos[of u]) simp_all
      with Some Cons assms c d u show ?thesis
        by (auto simp: bb_inv_def bb_take_def notify_one_def)
    qed
  qed
qed

lemma bb_run_inv: "bb_run n m ps gs q \<Longrightarrow> m < 2 ^ 31 \<Longrightarrow> bb_inv n m ps gs q"
proof (induction rule: bb_run.induct)
  case (bb_start q)
  then show ?case by (auto simp: new_bb_def bb_inv_def split: if_splits)
next
  case bb_call
  then show ?case by (intro bb_inv_call) simp_all
next
  case bb_spurious
  then show ?case by (intro bb_inv_spurious) simp_all
next
  case bb_puts
  then show ?case by (intro bb_inv_put) simp_all
next
  case bb_takes
  then show ?case by (intro bb_inv_take) simp_all
qed


text \<open>
  C18. The bounded queue never holds more than its capacity, hands elements out in the order they came
  in, and forgets no waiting thread: a taker waits next to elements only while another taker is on
  its way, a putter next to free places only while another putter is, so the queue never stands
  still with threads waiting on both sides.
\<close>

theorem bounded_queue_fifo:
  assumes "bb_run n m ps gs q" "m < 2 ^ 31"
  shows "ps = gs @ bb_queue q \<and> int (bb_size q) \<le> bb_capacity q \<and>
    (0 < cnt take_waits (bb_threads q) \<and> \<not> bb_empty q \<longrightarrow> 0 < cnt taking (bb_threads q)) \<and>
    (0 < cnt put_waits (bb_threads q) \<and> \<not> bb_full q \<longrightarrow> 0 < cnt putting (bb_threads q)) \<and>
    (0 < cnt take_waits (bb_threads q) \<and> 0 < cnt put_waits (bb_threads q) \<longrightarrow>
       0 < cnt taking (bb_threads q) \<or> 0 < cnt putting (bb_threads q))"
proof -
  note inv = bb_run_inv[OF assms, unfolded bb_inv_def]
  have full: "bb_full q \<longleftrightarrow> int (length (bb_queue q)) = m"
    unfolding bb_full_def using inv assms(2) isFull_iff[of q] by simp
  have take: "0 < cnt taking (bb_threads q)" if "0 < cnt take_waits (bb_threads q)" "bb_queue q \<noteq> []"
    using inv that by (cases "bb_queue q") auto
  have put: "0 < cnt putting (bb_threads q)"
    if "0 < cnt put_waits (bb_threads q)" "int (length (bb_queue q)) \<noteq> m"
    using inv that by auto
  have "0 < cnt taking (bb_threads q) \<or> 0 < cnt putting (bb_threads q)"
    if "0 < cnt take_waits (bb_threads q)" "0 < cnt put_waits (bb_threads q)"
  proof (cases "bb_queue q = []")
    case True
    with inv have "int (length (bb_queue q)) \<noteq> m" by simp
    from put[OF that(2) this] show ?thesis ..
  next
    case False
    from take[OF that(1) this] show ?thesis ..
  qed
  moreover have "ps = gs @ bb_queue q" "int (length (bb_queue q)) \<le> bb_maxSize q" using inv by simp_all
  ultimately show ?thesis
    unfolding bb_size_def bb_capacity_def bb_empty_def full by (intro conjI impI) (auto intro: take put)
qed

text \<open>Two threads, capacity 1: the second put blocks while the queue is full.\<close>

theorem bounded_queue_fifo_witness:
  "\<exists>q. bb_run 2 1 [7 :: int] [] q \<and> bb_threads q = [QIdle, QPutWait 8] \<and> [7] = [] @ bb_queue q \<and>
    int (bb_size q) \<le> bb_capacity q"
proof -
  define q0 :: "int bounded_queue" where
    "q0 = \<lparr>bb_queue = [], bb_maxSize = 1, bb_threads = [QIdle, QIdle]\<rparr>"
  have 0: "bb_run 2 1 [] [] q0" by (rule bb_start) (simp add: new_bb_def q0_def eval_nat_numeral)
  have 1: "bb_run 2 1 [] [] (q0\<lparr>bb_threads := [QPut 7, QIdle]\<rparr>)"
    using bb_call[OF 0, of 0 "QPut 7"] by (simp add: q0_def)
  have 2: "bb_run 2 1 [7] [] (q0\<lparr>bb_queue := [7], bb_threads := [QIdle, QIdle]\<rparr>)"
    using bb_puts[OF 1, of 0 7 None]
    by (simp add: q0_def may_notify_def cnt_def isFull_def bb_put_def notify_one_def)
  have 3: "bb_run 2 1 [7] [] (q0\<lparr>bb_queue := [7], bb_threads := [QIdle, QPut 8]\<rparr>)"
    using bb_call[OF 2, of 1 "QPut 8"] by (simp add: q0_def)
  have 4: "bb_run 2 1 [7] [] (q0\<lparr>bb_queue := [7], bb_threads := [QIdle, QPutWait 8]\<rparr>)"
    using bb_puts[OF 3, of 1 8 None]
    by (simp add: q0_def may_notify_def cnt_def isFull_def bb_put_def)
  with bounded_queue_fifo[OF 4] show ?thesis by (intro exI conjI) (auto simp: q0_def)
qed

section \<open>CountDownLatch\<close>

datatype la_point = LIdle | LTest | LBlocked | LReturned

record latch =
  la_count :: int
  la_threads :: "la_point list"

definition new_latch :: "nat \<Rightarrow> int \<Rightarrow> latch" where
  "new_latch n count = \<lparr>la_count = count, la_threads = replicate n LIdle\<rparr>"

fun la_wake :: "la_point \<Rightarrow> la_point" where
  "la_wake LBlocked = LTest"
| "la_wake p = p"

definition la_wait :: "nat \<Rightarrow> latch \<Rightarrow> latch" where
  "la_wait t s = s\<lparr>la_threads := (la_threads s)[t := (if 0 < la_count s then LBlocked else LReturned)]\<rparr>"

definition la_countDown :: "latch \<Rightarrow> latch" where
  "la_countDown s =
     (let s = s\<lparr>la_count := la_count s - 1\<rparr>
      in if la_count s = 0 then s\<lparr>la_threads := notify_all (\<lambda>p. p = LBlocked) la_wake (la_threads s)\<rparr> else s)"

definition la_getCount :: "latch \<Rightarrow> int" where
  "la_getCount s = la_count s"

text \<open>Runs with the number of calls of \<open>countDown\<close> so far.\<close>

inductive la_run :: "nat \<Rightarrow> int \<Rightarrow> nat \<Rightarrow> latch \<Rightarrow> bool" for n c where
  la_start: "la_run n c 0 (new_latch n c)"
| la_call: "la_run n c k s \<Longrightarrow> t < n \<Longrightarrow> la_threads s ! t = LIdle \<Longrightarrow>
    la_run n c k (s\<lparr>la_threads := (la_threads s)[t := LTest]\<rparr>)"
| la_spurious: "la_run n c k s \<Longrightarrow> t < n \<Longrightarrow> la_threads s ! t = LBlocked \<Longrightarrow>
    la_run n c k (s\<lparr>la_threads := (la_threads s)[t := LTest]\<rparr>)"
| la_waits: "la_run n c k s \<Longrightarrow> t < n \<Longrightarrow> la_threads s ! t = LTest \<Longrightarrow> la_run n c k (la_wait t s)"
| la_counts: "la_run n c k s \<Longrightarrow> la_run n c (Suc k) (la_countDown s)"

text \<open>
  The latch opens exactly when the count is used up: nobody returns from \<open>wait\<close> before, and once
  the count has reached zero nobody is left blocked.
\<close>

theorem latch_opens_once_counted:
  assumes "la_run n c k s"
  shows "la_getCount s = c - int k \<and>
    (LReturned \<in> set (la_threads s) \<longrightarrow> la_getCount s \<le> 0) \<and>
    (la_getCount s \<le> 0 \<longrightarrow> LBlocked \<notin> set (la_threads s))"
  using assms
proof (induction rule: la_run.induct)
  case la_start
  then show ?case by (auto simp: la_getCount_def new_latch_def)
next
  case (la_call k s t)
  then show ?case by (auto simp: la_getCount_def dest!: set_update_subset_insert[THEN subsetD])
next
  case (la_spurious k s t)
  then show ?case by (auto simp: la_getCount_def dest!: set_update_subset_insert[THEN subsetD])
next
  case (la_waits k s t)
  then show ?case
    by (auto simp: la_getCount_def la_wait_def dest!: set_update_subset_insert[THEN subsetD] split: if_splits)
next
  case (la_counts k s)
  then show ?case
    by (auto simp: la_getCount_def la_countDown_def notify_all_def Let_def split: if_splits)
qed

theorem latch_opens_once_counted_witness:
  "\<exists>s. la_run 1 1 1 s \<and> la_threads s = [LTest] \<and> la_getCount s = 0"
proof -
  have 1: "la_run 1 1 0 \<lparr>la_count = 1, la_threads = [LTest]\<rparr>"
    using la_call[OF la_start, of 0 1 1] by (simp add: new_latch_def)
  have 2: "la_run 1 1 0 \<lparr>la_count = 1, la_threads = [LBlocked]\<rparr>"
    using la_waits[OF 1, of 0] by (simp add: la_wait_def)
  have 3: "la_run 1 1 1 \<lparr>la_count = 0, la_threads = [LTest]\<rparr>"
    using la_counts[OF 2] by (simp add: la_countDown_def notify_all_def Let_def)
  from latch_opens_once_counted[OF 3] 3 show ?thesis by (intro exI conjI) auto
qed

end
