(* ===== verification/ThreadPool.thy ===== *)
theory ThreadPool
  imports Queues
begin

text \<open>
  The thread pool (src/zing/base/ThreadPool.h and ThreadPool.cpp). Workers and clients are lists of
  program points; a critical section is one atomic step up to its end or to \<open>wait\<close>, as in theory
  Queues. Tasks are values; that a worker runs a task is a step of its own, between taking it and
  looking at \<open>running_\<close> again, which the code reads without the mutex. What \<open>runInThread\<close>
  does about exceptions, and the names of the threads, are in Exceptions.thy.
\<close>

section \<open>The pool\<close>

datatype 'a worker = WStart | WLoop | WTake | WTakeWait | WRun 'a | WDone

datatype 'a client = CIdle | CRun 'a | CRunWait 'a

record 'a pool =
  tp_queue :: "'a list"
  tp_maxQueueSize :: nat
  tp_running :: bool
  tp_workers :: "'a worker list"
  tp_clients :: "'a client list"

text \<open>Constructed for \<open>c\<close> client threads.\<close>

definition new_pool :: "nat \<Rightarrow> 'a pool" where
  "new_pool c = \<lparr>tp_queue = [], tp_maxQueueSize = 0, tp_running = False, tp_workers = [],
     tp_clients = replicate c CIdle\<rparr>"

definition setMaxQueueSize :: "nat \<Rightarrow> 'a pool \<Rightarrow> 'a pool" where
  "setMaxQueueSize maxSize p = p\<lparr>tp_maxQueueSize := maxSize\<rparr>"

definition tp_start :: "nat \<Rightarrow> 'a pool \<Rightarrow> 'a pool result" where
  "tp_start numThreads p =
     (if tp_workers p \<noteq> [] then Inl AssertFail
      else Inr (p\<lparr>tp_running := True, tp_workers := replicate numThreads WStart\<rparr>))"

definition queueSize :: "'a pool \<Rightarrow> nat" where
  "queueSize p = length (tp_queue p)"

definition tp_isFull :: "'a pool \<Rightarrow> bool" where
  "tp_isFull p = (0 < tp_maxQueueSize p \<and> tp_maxQueueSize p \<le> length (tp_queue p))"

fun w_waits :: "'a worker \<Rightarrow> bool" where
  "w_waits WTakeWait = True" | "w_waits w = False"

fun w_taking :: "'a worker \<Rightarrow> bool" where
  "w_taking WTake = True" | "w_taking w = False"

fun w_wake :: "'a worker \<Rightarrow> 'a worker" where
  "w_wake WTakeWait = WTake" | "w_wake w = w"

fun c_waits :: "'a client \<Rightarrow> bool" where
  "c_waits (CRunWait x) = True" | "c_waits c = False"

fun c_running :: "'a client \<Rightarrow> bool" where
  "c_running (CRun x) = True" | "c_running c = False"

fun c_wake :: "'a client \<Rightarrow> 'a client" where
  "c_wake (CRunWait x) = CRun x" | "c_wake c = c"

text \<open>The first part of \<open>stop\<close>; the joins return when every worker is done.\<close>

definition tp_stop :: "'a pool \<Rightarrow> 'a pool" where
  "tp_stop p = p\<lparr>tp_running := False, tp_workers := notify_all w_waits w_wake (tp_workers p),
     tp_clients := notify_all c_waits c_wake (tp_clients p)\<rparr>"

definition tp_joined :: "'a pool \<Rightarrow> bool" where
  "tp_joined p = (\<forall>w \<in> set (tp_workers p). w = WDone)"

text \<open>
  What became of a task handed to \<open>run\<close>: the caller ran it, it is in the queue, the pool is stopped
  and dropped it, or the caller waits for room.
\<close>

datatype run_outcome = RanHere | Queued | Dropped | Waiting

text \<open>\<open>run\<close> by client \<open>t\<close> from where it holds the mutex; \<open>w\<close> is the worker that \<open>notify\<close> picks.\<close>

definition tp_run :: "nat \<Rightarrow> 'a \<Rightarrow> nat option \<Rightarrow> 'a pool \<Rightarrow> (run_outcome \<times> 'a pool) result" where
  "tp_run t task w p =
     (if tp_workers p = [] then Inr (RanHere, p\<lparr>tp_clients := (tp_clients p)[t := CIdle]\<rparr>)
      else if tp_isFull p \<and> tp_running p
      then Inr (Waiting, p\<lparr>tp_clients := (tp_clients p)[t := CRunWait task]\<rparr>)
      else if \<not> tp_running p then Inr (Dropped, p\<lparr>tp_clients := (tp_clients p)[t := CIdle]\<rparr>)
      else if tp_isFull p then Inl AssertFail
      else Inr (Queued, p\<lparr>tp_queue := tp_queue p @ [task],
             tp_workers := notify_one w_wake w (tp_workers p),
             tp_clients := (tp_clients p)[t := CIdle]\<rparr>))"

text \<open>\<open>take\<close> by worker \<open>t\<close>; an empty task sends it back to its loop.\<close>

definition tp_take :: "nat \<Rightarrow> nat option \<Rightarrow> 'a pool \<Rightarrow> 'a option \<times> 'a pool" where
  "tp_take t w p =
     (if tp_queue p = [] \<and> tp_running p
      then (None, p\<lparr>tp_workers := (tp_workers p)[t := WTakeWait]\<rparr>)
      else case tp_queue p of
             [] \<Rightarrow> (None, p\<lparr>tp_workers := (tp_workers p)[t := WLoop]\<rparr>)
           | task # rest \<Rightarrow>
               (Some task, p\<lparr>tp_queue := rest, tp_workers := (tp_workers p)[t := WRun task],
                 tp_clients := (if 0 < tp_maxQueueSize p then notify_one c_wake w (tp_clients p)
                                else tp_clients p)\<rparr>))"

text \<open>\<open>runInThread\<close> by worker \<open>t\<close>: from one point to the next, and the task taken, if any.\<close>

definition runInThread :: "nat \<Rightarrow> nat option \<Rightarrow> 'a pool \<Rightarrow> 'a option \<times> 'a pool" where
  "runInThread t w p =
     (case tp_workers p ! t of
        WStart \<Rightarrow> (None, p\<lparr>tp_workers := (tp_workers p)[t := WLoop]\<rparr>)
      | WLoop \<Rightarrow> (None, p\<lparr>tp_workers := (tp_workers p)[t := (if tp_running p then WTake else WDone)]\<rparr>)
      | WTake \<Rightarrow> tp_take t w p
      | WTakeWait \<Rightarrow> (None, p)
      | WRun task \<Rightarrow> (None, p\<lparr>tp_workers := (tp_workers p)[t := WLoop]\<rparr>)
      | WDone \<Rightarrow> (None, p))"

section \<open>Runs\<close>

text \<open>
  Runs of a pool of \<open>n\<close> workers for \<open>c\<close> clients with a queue bound of \<open>m\<close>, with the tasks queued and
  the tasks taken by workers so far.
\<close>

inductive pool_run :: "nat \<Rightarrow> nat \<Rightarrow> nat \<Rightarrow> 'a list \<Rightarrow> 'a list \<Rightarrow> 'a pool \<Rightarrow> bool" for n c m where
  pr_start: "tp_start n (setMaxQueueSize m (new_pool c)) = Inr p \<Longrightarrow> pool_run n c m [] [] p"
| pr_call: "pool_run n c m as gs p \<Longrightarrow> t < c \<Longrightarrow> tp_clients p ! t = CIdle \<Longrightarrow>
    pool_run n c m as gs (p\<lparr>tp_clients := (tp_clients p)[t := CRun x]\<rparr>)"
| pr_client_wakes: "pool_run n c m as gs p \<Longrightarrow> t < c \<Longrightarrow> c_waits (tp_clients p ! t) \<Longrightarrow>
    pool_run n c m as gs (p\<lparr>tp_clients := (tp_clients p)[t := c_wake (tp_clients p ! t)]\<rparr>)"
| pr_worker_wakes: "pool_run n c m as gs p \<Longrightarrow> t < n \<Longrightarrow> w_waits (tp_workers p ! t) \<Longrightarrow>
    pool_run n c m as gs (p\<lparr>tp_workers := (tp_workers p)[t := WTake]\<rparr>)"
| pr_run: "pool_run n c m as gs p \<Longrightarrow> t < c \<Longrightarrow> tp_clients p ! t = CRun x \<Longrightarrow>
    may_notify w_waits w (tp_workers p) \<Longrightarrow> tp_run t x w p = Inr (r, p') \<Longrightarrow>
    pool_run n c m (if r = Queued then as @ [x] else as) gs p'"
| pr_worker: "pool_run n c m as gs p \<Longrightarrow> t < n \<Longrightarrow> may_notify c_waits w (tp_clients p) \<Longrightarrow>
    runInThread t w p = (r, p') \<Longrightarrow>
    pool_run n c m as (gs @ (case r of None \<Rightarrow> [] | Some x \<Rightarrow> [x])) p'"
| pr_stop: "pool_run n c m as gs p \<Longrightarrow> pool_run n c m as gs (tp_stop p)"

definition pool_inv :: "nat \<Rightarrow> nat \<Rightarrow> nat \<Rightarrow> 'a list \<Rightarrow> 'a list \<Rightarrow> 'a pool \<Rightarrow> bool" where
  "pool_inv n c m as gs p =
     (as = gs @ tp_queue p \<and> length (tp_workers p) = n \<and> length (tp_clients p) = c \<and>
      tp_maxQueueSize p = m \<and> (0 < m \<longrightarrow> length (tp_queue p) \<le> m) \<and>
      (0 < cnt w_waits (tp_workers p) \<longrightarrow> length (tp_queue p) \<le> cnt w_taking (tp_workers p)) \<and>
      (0 < cnt c_waits (tp_clients p) \<longrightarrow> 0 < m \<and> m \<le> length (tp_queue p) + cnt c_running (tp_clients p)) \<and>
      (\<not> tp_running p \<or> n = 0 \<longrightarrow> cnt w_waits (tp_workers p) = 0 \<and> cnt c_waits (tp_clients p) = 0))"

lemma pool_counts:
  assumes "t < length ts"
  shows "cnt w_waits (ts[t := p]) + of_bool (w_waits (ts ! t)) = cnt w_waits ts + of_bool (w_waits p)"
    "cnt w_taking (ts[t := p]) + of_bool (w_taking (ts ! t)) = cnt w_taking ts + of_bool (w_taking p)"
  using cnt_update[OF assms] by (simp_all add: of_bool_def split: if_splits)

lemma client_counts:
  assumes "t < length ts"
  shows "cnt c_waits (ts[t := p]) + of_bool (c_waits (ts ! t)) = cnt c_waits ts + of_bool (c_waits p)"
    "cnt c_running (ts[t := p]) + of_bool (c_running (ts ! t)) = cnt c_running ts + of_bool (c_running p)"
  using cnt_update[OF assms] by (simp_all add: of_bool_def split: if_splits)

lemma w_waits_iff: "w_waits w \<longleftrightarrow> w = WTakeWait"
  by (cases w) simp_all

lemma c_waits_iff: "c_waits c \<longleftrightarrow> (\<exists>x. c = CRunWait x)"
  by (cases c) simp_all

text \<open>One worker notified, or none waiting.\<close>

lemma notify_worker:
  assumes "may_notify w_waits w ts"
  shows "0 < cnt w_waits ts \<Longrightarrow> cnt w_taking (notify_one w_wake w ts) = cnt w_taking ts + 1"
    "cnt w_waits (notify_one w_wake w ts) \<le> cnt w_waits ts"
    "cnt w_taking ts \<le> cnt w_taking (notify_one w_wake w ts)"
proof -
  have "(0 < cnt w_waits ts \<longrightarrow> cnt w_taking (notify_one w_wake w ts) = cnt w_taking ts + 1) \<and>
    cnt w_waits (notify_one w_wake w ts) \<le> cnt w_waits ts \<and>
    cnt w_taking ts \<le> cnt w_taking (notify_one w_wake w ts)"
  proof (cases w)
    case None
    with assms show ?thesis by (simp add: may_notify_def notify_one_def)
  next
    case (Some u)
    with assms have u: "u < length ts" "ts ! u = WTakeWait" by (simp_all add: may_notify_def w_waits_iff)
    from pool_counts[OF u(1), of WTake] u(2) Some show ?thesis by (simp add: notify_one_def)
  qed
  then show "0 < cnt w_waits ts \<Longrightarrow> cnt w_taking (notify_one w_wake w ts) = cnt w_taking ts + 1"
    "cnt w_waits (notify_one w_wake w ts) \<le> cnt w_waits ts"
    "cnt w_taking ts \<le> cnt w_taking (notify_one w_wake w ts)"
    by auto
qed

lemma notify_client:
  assumes "may_notify c_waits w ts"
  shows "0 < cnt c_waits ts \<Longrightarrow> cnt c_running (notify_one c_wake w ts) = cnt c_running ts + 1"
    "cnt c_waits (notify_one c_wake w ts) \<le> cnt c_waits ts"
    "cnt c_running ts \<le> cnt c_running (notify_one c_wake w ts)"
proof -
  have "(0 < cnt c_waits ts \<longrightarrow> cnt c_running (notify_one c_wake w ts) = cnt c_running ts + 1) \<and>
    cnt c_waits (notify_one c_wake w ts) \<le> cnt c_waits ts \<and>
    cnt c_running ts \<le> cnt c_running (notify_one c_wake w ts)"
  proof (cases w)
    case None
    with assms show ?thesis by (simp add: may_notify_def notify_one_def)
  next
    case (Some u)
    with assms obtain x where u: "u < length ts" "ts ! u = CRunWait x"
      by (auto simp: may_notify_def c_waits_iff)
    from client_counts[OF u(1), of "CRun x"] u(2) Some show ?thesis by (simp add: notify_one_def)
  qed
  then show "0 < cnt c_waits ts \<Longrightarrow> cnt c_running (notify_one c_wake w ts) = cnt c_running ts + 1"
    "cnt c_waits (notify_one c_wake w ts) \<le> cnt c_waits ts"
    "cnt c_running ts \<le> cnt c_running (notify_one c_wake w ts)"
    by auto
qed


lemma pool_inv_call:
  assumes "pool_inv n c m as gs p" "t < c" "tp_clients p ! t = CIdle"
  shows "pool_inv n c m as gs (p\<lparr>tp_clients := (tp_clients p)[t := CRun x]\<rparr>)"
proof -
  have t: "t < length (tp_clients p)" using assms(1,2) by (simp add: pool_inv_def)
  show ?thesis using assms client_counts[OF t, of "CRun x"] by (auto simp: pool_inv_def)
qed

lemma pool_inv_client_wakes:
  assumes "pool_inv n c m as gs p" "t < c" "c_waits (tp_clients p ! t)"
  shows "pool_inv n c m as gs (p\<lparr>tp_clients := (tp_clients p)[t := c_wake (tp_clients p ! t)]\<rparr>)"
proof -
  have t: "t < length (tp_clients p)" using assms(1,2) by (simp add: pool_inv_def)
  show ?thesis
    using assms client_counts[OF t, of "c_wake (tp_clients p ! t)"]
    by (auto simp: pool_inv_def c_waits_iff)
qed

lemma pool_inv_worker_wakes:
  assumes "pool_inv n c m as gs p" "t < n" "w_waits (tp_workers p ! t)"
  shows "pool_inv n c m as gs (p\<lparr>tp_workers := (tp_workers p)[t := WTake]\<rparr>)"
proof -
  have t: "t < length (tp_workers p)" using assms(1,2) by (simp add: pool_inv_def)
  show ?thesis
    using assms pool_counts[OF t, of WTake] by (auto simp: pool_inv_def w_waits_iff)
qed

lemma pool_inv_run:
  assumes "pool_inv n c m as gs p" "t < c" "tp_clients p ! t = CRun x"
    "may_notify w_waits w (tp_workers p)" "tp_run t x w p = Inr (r, p')"
  shows "pool_inv n c m (if r = Queued then as @ [x] else as) gs p'"
proof -
  have t: "t < length (tp_clients p)" using assms(1,2) by (simp add: pool_inv_def)
  have C: "cnt c_waits ((tp_clients p)[t := CIdle]) = cnt c_waits (tp_clients p)"
    "cnt c_running ((tp_clients p)[t := CIdle]) + 1 = cnt c_running (tp_clients p)"
    using client_counts[OF t, of CIdle] assms(3) by simp_all
  note inv = assms(1)[unfolded pool_inv_def]
  consider "tp_workers p = [] \<or> \<not> tp_running p" | "tp_workers p \<noteq> []" "tp_running p" "tp_isFull p"
    | "tp_workers p \<noteq> []" "tp_running p" "\<not> tp_isFull p" by blast
  then show ?thesis
  proof cases
    case 1
    then have p': "r \<noteq> Queued" "p' = p\<lparr>tp_clients := (tp_clients p)[t := CIdle]\<rparr>"
      using assms(5) by (auto simp: tp_run_def split: if_splits)
    have "cnt c_waits (tp_clients p) = 0" using inv 1 by auto
    with inv C p'(1) show ?thesis unfolding p'(2) by (simp add: pool_inv_def)
  next
    case 2
    then have p': "r = Waiting" "p' = p\<lparr>tp_clients := (tp_clients p)[t := CRunWait x]\<rparr>"
      using assms(5) by (auto simp: tp_run_def)
    have "n \<noteq> 0" "0 < m" "m \<le> length (tp_queue p)" using inv 2 by (auto simp: tp_isFull_def)
    with inv 2 show ?thesis unfolding p' by (auto simp add: pool_inv_def)
  next
    case 3
    with assms(5) have p': "r = Queued" "p' = p\<lparr>tp_queue := tp_queue p @ [x],
        tp_workers := notify_one w_wake w (tp_workers p), tp_clients := (tp_clients p)[t := CIdle]\<rparr>"
      by (auto simp: tp_run_def)
    note N = notify_worker[OF assms(4)]
    have "0 < cnt w_waits (notify_one w_wake w (tp_workers p)) \<longrightarrow>
        length (tp_queue p) + 1 \<le> cnt w_taking (notify_one w_wake w (tp_workers p))"
      using inv N by auto
    moreover have "0 < cnt c_waits (tp_clients p) \<longrightarrow>
        0 < m \<and> m \<le> length (tp_queue p) + 1 + cnt c_running ((tp_clients p)[t := CIdle])"
      using inv C(2) by auto
    moreover have "0 < m \<longrightarrow> length (tp_queue p) + 1 \<le> m" "n \<noteq> 0"
      using 3 inv by (auto simp: tp_isFull_def)
    ultimately show ?thesis
      using inv 3 C(1) unfolding p' by (simp add: pool_inv_def)
  qed
qed

text \<open>A step of a worker that neither blocks nor takes.\<close>

lemma pool_inv_move:
  assumes "pool_inv n c m as gs p" "t < n" "\<not> w_waits (tp_workers p ! t)" "\<not> w_waits v"
    "w_taking (tp_workers p ! t) \<longrightarrow> tp_queue p = []"
  shows "pool_inv n c m as gs (p\<lparr>tp_workers := (tp_workers p)[t := v]\<rparr>)"
proof -
  have t: "t < length (tp_workers p)" using assms(1,2) by (simp add: pool_inv_def)
  have "cnt w_waits ((tp_workers p)[t := v]) = cnt w_waits (tp_workers p)"
    using assms(3,4) by (intro cnt_same[OF t]) simp
  moreover have "tp_queue p = [] \<or> cnt w_taking (tp_workers p) \<le> cnt w_taking ((tp_workers p)[t := v])"
    using pool_counts(2)[OF t, of v] assms(5) by (cases "tp_queue p") (simp_all add: of_bool_def split: if_splits)
  ultimately show ?thesis using assms(1) unfolding pool_inv_def by (elim disjE) auto
qed

lemma pool_inv_take:
  assumes "pool_inv n c m as gs p" "t < n" "may_notify c_waits w (tp_clients p)"
    and "tp_workers p ! t = WTake" "tp_queue p = x # xs"
  defines "cs \<equiv> if 0 < tp_maxQueueSize p then notify_one c_wake w (tp_clients p) else tp_clients p"
  shows "pool_inv n c m as (gs @ [x])
    (p\<lparr>tp_queue := xs, tp_workers := (tp_workers p)[t := WRun x], tp_clients := cs\<rparr>)"
proof -
  have t: "t < length (tp_workers p)" using assms(1,2) by (simp add: pool_inv_def)
  note inv = assms(1)[unfolded pool_inv_def]
  note N = notify_client[OF assms(3)]
  have "0 < cnt c_waits cs \<longrightarrow> 0 < m \<and> m \<le> length xs + cnt c_running cs"
    using inv N assms(5) by (auto simp: cs_def)
  moreover have "cnt c_waits (tp_clients p) = 0 \<longrightarrow> cnt c_waits cs = 0"
    using N by (auto simp: cs_def)
  moreover have "length cs = c" using inv by (simp add: cs_def)
  moreover have W: "cnt w_waits ((tp_workers p)[t := WRun x]) = cnt w_waits (tp_workers p)"
    "cnt w_taking ((tp_workers p)[t := WRun x]) + 1 = cnt w_taking (tp_workers p)"
    using pool_counts[OF t, of "WRun x"] assms(4) by simp_all
  moreover have "0 < cnt w_waits (tp_workers p) \<longrightarrow> length xs \<le> cnt w_taking ((tp_workers p)[t := WRun x])"
    "0 < m \<longrightarrow> length xs \<le> m"
    using inv assms(5) W(2) by auto
  ultimately show ?thesis
    using inv assms(5) by (simp add: pool_inv_def)
qed

lemma pool_inv_block:
  assumes "pool_inv n c m as gs p" "t < n" "tp_queue p = []" "tp_running p"
  shows "pool_inv n c m as gs (p\<lparr>tp_workers := (tp_workers p)[t := WTakeWait]\<rparr>)"
  using assms by (simp add: pool_inv_def)

lemma pool_inv_worker:
  assumes "pool_inv n c m as gs p" "t < n" "may_notify c_waits w (tp_clients p)"
    "runInThread t w p = (r, p')"
  shows "pool_inv n c m as (gs @ (case r of None \<Rightarrow> [] | Some x \<Rightarrow> [x])) p'"
proof (cases "tp_workers p ! t")
  case WTake
  show ?thesis
  proof (cases "tp_queue p")
    case Nil
    show ?thesis
    proof (cases "tp_running p")
      case True
      with Nil WTake assms(4) have "r = None" "p' = p\<lparr>tp_workers := (tp_workers p)[t := WTakeWait]\<rparr>"
        by (simp_all add: runInThread_def tp_take_def)
      with pool_inv_block[OF assms(1,2) Nil True] show ?thesis by simp
    next
      case False
      with Nil WTake assms(4) have "r = None" "p' = p\<lparr>tp_workers := (tp_workers p)[t := WLoop]\<rparr>"
        by (simp_all add: runInThread_def tp_take_def)
      with pool_inv_move[OF assms(1,2), of WLoop] WTake Nil show ?thesis by simp
    qed
  next
    case (Cons x xs)
    with WTake assms pool_inv_take[OF assms(1-3) WTake Cons] show ?thesis
      by (auto simp: runInThread_def tp_take_def)
  qed
qed (use assms pool_inv_move[OF assms(1,2)] in \<open>auto simp: runInThread_def\<close>)

lemma cnt_notify_all [simp]:
  "cnt w_waits (notify_all w_waits w_wake ts) = 0" "cnt c_waits (notify_all c_waits c_wake cs) = 0"
  by (auto simp: cnt_def notify_all_def filter_empty_conv w_waits_iff c_waits_iff)

lemma length_notify_all [simp]: "length (notify_all P f ts) = length ts"
  by (simp add: notify_all_def)

lemma pool_run_inv: "pool_run n c m as gs p \<Longrightarrow> pool_inv n c m as gs p"
proof (induction rule: pool_run.induct)
  case (pr_start p)
  then show ?case
    by (auto simp: tp_start_def setMaxQueueSize_def new_pool_def pool_inv_def cnt_def split: if_splits)
next
  case pr_call
  then show ?case by (intro pool_inv_call)
next
  case pr_client_wakes
  then show ?case by (intro pool_inv_client_wakes)
next
  case pr_worker_wakes
  then show ?case by (intro pool_inv_worker_wakes)
next
  case pr_run
  then show ?case by (intro pool_inv_run)
next
  case pr_worker
  then show ?case by (intro pool_inv_worker)
next
  case (pr_stop as gs p)
  then have "pool_inv n c m as gs p" by simp
  then show ?case by (simp add: tp_stop_def pool_inv_def)
qed


section \<open>Properties\<close>

text \<open>
  C13. Tasks are taken in the order they were queued, each once, and a bounded queue keeps its bound. A
  worker waits next to queued tasks only while another worker is on its way to take one, and a
  client waits for room only while the queue is full or another client is on its way.
\<close>

theorem pool_runs_in_order:
  assumes "pool_run n c m as gs p"
  shows "as = gs @ tp_queue p \<and> (0 < m \<longrightarrow> queueSize p \<le> m) \<and>
    (0 < cnt w_waits (tp_workers p) \<and> tp_queue p \<noteq> [] \<longrightarrow> 0 < cnt w_taking (tp_workers p)) \<and>
    (0 < cnt c_waits (tp_clients p) \<and> \<not> tp_isFull p \<longrightarrow> 0 < cnt c_running (tp_clients p))"
proof -
  note inv = pool_run_inv[OF assms, unfolded pool_inv_def]
  have "0 < cnt w_taking (tp_workers p)" if "0 < cnt w_waits (tp_workers p)" "tp_queue p \<noteq> []"
    using inv that by (cases "tp_queue p") auto
  moreover have "0 < cnt c_running (tp_clients p)" if "0 < cnt c_waits (tp_clients p)" "\<not> tp_isFull p"
    using inv that by (auto simp: tp_isFull_def)
  ultimately show ?thesis using inv by (simp add: queueSize_def)
qed

text \<open>How many steps a worker has left once the pool is stopped.\<close>

fun w_rank :: "'a worker \<Rightarrow> nat" where
  "w_rank WDone = 0" | "w_rank WLoop = 1" | "w_rank WStart = 2" | "w_rank (WRun x) = 2"
| "w_rank WTake = 3" | "w_rank WTakeWait = 4"

lemma sum_list_update_less:
  fixes f :: "'a \<Rightarrow> nat"
  shows "t < length ts \<Longrightarrow> f v < f (ts ! t) \<Longrightarrow> sum_list (map f (ts[t := v])) < sum_list (map f ts)"
proof (induction ts arbitrary: t)
  case (Cons a ts)
  then show ?case by (cases t) auto
qed simp

text \<open>
  C30. After \<open>stop\<close> nothing blocks: no worker and no client waits, and every step of a worker that is not
  done brings the workers closer to their ends (a worker takes at most one task more), so the joins
  in \<open>stop\<close> return.
\<close>

theorem pool_stop_joins:
  assumes "pool_run n c m as gs p" "\<not> tp_running p" "t < n" "tp_workers p ! t \<noteq> WDone"
    and "runInThread t w p = (r, p')"
  shows "cnt w_waits (tp_workers p) = 0 \<and> cnt c_waits (tp_clients p) = 0 \<and> \<not> tp_running p' \<and>
    sum_list (map w_rank (tp_workers p')) < sum_list (map w_rank (tp_workers p))"
proof -
  note inv = pool_run_inv[OF assms(1), unfolded pool_inv_def]
  have t: "t < length (tp_workers p)" using inv assms(3) by simp
  have nw: "cnt w_waits (tp_workers p) = 0" "cnt c_waits (tp_clients p) = 0" using inv assms(2) by auto
  then have "\<not> w_waits (tp_workers p ! t)" using cnt_pos[OF t, of w_waits] by auto
  then have "w_rank (tp_workers p' ! t) < w_rank (tp_workers p ! t) \<and>
      tp_workers p' = (tp_workers p)[t := tp_workers p' ! t] \<and> tp_running p' = tp_running p"
    using assms(2,4,5) t
    by (cases "tp_workers p ! t")
      (auto simp: runInThread_def tp_take_def split: list.splits)
  with nw assms(2) sum_list_update_less[OF t, of w_rank "tp_workers p' ! t"] show ?thesis by simp
qed

text \<open>A pool of one worker that is stopped before the worker looks at the queue.\<close>

lemma stopped_pool:
  "pool_run 1 1 0 [x] [] \<lparr>tp_queue = [x], tp_maxQueueSize = 0, tp_running = False,
    tp_workers = [WStart], tp_clients = [CIdle]\<rparr>"
proof -
  define p0 :: "'a pool" where "p0 = \<lparr>tp_queue = [], tp_maxQueueSize = 0, tp_running = True,
    tp_workers = [WStart], tp_clients = [CIdle]\<rparr>"
  have 0: "pool_run 1 1 0 [] [] p0"
    by (rule pr_start) (simp add: tp_start_def setMaxQueueSize_def new_pool_def p0_def)
  have 1: "pool_run 1 1 0 [] [] (p0\<lparr>tp_clients := [CRun x]\<rparr>)"
    using pr_call[OF 0, of 0 x] by (simp add: p0_def)
  have 2: "pool_run 1 1 0 [x] [] (p0\<lparr>tp_queue := [x]\<rparr>)"
    using pr_run[OF 1, of 0 x None Queued "p0\<lparr>tp_queue := [x]\<rparr>"]
    by (simp add: p0_def may_notify_def cnt_def tp_run_def tp_isFull_def notify_one_def)
  show ?thesis
    using pr_stop[OF 2] by (simp add: p0_def tp_stop_def notify_all_def)
qed

theorem pool_runs_in_order_witness:
  "\<exists>p :: nat pool. pool_run 1 1 0 [5] [] p \<and> tp_queue p = [5] \<and> [5] = [] @ tp_queue p"
  using pool_runs_in_order[OF stopped_pool[of "5 :: nat"]] stopped_pool[of "5 :: nat"]
  by (intro exI conjI) auto

theorem pool_stop_joins_witness:
  "\<exists>p p' :: nat pool. runInThread 0 None p = (None, p') \<and> \<not> tp_running p' \<and>
    sum_list (map w_rank (tp_workers p')) < sum_list (map w_rank (tp_workers p))"
proof -
  let ?p = "\<lparr>tp_queue = [5 :: nat], tp_maxQueueSize = 0, tp_running = False,
    tp_workers = [WStart], tp_clients = [CIdle]\<rparr>"
  have r: "runInThread 0 None ?p = (None, ?p\<lparr>tp_workers := [WLoop]\<rparr>)"
    by (simp add: runInThread_def)
  from pool_stop_joins[OF stopped_pool[of 5] _ _ _ r] r show ?thesis by (intro exI conjI) auto
qed

text \<open>
  But the tasks still in the queue are not run: a pool can be stopped and joined with a task queued
  and never taken.
\<close>

theorem stop_drops_tasks:
  "\<exists>p. pool_run 1 1 0 [x] [] p \<and> \<not> tp_running p \<and> tp_joined p \<and> tp_queue p = [x]"
proof -
  let ?p = "\<lparr>tp_queue = [x], tp_maxQueueSize = 0, tp_running = False, tp_workers = [WStart], tp_clients = [CIdle]\<rparr>"
  have 1: "pool_run 1 1 0 [x] [] (?p\<lparr>tp_workers := [WLoop]\<rparr>)"
    using pr_worker[OF stopped_pool[of x], of 0 None None "?p\<lparr>tp_workers := [WLoop]\<rparr>"]
    by (simp add: may_notify_def cnt_def runInThread_def)
  have "pool_run 1 1 0 [x] [] (?p\<lparr>tp_workers := [WDone]\<rparr>)"
    using pr_worker[OF 1, of 0 None None "?p\<lparr>tp_workers := [WDone]\<rparr>"]
    by (simp add: may_notify_def cnt_def runInThread_def)
  then show ?thesis
    by (intro exI conjI) (auto simp: tp_joined_def)
qed

end
