(* ===== verification/StringPiece.thy ===== *)
theory StringPiece
  imports Text "HOL-Library.List_Lexorder" "HOL-Library.Char_ord" "HOL-Library.Sublist"
begin

text \<open>
  Views of character arrays (src/zing/base/StringPiece.h). A piece is a pointer into an array and
  a length that nothing ties to that array, so the model keeps the array, the place in it and the
  length, and every read outside the array is \<open>Undefined\<close>. The lemmas show that a piece that lies
  in its array compares as its text does in the lexicographic order of unsigned characters.
\<close>

section \<open>Pieces\<close>

text \<open>\<open>ptr_\<close> points at position \<open>sp_off\<close> of \<open>sp_block\<close>; the null pointer has an empty array.\<close>

record piece =
  sp_block :: string
  sp_off :: int
  sp_length :: int

definition int_of_size :: "nat \<Rightarrow> int" where
  "int_of_size n = sint (word_of_nat n :: 32 word)"

definition sp_null :: piece where
  "sp_null = \<lparr>sp_block = [], sp_off = 0, sp_length = 0\<rparr>"

text \<open>\<open>strlen\<close> runs up to the first NUL, which the array has to contain.\<close>

definition strlen :: "string \<Rightarrow> nat result" where
  "strlen s = (if CHR 0x00 \<in> set s then Inr (length (takeWhile (\<lambda>c. c \<noteq> CHR 0x00) s)) else Inl Undefined)"

definition sp_cstr :: "string \<Rightarrow> piece result" where
  "sp_cstr s = rbind (strlen s) (\<lambda>n. Inr \<lparr>sp_block = s, sp_off = 0, sp_length = int_of_size n\<rparr>)"

text \<open>The array behind a \<open>std::string\<close> ends with a NUL after the characters.\<close>

definition sp_string :: "string \<Rightarrow> piece" where
  "sp_string s = \<lparr>sp_block = s @ [CHR 0x00], sp_off = 0, sp_length = int_of_size (length s)\<rparr>"

definition sp_range :: "string \<Rightarrow> int \<Rightarrow> int \<Rightarrow> piece" where
  "sp_range block off len = \<lparr>sp_block = block, sp_off = off, sp_length = len\<rparr>"

definition sp_empty :: "piece \<Rightarrow> bool" where
  "sp_empty p = (sp_length p = 0)"

definition sp_clear :: "piece \<Rightarrow> piece" where
  "sp_clear p = p\<lparr>sp_block := [], sp_off := 0, sp_length := 0\<rparr>"

definition sp_set :: "string \<Rightarrow> int \<Rightarrow> int \<Rightarrow> piece \<Rightarrow> piece" where
  "sp_set block off len p = p\<lparr>sp_block := block, sp_off := off, sp_length := len\<rparr>"

definition sp_set_cstr :: "string \<Rightarrow> piece \<Rightarrow> piece result" where
  "sp_set_cstr s p =
     rbind (strlen s) (\<lambda>n. Inr (p\<lparr>sp_block := s, sp_off := 0, sp_length := int_of_size n\<rparr>))"

definition sp_at :: "piece \<Rightarrow> int \<Rightarrow> char result" where
  "sp_at p i =
     (if 0 \<le> sp_off p + i \<and> sp_off p + i < int (length (sp_block p))
      then Inr (sp_block p ! nat (sp_off p + i)) else Inl Undefined)"

text \<open>Arithmetic may not take a pointer out of its array (or past its end).\<close>

definition remove_prefix :: "int \<Rightarrow> piece \<Rightarrow> piece result" where
  "remove_prefix n p =
     (if 0 \<le> sp_off p + n \<and> sp_off p + n \<le> int (length (sp_block p))
      then Inr (p\<lparr>sp_off := sp_off p + n, sp_length := sp_length p - n\<rparr>) else Inl Undefined)"

definition remove_suffix :: "int \<Rightarrow> piece \<Rightarrow> piece" where
  "remove_suffix n p = p\<lparr>sp_length := sp_length p - n\<rparr>"

section \<open>Comparison\<close>

text \<open>
  \<open>memcmp\<close> compares as unsigned characters; the C standard fixes the sign of its result only, and
  the code looks at nothing else. A negative count becomes a huge \<open>size_t\<close>.
\<close>

fun memcmp_chars :: "string \<Rightarrow> string \<Rightarrow> int" where
  "memcmp_chars (a # as) (b # bs) =
     (if of_char a < (of_char b :: nat) then -1 else if of_char b < (of_char a :: nat) then 1
      else memcmp_chars as bs)"
| "memcmp_chars _ _ = 0"

definition in_block :: "piece \<Rightarrow> int \<Rightarrow> bool" where
  "in_block p n = (0 \<le> n \<and> 0 \<le> sp_off p \<and> sp_off p + n \<le> int (length (sp_block p)))"

definition sp_chars :: "piece \<Rightarrow> int \<Rightarrow> string" where
  "sp_chars p n = take (nat n) (drop (nat (sp_off p)) (sp_block p))"

definition memcmp :: "piece \<Rightarrow> piece \<Rightarrow> int \<Rightarrow> int result" where
  "memcmp p q n =
     (if in_block p n \<and> in_block q n then Inr (memcmp_chars (sp_chars p n) (sp_chars q n))
      else Inl Undefined)"

definition sp_eq :: "piece \<Rightarrow> piece \<Rightarrow> bool result" where
  "sp_eq p x =
     (if sp_length p = sp_length x then rbind (memcmp p x (sp_length p)) (\<lambda>r. Inr (r = 0))
      else Inr False)"

definition sp_ne :: "piece \<Rightarrow> piece \<Rightarrow> bool result" where
  "sp_ne p x = rbind (sp_eq p x) (\<lambda>b. Inr (\<not> b))"

text \<open>The macro \<open>STRINGPIECE_BINARY_PREDICATE(cmp, auxcmp)\<close> and its four uses.\<close>

definition sp_predicate :: "(int \<Rightarrow> int \<Rightarrow> bool) \<Rightarrow> (int \<Rightarrow> int \<Rightarrow> bool) \<Rightarrow> piece \<Rightarrow> piece \<Rightarrow> bool result" where
  "sp_predicate cmp auxcmp p x =
     rbind (memcmp p x (if sp_length p < sp_length x then sp_length p else sp_length x))
       (\<lambda>r. Inr (auxcmp r 0 \<or> r = 0 \<and> cmp (sp_length p) (sp_length x)))"

definition sp_lt :: "piece \<Rightarrow> piece \<Rightarrow> bool result" where
  "sp_lt = sp_predicate (<) (<)"

definition sp_le :: "piece \<Rightarrow> piece \<Rightarrow> bool result" where
  "sp_le = sp_predicate (\<le>) (<)"

definition sp_ge :: "piece \<Rightarrow> piece \<Rightarrow> bool result" where
  "sp_ge = sp_predicate (\<ge>) (>)"

definition sp_gt :: "piece \<Rightarrow> piece \<Rightarrow> bool result" where
  "sp_gt = sp_predicate (>) (>)"

definition sp_compare :: "piece \<Rightarrow> piece \<Rightarrow> int result" where
  "sp_compare p x =
     rbind (memcmp p x (if sp_length p < sp_length x then sp_length p else sp_length x))
       (\<lambda>r. Inr (if r = 0
                 then if sp_length p < sp_length x then -1
                      else if sp_length p > sp_length x then 1 else r
                 else r))"

text \<open>\<open>string(data(), size())\<close> throws when the size, negative as an \<open>int\<close>, is too large.\<close>

definition as_string :: "piece \<Rightarrow> string result" where
  "as_string p =
     (if sp_length p < 0 then Inl LengthError
      else if in_block p (sp_length p) then Inr (sp_chars p (sp_length p)) else Inl Undefined)"

definition CopyToString :: "piece \<Rightarrow> string \<Rightarrow> string result" where
  "CopyToString p target =
     (if sp_length p < 0 then Inl LengthError
      else if in_block p (sp_length p) then Inr (sp_chars p (sp_length p)) else Inl Undefined)"

definition starts_with :: "piece \<Rightarrow> piece \<Rightarrow> bool result" where
  "starts_with p x =
     (if sp_length x \<le> sp_length p then rbind (memcmp p x (sp_length x)) (\<lambda>r. Inr (r = 0))
      else Inr False)"

section \<open>Pieces as texts\<close>

definition sp_ok :: "piece \<Rightarrow> bool" where
  "sp_ok p = in_block p (sp_length p)"

definition sp_text :: "piece \<Rightarrow> string" where
  "sp_text p = sp_chars p (sp_length p)"

lemma length_sp_text: "sp_ok p \<Longrightarrow> int (length (sp_text p)) = sp_length p"
  by (auto simp: sp_ok_def sp_text_def in_block_def sp_chars_def)

lemma in_block_less: "in_block p n \<Longrightarrow> 0 \<le> k \<Longrightarrow> k \<le> n \<Longrightarrow> in_block p k"
  by (simp add: in_block_def)

lemma sp_chars_take: "sp_ok p \<Longrightarrow> 0 \<le> k \<Longrightarrow> k \<le> sp_length p \<Longrightarrow> sp_chars p k = take (nat k) (sp_text p)"
  by (simp add: sp_text_def sp_chars_def min_def nat_mono)

lemma memcmp_texts:
  assumes "sp_ok p" "sp_ok q" "0 \<le> k" "k \<le> sp_length p" "k \<le> sp_length q"
  shows "memcmp p q k = Inr (memcmp_chars (take (nat k) (sp_text p)) (take (nat k) (sp_text q)))"
  using assms by (auto simp: memcmp_def sp_chars_take sp_ok_def intro: in_block_less)

text \<open>How the comparison of the common length decides the order of two texts.\<close>

lemma list_less_Cons: "a # xs < b # ys \<longleftrightarrow> a < b \<or> a = b \<and> xs < (ys :: string)"
  by (simp add: list_less_def)

lemma list_less_Nil: "([] :: string) < ys \<longleftrightarrow> ys \<noteq> []" "\<not> xs < ([] :: string)"
  by (cases ys; simp add: list_less_def) (simp add: list_less_def)

lemma memcmp_order:
  fixes xs ys :: string
  defines "r \<equiv> memcmp_chars (take (min (length xs) (length ys)) xs) (take (min (length xs) (length ys)) ys)"
  shows "xs < ys \<longleftrightarrow> r < 0 \<or> r = 0 \<and> length xs < length ys"
    and "xs = ys \<longleftrightarrow> r = 0 \<and> length xs = length ys"
  unfolding r_def
proof (induction xs arbitrary: ys)
  case (Cons a xs)
  { case 1
    show ?case
      using Cons(1) by (cases ys) (auto simp: list_less_Cons list_less_Nil less_char_def) }
  { case 2
    show ?case
      using Cons(2) by (cases ys) auto }
qed (auto simp: list_less_Nil)

lemma memcmp_prefix:
  "length ys \<le> length xs \<Longrightarrow> memcmp_chars (take (length ys) xs) ys = 0 \<longleftrightarrow> prefix ys xs"
proof (induction ys arbitrary: xs)
  case (Cons b ys)
  then show ?case by (cases xs) auto
qed simp

lemma length_less_iff: "sp_ok p \<Longrightarrow> sp_ok q \<Longrightarrow> length (sp_text p) < length (sp_text q) \<longleftrightarrow> sp_length p < sp_length q"
  using length_sp_text[of p] length_sp_text[of q] by arith

lemma length_eq_iff: "sp_ok p \<Longrightarrow> sp_ok q \<Longrightarrow> length (sp_text p) = length (sp_text q) \<longleftrightarrow> sp_length p = sp_length q"
  using length_sp_text[of p] length_sp_text[of q] by arith

lemma memcmp_common:
  assumes "sp_ok p" "sp_ok q"
  obtains r where
    "memcmp p q (if sp_length p < sp_length q then sp_length p else sp_length q) = Inr r"
    "sp_text p < sp_text q \<longleftrightarrow> r < 0 \<or> r = 0 \<and> sp_length p < sp_length q"
    "sp_text p = sp_text q \<longleftrightarrow> r = 0 \<and> sp_length p = sp_length q"
proof
  let ?n = "min (length (sp_text p)) (length (sp_text q))"
  let ?r = "memcmp_chars (take ?n (sp_text p)) (take ?n (sp_text q))"
  have "(if sp_length p < sp_length q then sp_length p else sp_length q) = int ?n"
    using length_sp_text[OF assms(1)] length_sp_text[OF assms(2)] by auto
  then show "memcmp p q (if sp_length p < sp_length q then sp_length p else sp_length q) = Inr ?r"
    using memcmp_texts[OF assms, of "int ?n"] length_sp_text[OF assms(1)] length_sp_text[OF assms(2)]
    by simp
  show "sp_text p < sp_text q \<longleftrightarrow> ?r < 0 \<or> ?r = 0 \<and> sp_length p < sp_length q"
    using memcmp_order(1) length_less_iff[OF assms] by simp
  show "sp_text p = sp_text q \<longleftrightarrow> ?r = 0 \<and> sp_length p = sp_length q"
    using memcmp_order(2) length_eq_iff[OF assms] by simp
qed

lemma sp_eq_text:
  assumes "sp_ok p" "sp_ok q"
  shows "sp_eq p q = Inr (sp_text p = sp_text q)"
proof (cases "sp_length p = sp_length q")
  case True
  with memcmp_common[OF assms] obtain r where
    "memcmp p q (sp_length p) = Inr r" "sp_text p = sp_text q \<longleftrightarrow> r = 0"
    by auto
  with True show ?thesis by (simp add: sp_eq_def)
next
  case False
  then show ?thesis using length_eq_iff[OF assms] by (auto simp: sp_eq_def)
qed

lemma starts_with_prefix:
  assumes "sp_ok p" "sp_ok q"
  shows "starts_with p q = Inr (prefix (sp_text q) (sp_text p))"
proof (cases "sp_length q \<le> sp_length p")
  case True
  have L: "nat (sp_length q) = length (sp_text q)" "length (sp_text q) \<le> length (sp_text p)"
    using True length_sp_text[OF assms(1)] length_sp_text[OF assms(2)] by simp_all
  have "memcmp p q (sp_length q) = Inr (memcmp_chars (take (length (sp_text q)) (sp_text p)) (sp_text q))"
    using memcmp_texts[OF assms, of "sp_length q"] True L length_sp_text[OF assms(2)] by simp
  then show ?thesis using True L by (simp add: starts_with_def memcmp_prefix)
next
  case False
  then have "\<not> prefix (sp_text q) (sp_text p)"
    using length_sp_text[OF assms(1)] length_sp_text[OF assms(2)] prefix_length_le by fastforce
  with False show ?thesis by (simp add: starts_with_def)
qed

text \<open>
  C34. StringPiece.h: pieces that lie in their arrays compare as their texts do in the
  lexicographic order of unsigned characters: the six operators, the sign of \<open>compare\<close>, and
  \<open>starts_with\<close> is the prefix test. Nothing outside the arrays is read.
\<close>

theorem string_piece_order:
  assumes "sp_ok p" "sp_ok q"
  shows "sp_eq p q = Inr (sp_text p = sp_text q) \<and> sp_ne p q = Inr (sp_text p \<noteq> sp_text q) \<and>
    sp_lt p q = Inr (sp_text p < sp_text q) \<and> sp_le p q = Inr (sp_text p \<le> sp_text q) \<and>
    sp_gt p q = Inr (sp_text p > sp_text q) \<and> sp_ge p q = Inr (sp_text p \<ge> sp_text q) \<and>
    rbind (sp_compare p q) (\<lambda>r. Inr (sgn r)) =
      Inr (if sp_text p < sp_text q then -1 else if sp_text p = sp_text q then 0 else 1) \<and>
    starts_with p q = Inr (prefix (sp_text q) (sp_text p))"
proof -
  obtain r where r:
    "memcmp p q (if sp_length p < sp_length q then sp_length p else sp_length q) = Inr r"
    "sp_text p < sp_text q \<longleftrightarrow> r < 0 \<or> r = 0 \<and> sp_length p < sp_length q"
    "sp_text p = sp_text q \<longleftrightarrow> r = 0 \<and> sp_length p = sp_length q"
    by (rule memcmp_common[OF assms])
  have "rbind (sp_compare p q) (\<lambda>r. Inr (sgn r)) =
      Inr (if sp_text p < sp_text q then -1 else if sp_text p = sp_text q then 0 else 1)"
    using r by (auto simp: sp_compare_def)
  moreover have gt: "sp_text q < sp_text p \<longleftrightarrow> \<not> sp_text p < sp_text q \<and> sp_text p \<noteq> sp_text q"
    by (cases "sp_text p" "sp_text q" rule: linorder_cases) auto
  have le: "sp_text p \<le> sp_text q \<longleftrightarrow> sp_text p < sp_text q \<or> sp_text p = sp_text q"
    "sp_text q \<le> sp_text p \<longleftrightarrow> \<not> sp_text p < sp_text q"
    by (simp_all only: order.order_iff_strict not_less)
  have "sp_lt p q = Inr (sp_text p < sp_text q)" "sp_le p q = Inr (sp_text p \<le> sp_text q)"
    unfolding le using r by (auto simp: sp_lt_def sp_le_def sp_predicate_def)
  moreover have "sp_gt p q = Inr (sp_text p > sp_text q)" "sp_ge p q = Inr (sp_text p \<ge> sp_text q)"
    unfolding le gt using r by (auto simp: sp_gt_def sp_ge_def sp_predicate_def)
  ultimately show ?thesis
    using assms by (simp add: sp_eq_text starts_with_prefix sp_ne_def)
qed

section \<open>Making and shortening pieces\<close>

lemma int_of_size_id [simp]:
  assumes "n < 2 ^ 31"
  shows "int_of_size n = int n"
proof -
  have "int n < 2 ^ 31" using assms by (metis of_nat_less_iff of_nat_numeral of_nat_power)
  then show ?thesis
    unfolding int_of_size_def by (simp add: signed_of_nat signed_take_bit_int_eq_self)
qed

lemma sp_string_ok:
  "length s < 2 ^ 31 \<Longrightarrow> sp_ok (sp_string s) \<and> sp_text (sp_string s) = s \<and> as_string (sp_string s) = Inr s"
  by (simp add: sp_ok_def sp_text_def sp_string_def in_block_def sp_chars_def as_string_def)

lemma remove_prefix_text:
  assumes "sp_ok p" "0 \<le> n" "n \<le> sp_length p"
  shows "\<exists>q. remove_prefix n p = Inr q \<and> sp_ok q \<and> sp_text q = drop (nat n) (sp_text p)"
  using assms
  by (auto simp: remove_prefix_def sp_ok_def sp_text_def in_block_def sp_chars_def drop_take
      nat_diff_distrib nat_add_distrib add.commute)

lemma remove_suffix_text:
  assumes "sp_ok p" "0 \<le> n" "n \<le> sp_length p"
  shows "sp_ok (remove_suffix n p) \<and> sp_text (remove_suffix n p) = take (nat (sp_length p - n)) (sp_text p)"
  using assms
  by (auto simp: remove_suffix_def sp_ok_def sp_text_def in_block_def sp_chars_def min_def nat_mono)

theorem string_piece_order_witness:
  "sp_ok (sp_string ''abc'') \<and> sp_ok (sp_string ''abd'') \<and> sp_lt (sp_string ''abc'') (sp_string ''abd'') = Inr True \<and>
   starts_with (sp_string ''abc'') (sp_range ''xaby'' 1 2) = Inr True"
proof -
  have ok: "sp_ok (sp_string ''abc'')" "sp_ok (sp_string ''abd'')" "sp_ok (sp_range ''xaby'' 1 2)"
    by (simp_all add: sp_string_ok) (simp add: sp_ok_def sp_range_def in_block_def)
  have t: "sp_text (sp_string ''abc'') = ''abc''" "sp_text (sp_string ''abd'') = ''abd''"
    "sp_text (sp_range ''xaby'' 1 2) = ''ab''"
    by (simp_all add: sp_string_ok) (simp add: sp_text_def sp_range_def sp_chars_def)
  show ?thesis
    using string_piece_order[OF ok(1,2)] string_piece_order[OF ok(1,3)] ok
    by (simp add: t list_less_Cons less_char_def)
qed

end
