(* ===== verification/FileUtil.thy ===== *)
theory FileUtil
  imports Text
begin

text \<open>
  Reading small files and appending to files (src/zing/base/FileUtil.h and FileUtil.cpp). What
  the kernel answers to \<open>open\<close>, \<open>fstat\<close> and \<open>read\<close>, and what \<open>fwrite\<close> and \<open>ferror\<close> of
  the C library answer, are arguments; the hypotheses of the lemmas say what their manuals promise.
\<close>

section \<open>ReadSmallFile\<close>

text \<open>One call of \<open>read\<close>: the bytes it delivered (none at the end of the file) or an \<open>errno\<close>.\<close>

datatype read_out = ReadData string | ReadError int

text \<open>
  The reader's answer to a \<open>read\<close> of so many bytes when so many have been read before.
\<close>

type_synonym reader = "nat \<Rightarrow> nat \<Rightarrow> read_out"

definition rs_kBufferSize :: nat where
  "rs_kBufferSize = 64 * 1024"

record small_file =
  rs_fd :: int
  rs_err :: int
  rs_buf :: string

text \<open>\<open>open\<close> answered with a descriptor and an \<open>errno\<close>; the array starts with what memory held.\<close>

definition new_ReadSmallFile :: "int \<times> int \<Rightarrow> string \<Rightarrow> small_file" where
  "new_ReadSmallFile opened mem =
     \<lparr>rs_fd = fst opened, rs_err = (if fst opened < 0 then snd opened else 0),
      rs_buf = mem[0 := CHR 0x00]\<rparr>"

record file_stat =
  st_isreg :: bool
  st_isdir :: bool
  st_size :: int
  st_mtime :: int
  st_ctime :: int

text \<open>The three variables that \<open>readToString\<close> gets pointers to; \<open>None\<close> is a null pointer.\<close>

record file_times =
  ft_size :: "int option"
  ft_modify :: "int option"
  ft_create :: "int option"

definition eisdir :: int where
  "eisdir = 21"

text \<open>\<open>content->reserve\<close> of a negative size throws; otherwise it changes nothing visible.\<close>

definition rs_fstat :: "int + file_stat \<Rightarrow> int \<Rightarrow> int \<Rightarrow> file_times \<Rightarrow> (int \<times> file_times) result" where
  "rs_fstat st maxSize err ft =
     (if ft_size ft \<noteq> None
      then case st of
        Inr s \<Rightarrow>
          rbind (if st_isreg s
                 then if min maxSize (st_size s) < 0 then Inl LengthError
                      else Inr (err, ft\<lparr>ft_size := Some (st_size s)\<rparr>)
                 else if st_isdir s then Inr (eisdir, ft) else Inr (err, ft))
            (\<lambda>(err, ft). Inr (err,
               ft\<lparr>ft_modify := map_option (\<lambda>_. st_mtime s) (ft_modify ft),
                  ft_create := map_option (\<lambda>_. st_ctime s) (ft_create ft)\<rparr>))
      | Inl e \<Rightarrow> Inr (e, ft)
      else Inr (err, ft))"

text \<open>
  The reading loop. It ends in any case: every round lengthens the content. \<open>limit\<close> is
  \<open>maxSize\<close> as a \<open>size_t\<close>.
\<close>

function read_loop :: "reader \<Rightarrow> nat \<Rightarrow> string \<Rightarrow> int \<Rightarrow> string \<Rightarrow> int \<times> string \<times> string" where
  "read_loop rd limit content err buf =
     (if length content < limit
      then let toRead = min (limit - length content) rs_kBufferSize
           in case rd (length content) toRead of
                ReadData [] \<Rightarrow> (err, content, buf)
              | ReadData (c # cs) \<Rightarrow>
                  read_loop rd limit (content @ c # cs) err (overwrite 0 (c # cs) buf)
              | ReadError e \<Rightarrow> (e, content, buf)
      else (err, content, buf))"
  by pat_completeness auto

termination by (relation "measure (\<lambda>(rd, limit, content, err, buf). limit - length content)") auto

declare read_loop.simps [simp del]

definition size_of_int :: "int \<Rightarrow> nat" where
  "size_of_int i = nat (i mod 2 ^ 64)"

definition readToString ::
  "reader \<Rightarrow> int + file_stat \<Rightarrow> int \<Rightarrow> string \<Rightarrow> file_times \<Rightarrow> small_file \<Rightarrow>
   (int \<times> string \<times> file_times \<times> small_file) result" where
  "readToString rd st maxSize content ft f =
     (let err = rs_err f
      in if 0 \<le> rs_fd f
         then rbind (rs_fstat st maxSize err ft) (\<lambda>(err, ft).
           case read_loop rd (size_of_int maxSize) [] err (rs_buf f) of
             (err, content, buf) \<Rightarrow> Inr (err, content, ft, f\<lparr>rs_buf := buf\<rparr>))
         else Inr (err, content, ft, f))"

text \<open>\<open>pread\<close> from the start of the file; a NUL follows the bytes.\<close>

definition readToBuffer :: "reader \<Rightarrow> int option \<Rightarrow> small_file \<Rightarrow> int \<times> int option \<times> small_file" where
  "readToBuffer rd sz f =
     (let err = rs_err f
      in if 0 \<le> rs_fd f
         then case rd 0 (rs_kBufferSize - 1) of
                ReadData bs \<Rightarrow>
                  (err, map_option (\<lambda>_. int (length bs)) sz,
                   f\<lparr>rs_buf := (overwrite 0 bs (rs_buf f))[length bs := CHR 0x00]\<rparr>)
              | ReadError e \<Rightarrow> (e, sz, f)
         else (err, sz, f))"

definition readFile ::
  "reader \<Rightarrow> int + file_stat \<Rightarrow> int \<times> int \<Rightarrow> string \<Rightarrow> int \<Rightarrow> string \<Rightarrow> file_times \<Rightarrow>
   (int \<times> string \<times> file_times) result" where
  "readFile rd st opened mem maxSize content ft =
     (let file = new_ReadSmallFile opened mem
      in rbind (readToString rd st maxSize content ft file)
           (\<lambda>(err, content, ft, file). Inr (err, content, ft)))"

section \<open>AppendFile\<close>

text \<open>
  \<open>af_text\<close>: the characters the stream has accepted since it was opened; \<open>af_flushed\<close>: how many
  of them have certainly reached the file (the stream may hand over more on its own when its
  buffer of 64 kB is full).
\<close>

record append_file =
  af_name :: string
  af_text :: string
  af_flushed :: nat
  af_writtenBytes :: int

definition new_AppendFile :: "(string \<Rightarrow> bool) \<Rightarrow> string \<Rightarrow> append_file result" where
  "new_AppendFile fopen_ok name =
     (if fopen_ok name then Inr \<lparr>af_name = name, af_text = [], af_flushed = 0, af_writtenBytes = 0\<rparr>
      else Inl AssertFail)"

definition af_flush :: "append_file \<Rightarrow> append_file" where
  "af_flush f = f\<lparr>af_flushed := length (af_text f)\<rparr>"

text \<open>\<open>fclose\<close> in the destructor flushes as well.\<close>

definition destroy_AppendFile :: "append_file \<Rightarrow> append_file" where
  "destroy_AppendFile f = af_flush f"

text \<open>\<open>fwrite\<close> accepted the first \<open>n\<close> characters.\<close>

definition af_write :: "nat \<Rightarrow> string \<Rightarrow> append_file \<Rightarrow> append_file" where
  "af_write n s f = f\<lparr>af_text := af_text f @ take n s\<rparr>"

text \<open>
  The loop of \<open>append\<close>. \<open>outs\<close> lists what the calls of \<open>fwrite\<close> and the \<open>ferror\<close> after each
  answer; with no answer left the loop is still running (\<open>None\<close>).
\<close>

fun af_append_loop ::
  "(nat \<times> int) list \<Rightarrow> string \<Rightarrow> nat \<Rightarrow> append_file \<Rightarrow> (nat \<times> append_file) option" where
  "af_append_loop outs line written f =
     (if written \<noteq> length line
      then case outs of
        [] \<Rightarrow> None
      | (n, err) # outs' \<Rightarrow>
          (let remain = length line - written; f' = af_write n (drop written line) f
           in if n \<noteq> remain \<and> err \<noteq> 0 then Some (written, f')
              else af_append_loop outs' line (written + n) f')
      else Some (written, f))"

declare af_append_loop.simps [simp del]

definition af_append :: "(nat \<times> int) list \<Rightarrow> string \<Rightarrow> append_file \<Rightarrow> append_file option" where
  "af_append outs line f =
     map_option (\<lambda>(written, f). f\<lparr>af_writtenBytes := af_writtenBytes f + int written\<rparr>)
       (af_append_loop outs line 0 f)"

section \<open>Reading\<close>

text \<open>What \<open>read\<close> promises for a regular file that nobody changes: the next bytes, at least one
  before the end, never more than asked for.\<close>

definition reads_data :: "string \<Rightarrow> reader \<Rightarrow> bool" where
  "reads_data data rd \<longleftrightarrow>
     (\<forall>pos n. \<exists>s. rd pos n = ReadData s \<and> s = take (length s) (drop pos data) \<and> length s \<le> n \<and>
        (s = [] \<longrightarrow> n = 0 \<or> length data \<le> pos))"

lemma take_snoc_drop: "s = take (length s) (drop k xs) \<Longrightarrow> take k xs @ s = take (k + length s) xs"
  by (simp add: take_add)

lemma read_loop_data:
  assumes "reads_data data rd" "content = take (length content) data" "length content \<le> limit"
  shows "\<exists>buf'. read_loop rd limit content err buf = (err, take limit data, buf')"
  using assms(2,3)
proof (induction "limit - length content" arbitrary: content buf rule: less_induct)
  case less
  show ?case
  proof (cases "length content < limit")
    case False
    with less.prems show ?thesis by (simp add: read_loop.simps)
  next
    case True
    define toRead where "toRead = min (limit - length content) rs_kBufferSize"
    obtain s where s: "rd (length content) toRead = ReadData s"
      "s = take (length s) (drop (length content) data)" "length s \<le> toRead"
      "s = [] \<longrightarrow> toRead = 0 \<or> length data \<le> length content"
      using assms(1) unfolding reads_data_def by meson
    have step: "read_loop rd limit content err buf = (case ReadData s of
        ReadData [] \<Rightarrow> (err, content, buf)
      | ReadData (c # cs) \<Rightarrow> read_loop rd limit (content @ c # cs) err (overwrite 0 (c # cs) buf)
      | ReadError e \<Rightarrow> (e, content, buf))"
      using True s(1) by (subst read_loop.simps) (simp add: toRead_def Let_def)
    show ?thesis
    proof (cases s)
      case Nil
      with s(4) True have "length data \<le> length content"
        by (auto simp: toRead_def rs_kBufferSize_def)
      with less.prems(1) True Nil step show ?thesis by simp
    next
      case (Cons c cs)
      have "content @ s = take (length (content @ s)) data"
        unfolding length_append using take_snoc_drop[OF s(2)] less.prems(1) by metis
      moreover have "length (content @ s) \<le> limit" using s(3) True by (auto simp: toRead_def)
      moreover have "limit - length (content @ s) < limit - length content" using True Cons by simp
      ultimately have "\<exists>buf'. read_loop rd limit (content @ s) err (overwrite 0 s buf) = (err, take limit data, buf')"
        using less.hyps by blast
      then show ?thesis using step Cons by simp
    qed
  qed
qed

text \<open>
  FileUtil.h, \<open>readFile\<close>: from a file that opens and that nobody changes meanwhile, the content
  is the file's, cut at \<open>maxSize\<close> characters, however the kernel cuts the reads, and no error is
  reported.
\<close>

theorem read_file_content:
  assumes "reads_data data rd" "0 \<le> fd" "0 \<le> maxSize" "maxSize < 2 ^ 31"
  shows "readFile rd st (fd, e) mem maxSize content \<lparr>ft_size = None, ft_modify = m, ft_create = c\<rparr> =
    Inr (0, take (nat maxSize) data, \<lparr>ft_size = None, ft_modify = m, ft_create = c\<rparr>)"
proof -
  have "size_of_int maxSize = nat maxSize" using assms(3,4) by (simp add: size_of_int_def)
  with read_loop_data[OF assms(1), of "[]" "nat maxSize" 0 "mem[0 := CHR 0x00]"] assms(2)
  show ?thesis
    by (auto simp: readFile_def readToString_def new_ReadSmallFile_def rs_fstat_def)
qed

theorem read_file_content_witness:
  "readFile (\<lambda>pos n. ReadData (take (min n 2) (drop pos ''hello''))) (Inl 0) (5, 0) (replicate 4 CHR ''?'') 4 ''old''
     \<lparr>ft_size = None, ft_modify = None, ft_create = None\<rparr> =
   Inr (0, ''hell'', \<lparr>ft_size = None, ft_modify = None, ft_create = None\<rparr>)"
proof -
  have "reads_data ''hello'' (\<lambda>pos n. ReadData (take (min n 2) (drop pos ''hello'')))"
    by (auto simp: reads_data_def min_def)
  from read_file_content[OF this, of 5 4] show ?thesis by simp
qed

text \<open>A directory's error is reported only when the size is asked for.\<close>

lemma readFile_missing:
  "readFile rd st (-1, e) mem maxSize content ft = Inr (e, content, ft)"
  by (simp add: readFile_def readToString_def new_ReadSmallFile_def)

section \<open>Appending\<close>

text \<open>\<open>fwrite\<close> returns a short count only together with an error.\<close>

definition fwrite_out :: "nat \<Rightarrow> nat \<times> int \<Rightarrow> bool" where
  "fwrite_out len out = (fst out \<le> len \<and> (fst out < len \<longrightarrow> snd out \<noteq> 0))"

lemma append_loop_done [simp]: "af_append_loop outs line (length line) f = Some (length line, f)"
  by (subst af_append_loop.simps) simp

lemma append_full [simp]:
  "af_append [(length line, e)] line f =
     Some (f\<lparr>af_text := af_text f @ line, af_writtenBytes := af_writtenBytes f + int (length line)\<rparr>)"
  by (cases "line = []") (simp_all add: af_append_def af_append_loop.simps[of "_ # _"]
      af_append_loop.simps[of _ "[]"] af_write_def)

text \<open>
  One answer of \<open>fwrite\<close> that keeps its promise is enough for \<open>append\<close> to return: the line is
  in the stream, or a part of it that is not counted.
\<close>

lemma append_returns:
  assumes "fwrite_out (length line) out"
  shows "\<exists>f'. af_append (out # outs) line f = Some f' \<and>
    (fst out = length line \<and> af_text f' = af_text f @ line \<and>
       af_writtenBytes f' = af_writtenBytes f + int (length line) \<or>
     fst out < length line \<and> af_text f' = af_text f @ take (fst out) line \<and>
       af_writtenBytes f' = af_writtenBytes f)"
proof (cases "line = []")
  case True
  then show ?thesis
    using assms by (simp add: af_append_def af_append_loop.simps fwrite_out_def)
next
  case False
  obtain n e where out: "out = (n, e)" by (cases out)
  show ?thesis
  proof (cases "n = length line")
    case True
    then show ?thesis
      using False out by (simp add: af_append_def af_append_loop.simps[of "_ # _"] af_write_def)
  next
    case short: False
    then have "n < length line" "e \<noteq> 0" using assms out by (auto simp: fwrite_out_def)
    then show ?thesis
      using False out by (simp add: af_append_def af_append_loop.simps[of "_ # _"] af_write_def Let_def)
  qed
qed

text \<open>An \<open>fwrite\<close> that accepted nothing and set no error would keep the loop running for ever.\<close>

lemma append_spins: "line \<noteq> [] \<Longrightarrow> af_append (replicate n (0, 0)) line f = None"
proof (induction n)
  case (Suc n)
  then show ?case
    by (simp add: af_append_def af_append_loop.simps[of "_ # _"] af_write_def)
qed (simp add: af_append_def af_append_loop.simps)

end
