(* ===== verification/LogFile.thy ===== *)
theory LogFile
  imports FileUtil TimeZone
begin

text \<open>
  Log files (src/zing/base/LogFile.h and LogFile.cpp): appending, the count of lines, the
  periodic flush and the rolling to a new file. The readings of the clock, the answers of
  \<open>fopen\<close> and \<open>fwrite\<close>, the host name and the process id are arguments. With \<open>threadSafe\<close>
  every operation holds the mutex, so operations of several threads form one sequence.
\<close>

section \<open>The log file\<close>

text \<open>\<open>lf_old\<close> collects the files that were closed, oldest first.\<close>

record log_file =
  lf_basename :: string
  lf_rollSize :: int
  lf_flushInterval :: int
  lf_checkEveryN :: int
  lf_count :: int
  lf_startOfPeriod :: int
  lf_lastRoll :: int
  lf_lastFlush :: int
  lf_file :: "append_file option"
  lf_old :: "append_file list"

record log_env =
  le_fopen :: "string \<Rightarrow> bool"
  le_hostname :: string
  le_pid :: int

definition kRollPerSeconds :: int where
  "kRollPerSeconds = 60 * 60 * 24"

text \<open>\<open>strftime\<close> with the format \<open>.%Y%m%d-%H%M%S.\<close>\<close>

definition strftime_name :: "tm \<Rightarrow> string" where
  "strftime_name t =
     ''.'' @ fmt_0d 4 (tm_year t + 1900) @ fmt_0d 2 (tm_mon t + 1) @ fmt_0d 2 (tm_mday t) @ ''-'' @
     fmt_0d 2 (tm_hour t) @ fmt_0d 2 (tm_min t) @ fmt_0d 2 (tm_sec t) @ ''.''"

definition getLogFileName :: "log_env \<Rightarrow> string \<Rightarrow> int \<Rightarrow> string" where
  "getLogFileName env basename now =
     basename @ strftime_name (gmtime_r now) @ le_hostname env @
     snprintf_to 32 (''.'' @ int_dec (le_pid env)) @ ''.log''"

definition rollFile :: "log_env \<Rightarrow> int \<Rightarrow> log_file \<Rightarrow> (bool \<times> log_file) result" where
  "rollFile env now lf =
     (let filename = getLogFileName env (lf_basename lf) now;
          start = now sdiv kRollPerSeconds * kRollPerSeconds
      in if lf_lastRoll lf < now
         then rbind (new_AppendFile (le_fopen env) filename)
           (\<lambda>f. Inr (True, lf\<lparr>lf_lastRoll := now, lf_lastFlush := now, lf_startOfPeriod := start,
              lf_file := Some f,
              lf_old := lf_old lf @ (case lf_file lf of None \<Rightarrow> [] | Some g \<Rightarrow> [destroy_AppendFile g])\<rparr>))
         else Inr (False, lf))"

definition new_LogFile :: "log_env \<Rightarrow> string \<Rightarrow> int \<Rightarrow> int \<Rightarrow> int \<Rightarrow> int \<Rightarrow> log_file result" where
  "new_LogFile env basename rollSize flushInterval checkEveryN now =
     (if CHR ''/'' \<in> set basename then Inl AssertFail
      else rbind (rollFile env now
          \<lparr>lf_basename = basename, lf_rollSize = rollSize, lf_flushInterval = flushInterval,
           lf_checkEveryN = checkEveryN, lf_count = 0, lf_startOfPeriod = 0, lf_lastRoll = 0,
           lf_lastFlush = 0, lf_file = None, lf_old = []\<rparr>)
        (\<lambda>(b, lf). Inr lf))"

text \<open>
  \<open>now\<close> is the reading that the check of the period takes, \<open>nowRoll\<close> the one inside \<open>rollFile\<close>.
  \<open>None\<close>: the loop of \<open>AppendFile::append\<close> is still running.
\<close>

definition append_unlocked ::
  "log_env \<Rightarrow> (nat \<times> int) list \<Rightarrow> int \<Rightarrow> int \<Rightarrow> string \<Rightarrow> log_file \<Rightarrow> log_file result option" where
  "append_unlocked env outs now nowRoll logline lf =
     (case lf_file lf of
        None \<Rightarrow> Some (Inl Undefined)
      | Some f \<Rightarrow>
          (case af_append outs logline f of
             None \<Rightarrow> None
           | Some f \<Rightarrow> Some
               (let lf = lf\<lparr>lf_file := Some f\<rparr>
                in if lf_rollSize lf < af_writtenBytes f
                   then rbind (rollFile env nowRoll lf) (\<lambda>(b, lf). Inr lf)
                   else
                     let lf = lf\<lparr>lf_count := lf_count lf + 1\<rparr>
                     in if lf_checkEveryN lf \<le> lf_count lf
                        then
                          let lf = lf\<lparr>lf_count := 0\<rparr>;
                              thisPeriod = now sdiv kRollPerSeconds * kRollPerSeconds
                          in if thisPeriod \<noteq> lf_startOfPeriod lf
                             then rbind (rollFile env nowRoll lf) (\<lambda>(b, lf). Inr lf)
                             else if lf_flushInterval lf < now - lf_lastFlush lf
                             then Inr (lf\<lparr>lf_lastFlush := now, lf_file := Some (af_flush f)\<rparr>)
                             else Inr lf
                        else Inr lf)))"

definition lf_append ::
  "log_env \<Rightarrow> (nat \<times> int) list \<Rightarrow> int \<Rightarrow> int \<Rightarrow> string \<Rightarrow> log_file \<Rightarrow> log_file result option" where
  "lf_append env outs now nowRoll logline lf = append_unlocked env outs now nowRoll logline lf"

definition lf_flush :: "log_file \<Rightarrow> log_file result" where
  "lf_flush lf =
     (case lf_file lf of None \<Rightarrow> Inl Undefined | Some f \<Rightarrow> Inr (lf\<lparr>lf_file := Some (af_flush f)\<rparr>))"

section \<open>File names\<close>

text \<open>Times up to the end of the year 9999.\<close>

definition log_time :: "int \<Rightarrow> bool" where
  "log_time t = (0 \<le> t \<and> t < 253402300800)"

text \<open>Different moments give different names: the six fields can be read off from the right.\<close>

lemma log_name_inject:
  assumes "0 \<le> s" "0 \<le> t"
  shows "getLogFileName env b s = getLogFileName env b t \<longleftrightarrow> s = t"
proof
  assume e: "getLogFileName env b s = getLogFileName env b t"
  note L = gmtime_ranges[OF assms(1)] gmtime_ranges[OF assms(2)]
  have "tm_year (gmtime_r s) = tm_year (gmtime_r t) \<and> tm_mon (gmtime_r s) = tm_mon (gmtime_r t) \<and>
      tm_mday (gmtime_r s) = tm_mday (gmtime_r t) \<and> tm_hour (gmtime_r s) = tm_hour (gmtime_r t) \<and>
      tm_min (gmtime_r s) = tm_min (gmtime_r t) \<and> tm_sec (gmtime_r s) = tm_sec (gmtime_r t)"
    using e L unfolding getLogFileName_def strftime_name_def
    by (simp add: fmt_0d_2 append_eq_append_conv fmt_0d_inject)
  then show "s = t" using assms by (blast intro: gmtime_inject)
qed simp

section \<open>Histories of a log file\<close>

text \<open>A line appended with the two clock readings its append may take, or a flush.\<close>

datatype log_op = LogLine int int string | LogFlush

text \<open>Every \<open>fwrite\<close> accepts all it is given.\<close>

definition lf_step :: "log_env \<Rightarrow> log_op \<Rightarrow> log_file \<Rightarrow> log_file result option" where
  "lf_step env op lf =
     (case op of
        LogLine now nowRoll line \<Rightarrow> lf_append env [(length line, 0)] now nowRoll line lf
      | LogFlush \<Rightarrow> Some (lf_flush lf))"

fun lf_run :: "log_env \<Rightarrow> log_op list \<Rightarrow> log_file \<Rightarrow> log_file result option" where
  "lf_run env [] lf = Some (Inr lf)"
| "lf_run env (op # ops) lf =
     (case lf_step env op lf of Some (Inr lf') \<Rightarrow> lf_run env ops lf' | r \<Rightarrow> r)"

fun op_lines :: "log_op \<Rightarrow> string list" where
  "op_lines (LogLine _ _ line) = [line]"
| "op_lines LogFlush = []"

definition logged :: "log_op list \<Rightarrow> string list" where
  "logged ops = concat (map op_lines ops)"

definition log_files :: "log_file \<Rightarrow> append_file list" where
  "log_files lf = lf_old lf @ (case lf_file lf of None \<Rightarrow> [] | Some f \<Rightarrow> [f])"

text \<open>
  \<open>ts\<close>: the moments at which the files were opened; \<open>parts\<close>: the lines in each of them.
\<close>

definition log_inv ::
  "log_env \<Rightarrow> string \<Rightarrow> int list \<Rightarrow> string list list \<Rightarrow> log_file \<Rightarrow> bool" where
  "log_inv env b ts parts lf \<longleftrightarrow>
     lf_basename lf = b \<and> lf_file lf \<noteq> None \<and> ts \<noteq> [] \<and> last ts = lf_lastRoll lf \<and> sorted_wrt (<) ts \<and>
     (\<forall>t \<in> set ts. 0 < t) \<and>
     lf_startOfPeriod lf = lf_lastRoll lf sdiv kRollPerSeconds * kRollPerSeconds \<and>
     map af_name (log_files lf) = map (getLogFileName env b) ts \<and>
     map af_text (log_files lf) = map concat parts \<and>
     (\<forall>f \<in> set (log_files lf). af_writtenBytes f = int (length (af_text f))) \<and>
     (\<forall>f \<in> set (lf_old lf). af_flushed f = length (af_text f))"

definition add_last :: "'a \<Rightarrow> 'a list list \<Rightarrow> 'a list list" where
  "add_last x parts = butlast parts @ [last parts @ [x]]"

lemma concat_add_last: "parts \<noteq> [] \<Longrightarrow> concat (add_last x parts) = concat parts @ [x]"
  unfolding add_last_def by (cases parts rule: rev_cases) auto

lemma log_inv_parts: "log_inv env b ts parts lf \<Longrightarrow> parts \<noteq> []"
  by (auto simp: log_inv_def log_files_def)

text \<open>Rolling opens a new file under a new name or leaves everything as it is.\<close>

lemma rollFile_inv:
  assumes "log_inv env b ts parts lf" "\<And>name. le_fopen env name"
  shows "\<exists>r lf' ts' parts'. rollFile env now lf = Inr (r, lf') \<and> log_inv env b ts' parts' lf' \<and>
    concat parts' = concat parts"
proof (cases "lf_lastRoll lf < now")
  case False
  then show ?thesis using assms(1) by (auto simp: rollFile_def)
next
  case True
  obtain f where f: "lf_file lf = Some f" using assms(1) by (auto simp: log_inv_def)
  define lf' where "lf' = snd (projr (rollFile env now lf))"
  have r: "rollFile env now lf = Inr (True, lf')"
    using True assms(2) by (simp add: rollFile_def new_AppendFile_def lf'_def)
  have "0 < now" using True assms(1) last_in_set[of ts] by (fastforce simp: log_inv_def)
  moreover have "\<forall>t \<in> set ts. t < now"
  proof -
    obtain us where "ts = us @ [lf_lastRoll lf]"
      using assms(1) by (cases ts rule: rev_cases) (auto simp: log_inv_def)
    then show ?thesis using True assms(1) by (auto simp: log_inv_def sorted_wrt_append)
  qed
  ultimately have "log_inv env b (ts @ [now]) (parts @ [[]]) lf'"
    using assms f True
    by (auto simp: log_inv_def lf'_def rollFile_def new_AppendFile_def log_files_def sorted_wrt_append
        destroy_AppendFile_def af_flush_def)
  with r show ?thesis by fastforce
qed

lemma lf_append_inv:
  assumes "log_inv env b ts parts lf" "\<And>name. le_fopen env name"
  shows "\<exists>lf' ts' parts'. lf_append env [(length line, 0)] now nowRoll line lf = Some (Inr lf') \<and>
    log_inv env b ts' parts' lf' \<and> concat parts' = concat parts @ [line]"
proof -
  obtain f where f: "lf_file lf = Some f" using assms(1) by (auto simp: log_inv_def)
  define f' where "f' = f\<lparr>af_text := af_text f @ line, af_writtenBytes := af_writtenBytes f + int (length line)\<rparr>"
  let ?parts = "add_last line parts"
  have split: "map af_text (lf_old lf) = map concat (butlast parts)" "af_text f = concat (last parts)"
    using assms(1) f log_inv_parts[OF assms(1)]
    by (cases parts rule: rev_cases; simp add: log_inv_def log_files_def)+
  have inv: "log_inv env b ts ?parts (lf\<lparr>lf_file := Some f', lf_count := k\<rparr>)" for k
    using assms(1) f split by (auto simp: log_inv_def log_files_def f'_def add_last_def)
  have flushed: "log_inv env b ts ?parts (lf\<lparr>lf_count := 0, lf_lastFlush := now, lf_file := Some (af_flush f')\<rparr>)"
    using inv[of 0] by (auto simp: log_inv_def log_files_def af_flush_def)
  have roll: "\<exists>r lf' ts' parts'. rollFile env nowRoll (lf\<lparr>lf_file := Some f', lf_count := k\<rparr>) = Inr (r, lf') \<and>
      log_inv env b ts' parts' lf' \<and> concat parts' = concat ?parts" for k
    using rollFile_inv[OF inv assms(2)] .
  have count: "lf\<lparr>lf_file := Some f'\<rparr> = lf\<lparr>lf_file := Some f', lf_count := lf_count lf\<rparr>" by simp
  have "append_unlocked env [(length line, 0)] now nowRoll line lf =
    Some (if lf_rollSize lf < af_writtenBytes f'
      then rbind (rollFile env nowRoll (lf\<lparr>lf_file := Some f'\<rparr>)) (\<lambda>(b, lf). Inr lf)
      else if lf_checkEveryN lf \<le> lf_count lf + 1
      then if now sdiv kRollPerSeconds * kRollPerSeconds \<noteq> lf_startOfPeriod lf
        then rbind (rollFile env nowRoll (lf\<lparr>lf_file := Some f', lf_count := 0\<rparr>)) (\<lambda>(b, lf). Inr lf)
        else if lf_flushInterval lf < now - lf_lastFlush lf
        then Inr (lf\<lparr>lf_count := 0, lf_lastFlush := now, lf_file := Some (af_flush f')\<rparr>)
        else Inr (lf\<lparr>lf_file := Some f', lf_count := 0\<rparr>)
      else Inr (lf\<lparr>lf_file := Some f', lf_count := lf_count lf + 1\<rparr>))"
    by (simp add: append_unlocked_def f f'_def[symmetric] Let_def)
  then show ?thesis
    using inv flushed roll[of 0] roll[of "lf_count lf", folded count] concat_add_last[OF log_inv_parts[OF assms(1)], of line]
    unfolding lf_append_def by (auto split: if_splits)
qed

lemma lf_step_inv:
  assumes "log_inv env b ts parts lf" "\<And>name. le_fopen env name"
  shows "\<exists>lf' ts' parts'. lf_step env op lf = Some (Inr lf') \<and> log_inv env b ts' parts' lf' \<and>
    concat parts' = concat parts @ op_lines op"
proof (cases op)
  case (LogLine now nowRoll line)
  then show ?thesis using lf_append_inv[OF assms] by (simp add: lf_step_def)
next
  case LogFlush
  obtain f where f: "lf_file lf = Some f" using assms(1) by (auto simp: log_inv_def)
  then have "log_inv env b ts parts (lf\<lparr>lf_file := Some (af_flush f)\<rparr>)"
    using assms(1) by (auto simp: log_inv_def log_files_def af_flush_def)
  with f LogFlush show ?thesis by (auto simp: lf_step_def lf_flush_def)
qed

lemma lf_run_inv:
  assumes "log_inv env b ts parts lf" "\<And>name. le_fopen env name"
  shows "\<exists>lf' ts' parts'. lf_run env ops lf = Some (Inr lf') \<and> log_inv env b ts' parts' lf' \<and>
    concat parts' = concat parts @ logged ops"
  using assms(1)
proof (induction ops arbitrary: ts parts lf)
  case (Cons op ops)
  from lf_step_inv[OF Cons.prems assms(2), of op] obtain lf1 ts1 parts1 where
    "lf_step env op lf = Some (Inr lf1)" "log_inv env b ts1 parts1 lf1"
    "concat parts1 = concat parts @ op_lines op"
    by blast
  with Cons.IH[of ts1 parts1 lf1] show ?case by (auto simp: logged_def)
qed (auto simp: logged_def)

lemma new_LogFile_inv:
  assumes "new_LogFile env b rollSize fi n now = Inr lf" "0 < now" "le_fopen env (getLogFileName env b now)"
  shows "log_inv env b [now] [[]] lf"
  using assms
  by (auto simp: new_LogFile_def rollFile_def new_AppendFile_def log_inv_def log_files_def split: if_splits)

lemma log_run_from_new:
  assumes "new_LogFile env b rollSize fi n now = Inr lf" "0 < now" "\<forall>name. le_fopen env name"
  obtains lf' ts parts where "lf_run env ops lf = Some (Inr lf')" "log_inv env b ts parts lf'"
    "concat parts = logged ops"
proof -
  have "log_inv env b [now] [[]] lf" using new_LogFile_inv[OF assms(1,2)] assms(3) by blast
  from lf_run_inv[OF this, of ops] assms(3) that show thesis by auto
qed

text \<open>
  C17. LogFile.cpp: when files can be opened and written, every history of appends (with any clock
  readings, also ones that go back) and flushes runs without an error. The files hold the lines
  in order, each line whole in one file; no two files share a name, so none is appended to
  twice; \<open>writtenBytes\<close> is the size of each file; the files that were closed are complete.
\<close>

theorem log_file_keeps_lines:
  assumes "new_LogFile env basename rollSize flushInterval checkEveryN now = Inr lf" "0 < now"
    and "\<forall>name. le_fopen env name"
  shows "\<exists>lf' parts. lf_run env ops lf = Some (Inr lf') \<and> concat parts = logged ops \<and>
    map af_text (log_files lf') = map concat parts \<and> distinct (map af_name (log_files lf')) \<and>
    (\<forall>f \<in> set (log_files lf'). af_writtenBytes f = int (length (af_text f))) \<and>
    (\<forall>f \<in> set (lf_old lf'). af_flushed f = length (af_text f))"
proof -
  obtain lf' ts parts where r: "lf_run env ops lf = Some (Inr lf')" "log_inv env basename ts parts lf'"
    "concat parts = logged ops"
    using log_run_from_new[OF assms] by blast
  have "distinct ts" "\<forall>t \<in> set ts. 0 \<le> t"
    using r(2) by (auto simp: log_inv_def strict_sorted_iff)
  then have "distinct (map (getLogFileName env basename) ts)"
    by (auto simp: distinct_map inj_on_def log_name_inject)
  then have "distinct (map af_name (log_files lf'))" using r(2) by (simp add: log_inv_def)
  with r show ?thesis by (auto simp: log_inv_def)
qed

section \<open>Sizes\<close>

text \<open>
  LogFile.cpp, \<open>append_unlocked\<close>: after an append whose rolling may take place (the clock has moved on
  since the file was opened), the current file is not larger than \<open>rollSize\<close>.
\<close>

lemma append_rolls:
  assumes "lf_append env [(length line, 0)] now nowRoll line lf = Some (Inr lf')" "lf_lastRoll lf < nowRoll"
    and "0 \<le> lf_rollSize lf" "lf_file lf' = Some f"
  shows "af_writtenBytes f \<le> lf_rollSize lf"
proof -
  obtain g where "lf_file lf = Some g"
    using assms(1) by (auto simp: lf_append_def append_unlocked_def split: option.splits)
  then show ?thesis
    using assms
    by (auto simp: lf_append_def append_unlocked_def Let_def rbind_eq_Inr_iff rollFile_def new_AppendFile_def
        af_flush_def split: if_splits)
qed

lemma append_keeps_file:
  assumes "lf_append env outs now nowRoll line lf = Some (Inr lf')" "nowRoll \<le> lf_lastRoll lf"
  shows "lf_old lf' = lf_old lf \<and> lf_lastRoll lf' = lf_lastRoll lf"
  using assms
  by (auto simp: lf_append_def append_unlocked_def rollFile_def Let_def split: option.splits if_splits)

lemma run_keeps_file:
  assumes "lf_run env ops lf = Some (Inr lf')"
    and "\<forall>n r line. LogLine n r line \<in> set ops \<longrightarrow> r \<le> lf_lastRoll lf"
  shows "lf_old lf' = lf_old lf \<and> lf_lastRoll lf' = lf_lastRoll lf"
  using assms
proof (induction ops arbitrary: lf)
  case (Cons op ops)
  from Cons.prems(1) obtain lf1 where lf1: "lf_step env op lf = Some (Inr lf1)" "lf_run env ops lf1 = Some (Inr lf')"
    by (auto split: option.splits sum.splits)
  have "lf_old lf1 = lf_old lf \<and> lf_lastRoll lf1 = lf_lastRoll lf"
  proof (cases op)
    case (LogLine n r line)
    with Cons.prems(2) have "r \<le> lf_lastRoll lf" by auto
    with LogLine lf1(1) show ?thesis by (auto simp: lf_step_def dest: append_keeps_file)
  next
    case LogFlush
    with lf1(1) show ?thesis by (auto simp: lf_step_def lf_flush_def split: option.splits)
  qed
  with Cons.IH[OF lf1(2)] Cons.prems(2) show ?case by auto
qed simp

text \<open>
  LogFile.cpp, \<open>rollFile\<close>: it does nothing while the clock stands at the second in which the file was
  opened or before it, so within that second (or after the clock was set back) every line goes
  into the same file, however small \<open>rollSize\<close> is.
\<close>

theorem log_file_exceeds_roll_size:
  assumes "new_LogFile env basename rollSize flushInterval checkEveryN now = Inr lf" "0 < now"
    and "\<forall>name. le_fopen env name"
    and "\<forall>n r line. LogLine n r line \<in> set ops \<longrightarrow> r \<le> now"
  shows "\<exists>lf' f. lf_run env ops lf = Some (Inr lf') \<and> log_files lf' = [f] \<and>
    af_text f = concat (logged ops)"
proof -
  obtain lf' ts parts where r: "lf_run env ops lf = Some (Inr lf')" "log_inv env basename ts parts lf'"
    "concat parts = logged ops"
    using log_run_from_new[OF assms(1-3)] by blast
  have "lf_lastRoll lf = now" "lf_old lf = []"
    using assms(1-3) by (auto simp: new_LogFile_def rollFile_def new_AppendFile_def split: if_splits)
  with run_keeps_file[OF r(1)] assms(4) have "lf_old lf' = []" by auto
  with r(2) obtain f where f: "log_files lf' = [f]" by (auto simp: log_inv_def log_files_def)
  with r(2) obtain ls where "parts = [ls]" "af_text f = concat ls" by (auto simp: log_inv_def)
  with r f show ?thesis by auto
qed

theorem log_file_exceeds_roll_size_witness:
  "\<exists>lf lf' f. new_LogFile \<lparr>le_fopen = \<lambda>_. True, le_hostname = ''h'', le_pid = 7\<rparr> ''log'' 4 3 1024 1600000000 = Inr lf \<and>
    lf_run \<lparr>le_fopen = \<lambda>_. True, le_hostname = ''h'', le_pid = 7\<rparr>
      (replicate 3 (LogLine 1600000000 1600000000 ''0123456789'')) lf = Some (Inr lf') \<and>
    log_files lf' = [f] \<and> length (af_text f) = 30"
proof -
  let ?env = "\<lparr>le_fopen = \<lambda>_. True, le_hostname = ''h'', le_pid = 7\<rparr>"
  obtain lf where lf: "new_LogFile ?env ''log'' 4 3 1024 1600000000 = Inr lf"
    by (simp add: new_LogFile_def rollFile_def new_AppendFile_def)
  from log_file_exceeds_roll_size[OF lf, of "replicate 3 (LogLine 1600000000 1600000000 ''0123456789'')"] lf
  show ?thesis by (auto simp: logged_def numeral_3_eq_3)
qed

theorem log_file_keeps_lines_witness:
  "\<exists>lf lf' parts. new_LogFile \<lparr>le_fopen = \<lambda>_. True, le_hostname = ''h'', le_pid = 7\<rparr> ''log'' 4 3 1024 1600000000 = Inr lf \<and>
    lf_run \<lparr>le_fopen = \<lambda>_. True, le_hostname = ''h'', le_pid = 7\<rparr>
      [LogLine 0 1600000001 ''hello'', LogFlush, LogLine 0 1600000002 ''hi''] lf = Some (Inr lf') \<and>
    concat parts = [''hello'', ''hi''] \<and> map af_text (log_files lf') = map concat parts \<and>
    distinct (map af_name (log_files lf'))"
proof -
  let ?env = "\<lparr>le_fopen = \<lambda>_. True, le_hostname = ''h'', le_pid = 7\<rparr>"
  obtain lf where lf: "new_LogFile ?env ''log'' 4 3 1024 1600000000 = Inr lf"
    by (simp add: new_LogFile_def rollFile_def new_AppendFile_def)
  from log_file_keeps_lines[OF lf, of "[LogLine 0 1600000001 ''hello'', LogFlush, LogLine 0 1600000002 ''hi'']"] lf
  show ?thesis by (auto simp: logged_def)
qed

end
