(* ===== verification/InetAddress.thy ===== *)
theory InetAddress
  imports Endian Text
begin

text \<open>
  Internet addresses and sockets (src/zing/net/InetAddress.h and InetAddress.cpp, SocketsOps.h
  and SocketsOps.cpp, Socket.h and Socket.cpp). The kernel's answers are arguments. Of the C
  library, \<open>inet_pton\<close> and \<open>inet_ntop\<close> are modelled for IPv4 (dotted decimal); for IPv6 they are
  the arguments \<open>pton6\<close> and \<open>ntop6\<close>. Lines logged about errors are left out.
\<close>

section \<open>Socket addresses\<close>

text \<open>
  The union of \<open>sockaddr_in\<close> and \<open>sockaddr_in6\<close>: family and port share their places, the IPv4
  address lies where the flow label is, and the padding of \<open>sockaddr_in\<close> is the first half of
  the IPv6 address. Port and IPv4 address are the words as they are stored, in network order.
\<close>

record sockaddr =
  sin_family :: nat
  sin_port :: "16 word"
  sin_addr :: "32 word"
  sin6_addr :: "byte list"
  sin6_scope_id :: "32 word"

definition AF_INET :: nat where
  "AF_INET = 2"

definition AF_INET6 :: nat where
  "AF_INET6 = 10"

text \<open>\<open>memZero\<close> of the IPv4 or of the whole structure.\<close>

definition zero_in :: "sockaddr \<Rightarrow> sockaddr" where
  "zero_in a = a\<lparr>sin_family := 0, sin_port := 0, sin_addr := 0, sin6_addr := replicate 8 0 @ drop 8 (sin6_addr a)\<rparr>"

definition zero_in6 :: "sockaddr \<Rightarrow> sockaddr" where
  "zero_in6 a = \<lparr>sin_family = 0, sin_port = 0, sin_addr = 0, sin6_addr = replicate 16 0, sin6_scope_id = 0\<rparr>"

section \<open>Dotted decimal\<close>

text \<open>
  \<open>inet_ntop(AF_INET)\<close> prints the four bytes; \<open>inet_pton(AF_INET)\<close> takes exactly four numbers up
  to 255 without leading zeros. \<open>cur\<close> is the number being read, if a digit of it was seen.
\<close>

definition ntop4 :: "byte list \<Rightarrow> string" where
  "ntop4 bs = nat_dec (unat (bs ! 0)) @ ''.'' @ nat_dec (unat (bs ! 1)) @ ''.'' @
     nat_dec (unat (bs ! 2)) @ ''.'' @ nat_dec (unat (bs ! 3))"

fun pton4_loop :: "string \<Rightarrow> nat list \<Rightarrow> nat option \<Rightarrow> nat list option" where
  "pton4_loop [] acc cur =
     (case cur of Some n \<Rightarrow> if length acc = 3 then Some (acc @ [n]) else None | None \<Rightarrow> None)"
| "pton4_loop (c # cs) acc cur =
     (if is_digit c
      then case cur of
             None \<Rightarrow> pton4_loop cs acc (Some (digit_val c))
           | Some n \<Rightarrow> if n = 0 \<or> 255 < 10 * n + digit_val c then None
                      else pton4_loop cs acc (Some (10 * n + digit_val c))
      else if c = CHR ''.''
      then case cur of
             Some n \<Rightarrow> if length acc = 3 then None else pton4_loop cs (acc @ [n]) None
           | None \<Rightarrow> None
      else None)"

definition pton4 :: "string \<Rightarrow> byte list option" where
  "pton4 s = map_option (map word_of_nat) (pton4_loop s [] None)"

section \<open>SocketsOps: texts of addresses\<close>

text \<open>A text of the C library is a C string; the result is what the array then holds.\<close>

definition sockets_toIp ::
  "byte_order \<Rightarrow> (byte list \<Rightarrow> string) \<Rightarrow> string \<Rightarrow> nat \<Rightarrow> sockaddr \<Rightarrow> string result" where
  "sockets_toIp host ntop6 buf n addr =
     (if sin_family addr = AF_INET
      then if 16 \<le> n then Inr (ntop4 (mem_bytes host (sin_addr addr))) else Inl AssertFail
      else if sin_family addr = AF_INET6
      then if 46 \<le> n then Inr (ntop6 (sin6_addr addr)) else Inl AssertFail
      else Inr buf)"

definition sockets_toIpPort ::
  "byte_order \<Rightarrow> (byte list \<Rightarrow> string) \<Rightarrow> string \<Rightarrow> nat \<Rightarrow> sockaddr \<Rightarrow> string result" where
  "sockets_toIpPort host ntop6 buf n addr =
     (if sin_family addr = AF_INET6
      then rbind (sockets_toIp host ntop6 (drop 1 buf) (n - 1) addr) (\<lambda>ip.
        let buf = ''['' @ ip; port = networkToHost16 host (sin_port addr)
        in if length buf < n
           then Inr (buf @ snprintf_to (n - length buf) ('']:'' @ nat_dec (unat port)))
           else Inl AssertFail)
      else rbind (sockets_toIp host ntop6 buf n addr) (\<lambda>buf.
        let port = networkToHost16 host (sin_port addr)
        in if length buf < n
           then Inr (buf @ snprintf_to (n - length buf) ('':'' @ nat_dec (unat port)))
           else Inl AssertFail))"

text \<open>A text that is no address leaves the field as it was: the error is only logged.\<close>

definition fromIpPort_in :: "byte_order \<Rightarrow> string \<Rightarrow> 16 word \<Rightarrow> sockaddr \<Rightarrow> sockaddr" where
  "fromIpPort_in host ip port addr =
     (let addr = addr\<lparr>sin_family := AF_INET, sin_port := hostToNetwork16 host port\<rparr>
      in case pton4 ip of Some bs \<Rightarrow> addr\<lparr>sin_addr := mem_read host bs\<rparr> | None \<Rightarrow> addr)"

definition fromIpPort_in6 ::
  "byte_order \<Rightarrow> (string \<Rightarrow> byte list option) \<Rightarrow> string \<Rightarrow> 16 word \<Rightarrow> sockaddr \<Rightarrow> sockaddr" where
  "fromIpPort_in6 host pton6 ip port addr =
     (let addr = addr\<lparr>sin_family := AF_INET6, sin_port := hostToNetwork16 host port\<rparr>
      in case pton6 ip of Some bs \<Rightarrow> addr\<lparr>sin6_addr := bs\<rparr> | None \<Rightarrow> addr)"

section \<open>SocketsOps: the system calls\<close>

text \<open>Outcomes of calls that the code dies of.\<close>

definition or_die :: "int \<Rightarrow> int result" where
  "or_die ret = (if ret < 0 then Inl Fatal else Inr ret)"

definition createNonblockingOrDie :: "int \<Rightarrow> int result" where
  "createNonblockingOrDie sockfd = or_die sockfd"

definition bindOrDie :: "int \<Rightarrow> unit result" where
  "bindOrDie ret = rbind (or_die ret) (\<lambda>_. Inr ())"

definition listenOrDie :: "int \<Rightarrow> unit result" where
  "listenOrDie ret = rbind (or_die ret) (\<lambda>_. Inr ())"

text \<open>
  \<open>accept4\<close> answered with a descriptor or with an \<open>errno\<close>. Linux numbers: \<open>EPERM\<close> 1, \<open>EINTR\<close> 4,
  \<open>EAGAIN\<close> 11, \<open>EMFILE\<close> 24, \<open>EPROTO\<close> 71, \<open>ECONNABORTED\<close> 103. Every other error is fatal, whether it
  is listed in the code as unexpected or not at all.
\<close>

definition accept_expected :: "int \<Rightarrow> bool" where
  "accept_expected savedErrno = (savedErrno \<in> {11, 103, 4, 71, 1, 24})"

definition sockets_accept :: "int \<Rightarrow> int \<Rightarrow> (int \<times> int) result" where
  "sockets_accept connfd savedErrno =
     (if connfd < 0
      then if accept_expected savedErrno then Inr (connfd, savedErrno) else Inl Fatal
      else Inr (connfd, savedErrno))"

text \<open>\<open>getsockopt\<close> answered with a value of the option or failed with an \<open>errno\<close>.\<close>

definition getSocketError :: "int + int \<Rightarrow> int" where
  "getSocketError answer = (case answer of Inl errno \<Rightarrow> errno | Inr optval \<Rightarrow> optval)"

definition getLocalAddr :: "sockaddr option \<Rightarrow> sockaddr \<Rightarrow> sockaddr" where
  "getLocalAddr answer mem = (case answer of Some a \<Rightarrow> a | None \<Rightarrow> zero_in6 mem)"

definition getPeerAddr :: "sockaddr option \<Rightarrow> sockaddr \<Rightarrow> sockaddr" where
  "getPeerAddr answer mem = (case answer of Some a \<Rightarrow> a | None \<Rightarrow> zero_in6 mem)"

definition isSelfConnect :: "sockaddr option \<Rightarrow> sockaddr option \<Rightarrow> sockaddr \<Rightarrow> bool" where
  "isSelfConnect localAnswer peerAnswer mem =
     (let localaddr = getLocalAddr localAnswer mem; peeraddr = getPeerAddr peerAnswer mem
      in if sin_family localaddr = AF_INET
         then sin_port localaddr = sin_port peeraddr \<and> sin_addr localaddr = sin_addr peeraddr
         else if sin_family localaddr = AF_INET6
         then sin_port localaddr = sin_port peeraddr \<and> sin6_addr localaddr = sin6_addr peeraddr
         else False)"

section \<open>InetAddress\<close>

definition kInaddrAny :: "32 word" where
  "kInaddrAny = 0"

definition kInaddrLoopback :: "32 word" where
  "kInaddrLoopback = 0x7f000001"

text \<open>The constructors overwrite memory of unknown content, \<open>mem\<close>.\<close>

definition inet_port :: "byte_order \<Rightarrow> sockaddr \<Rightarrow> 16 word \<Rightarrow> bool \<Rightarrow> bool \<Rightarrow> sockaddr" where
  "inet_port host mem portArg loopbackOnly ipv6 =
     (if ipv6
      then (zero_in6 mem)\<lparr>sin_family := AF_INET6,
             sin6_addr := (if loopbackOnly then replicate 15 0 @ [1] else replicate 16 0),
             sin_port := hostToNetwork16 host portArg\<rparr>
      else (zero_in mem)\<lparr>sin_family := AF_INET,
             sin_addr := hostToNetwork32 host (if loopbackOnly then kInaddrLoopback else kInaddrAny),
             sin_port := hostToNetwork16 host portArg\<rparr>)"

definition inet_ip ::
  "byte_order \<Rightarrow> (string \<Rightarrow> byte list option) \<Rightarrow> sockaddr \<Rightarrow> string \<Rightarrow> 16 word \<Rightarrow> bool \<Rightarrow> sockaddr" where
  "inet_ip host pton6 mem ip portArg ipv6 =
     (if ipv6 \<or> CHR '':'' \<in> set ip
      then fromIpPort_in6 host pton6 ip portArg (zero_in6 mem)
      else fromIpPort_in host ip portArg (zero_in mem))"

definition inet_family :: "sockaddr \<Rightarrow> nat" where
  "inet_family a = sin_family a"

text \<open>The two functions that fill an array of 64 characters, empty at first.\<close>

definition inet_toIpPort :: "byte_order \<Rightarrow> (byte list \<Rightarrow> string) \<Rightarrow> sockaddr \<Rightarrow> string result" where
  "inet_toIpPort host ntop6 a = sockets_toIpPort host ntop6 [] 64 a"

definition inet_toIp :: "byte_order \<Rightarrow> (byte list \<Rightarrow> string) \<Rightarrow> sockaddr \<Rightarrow> string result" where
  "inet_toIp host ntop6 a = sockets_toIp host ntop6 [] 64 a"

definition ipv4NetEndian :: "sockaddr \<Rightarrow> 32 word result" where
  "ipv4NetEndian a = (if inet_family a = AF_INET then Inr (sin_addr a) else Inl AssertFail)"

definition inet_portNumber :: "byte_order \<Rightarrow> sockaddr \<Rightarrow> 16 word" where
  "inet_portNumber host a = networkToHost16 host (sin_port a)"

text \<open>
  \<open>gethostbyname_r\<close> answered with an error code and perhaps an entry: its address type, the
  length of its addresses and the first of them.
\<close>

definition inet_resolve :: "int \<Rightarrow> (nat \<times> nat \<times> 32 word) option \<Rightarrow> sockaddr \<Rightarrow> (bool \<times> sockaddr) result" where
  "inet_resolve ret he out =
     (case (if ret = 0 then he else None) of
        Some (addrtype, len, addr) \<Rightarrow>
          if addrtype = AF_INET \<and> len = 4 then Inr (True, out\<lparr>sin_addr := addr\<rparr>) else Inl AssertFail
      | None \<Rightarrow> Inr (False, out))"

definition setScopeId :: "32 word \<Rightarrow> sockaddr \<Rightarrow> sockaddr" where
  "setScopeId scope_id a = (if inet_family a = AF_INET6 then a\<lparr>sin6_scope_id := scope_id\<rparr> else a)"

section \<open>Sockets\<close>

text \<open>The calls that a socket object makes, with the arguments the code chooses.\<close>

datatype sock_option = TcpNoDelay | ReuseAddr | ReusePort | KeepAlive

datatype sock_call = SetOption sock_option int | CloseSock | ShutdownWrite

record socket =
  so_fd :: int
  so_calls :: "sock_call list"

definition so_call :: "sock_call \<Rightarrow> socket \<Rightarrow> socket" where
  "so_call c s = s\<lparr>so_calls := so_calls s @ [c]\<rparr>"

definition new_socket :: "int \<Rightarrow> socket" where
  "new_socket sockfd = \<lparr>so_fd = sockfd, so_calls = []\<rparr>"

definition destroy_socket :: "socket \<Rightarrow> socket" where
  "destroy_socket s = so_call CloseSock s"

definition so_bindAddress :: "int \<Rightarrow> socket \<Rightarrow> socket result" where
  "so_bindAddress ret s = rbind (bindOrDie ret) (\<lambda>_. Inr s)"

definition so_listen :: "int \<Rightarrow> socket \<Rightarrow> socket result" where
  "so_listen ret s = rbind (listenOrDie ret) (\<lambda>_. Inr s)"

text \<open>\<open>accept\<close> fills in the peer's address only when it got a connection.\<close>

definition so_accept :: "int \<Rightarrow> int \<Rightarrow> sockaddr \<Rightarrow> sockaddr \<Rightarrow> (int \<times> sockaddr) result" where
  "so_accept connfd savedErrno addr peeraddr =
     rbind (sockets_accept connfd savedErrno) (\<lambda>(connfd, e).
       Inr (connfd, if 0 \<le> connfd then addr else peeraddr))"

definition so_shutdownWrite :: "socket \<Rightarrow> socket" where
  "so_shutdownWrite s = so_call ShutdownWrite s"

definition setTcpNoDelay :: "bool \<Rightarrow> socket \<Rightarrow> socket" where
  "setTcpNoDelay on s = (let optval = (if on then 1 else 0) in so_call (SetOption TcpNoDelay optval) s)"

definition setReuseAddr :: "bool \<Rightarrow> socket \<Rightarrow> socket" where
  "setReuseAddr on s = (let optval = (if on then 1 else 0) in so_call (SetOption ReuseAddr optval) s)"

definition setReusePort :: "bool \<Rightarrow> socket \<Rightarrow> socket" where
  "setReusePort on s = (let optval = (if on then 1 else 0) in so_call (SetOption ReusePort optval) s)"

definition setKeepAlive :: "bool \<Rightarrow> socket \<Rightarrow> socket" where
  "setKeepAlive on s = (let optval = (if on then 1 else 0) in so_call (SetOption KeepAlive optval) s)"

text \<open>The fields of \<open>struct tcp_info\<close> that are printed; the array keeps what fits into it.\<close>

record tcp_info =
  tcpi_retransmits :: "8 word"
  tcpi_rto :: "32 word"
  tcpi_ato :: "32 word"
  tcpi_snd_mss :: "32 word"
  tcpi_rcv_mss :: "32 word"
  tcpi_lost :: "32 word"
  tcpi_retrans :: "32 word"
  tcpi_rtt :: "32 word"
  tcpi_rttvar :: "32 word"
  tcpi_snd_ssthresh :: "32 word"
  tcpi_snd_cwnd :: "32 word"
  tcpi_total_retrans :: "32 word"

definition getTcpInfoString :: "tcp_info option \<Rightarrow> string \<Rightarrow> nat \<Rightarrow> bool \<times> string" where
  "getTcpInfoString answer buf len =
     (case answer of
        Some t \<Rightarrow> (True, snprintf_to len
          (''unrecovered='' @ nat_dec (unat (tcpi_retransmits t)) @
           '' rto='' @ nat_dec (unat (tcpi_rto t)) @ '' ato='' @ nat_dec (unat (tcpi_ato t)) @
           '' snd_mss='' @ nat_dec (unat (tcpi_snd_mss t)) @ '' rcv_mss='' @ nat_dec (unat (tcpi_rcv_mss t)) @
           '' lost='' @ nat_dec (unat (tcpi_lost t)) @ '' retrans='' @ nat_dec (unat (tcpi_retrans t)) @
           '' rtt='' @ nat_dec (unat (tcpi_rtt t)) @ '' rttvar='' @ nat_dec (unat (tcpi_rttvar t)) @
           '' sshthresh='' @ nat_dec (unat (tcpi_snd_ssthresh t)) @ '' cwnd='' @ nat_dec (unat (tcpi_snd_cwnd t)) @
           '' total_retrans='' @ nat_dec (unat (tcpi_total_retrans t))))
      | None \<Rightarrow> (False, buf))"

section \<open>Reading back what was printed\<close>

lemma pton4_number:
  "n < 256 \<Longrightarrow> pton4_loop (nat_dec n @ rest) acc None = pton4_loop rest acc (Some n)"
proof (induction n arbitrary: rest rule: nat_dec.induct)
  case (1 n)
  show ?case
  proof (cases "n < 10")
    case True
    then show ?thesis by (simp add: nat_dec.simps)
  next
    case False
    then have n: "n = 10 * (n div 10) + n mod 10" "0 < n div 10" "n div 10 < 256"
      using "1.prems" by simp_all
    have "pton4_loop (nat_dec n @ rest) acc None =
        pton4_loop (nat_dec (n div 10) @ digit_char (n mod 10) # rest) acc None"
      using False by (simp add: nat_dec.simps[of n])
    also have "\<dots> = pton4_loop (digit_char (n mod 10) # rest) acc (Some (n div 10))"
      using "1.IH" False n(3) by blast
    also have "\<dots> = pton4_loop rest acc (Some n)"
      using n "1.prems" by simp
    finally show ?thesis .
  qed
qed

lemma dot_no_digit [simp]: "\<not> is_digit CHR ''.''"
  by (simp add: is_digit_def)

lemma unat_byte: "unat (b :: byte) < 256"
  using unsigned_less[where ?'a = nat and w = b] by simp

lemma unat_port: "unat (p :: 16 word) < 65536"
  using unsigned_less[where ?'a = nat and w = p] by simp

lemma pton4_ntop4:
  assumes "length bs = 4"
  shows "pton4 (ntop4 bs) = Some bs"
proof -
  obtain a b c d where bs: "bs = [a, b, c, d]"
    using assms by (auto simp: numeral_eq_Suc length_Suc_conv)
  have "pton4_loop (ntop4 bs) [] None = Some [unat a, unat b, unat c, unat d]"
    using pton4_number[of "unat d" "[]"]
    by (simp add: bs ntop4_def pton4_number unat_byte)
  then show ?thesis by (simp add: pton4_def bs)
qed

lemma ntop4_inject: "length bs = 4 \<Longrightarrow> length cs = 4 \<Longrightarrow> ntop4 bs = ntop4 cs \<longleftrightarrow> bs = cs"
  by (metis option.inject pton4_ntop4)

lemma nat_dec_no_colon: "CHR '':'' \<notin> set (nat_dec n)"
proof
  assume "CHR '':'' \<in> set (nat_dec n)"
  then obtain d where "d < 10" "CHR '':'' = digit_char d" by (blast dest: nat_dec_chars)
  then have "of_char (CHR '':'') = (48 + d :: nat)" by (simp add: digit_char_range)
  with \<open>d < 10\<close> show False by simp
qed

lemma ntop4_no_colon: "CHR '':'' \<notin> set (ntop4 bs)"
  by (simp add: ntop4_def nat_dec_no_colon)

lemma length_ntop4: "length (ntop4 bs) \<le> 15"
proof -
  have "length (nat_dec (unat (b :: byte))) \<le> 3" for b
    by (rule length_nat_dec_le, rule order.strict_trans, rule unat_byte) simp_all
  from this[of "bs ! 0"] this[of "bs ! 1"] this[of "bs ! 2"] this[of "bs ! 3"]
  show ?thesis by (simp add: ntop4_def)
qed

lemma length_port: "length (nat_dec (unat (p :: 16 word))) \<le> 5"
  by (rule length_nat_dec_le, rule order.strict_trans, rule unat_port) simp_all

lemma sin_addr_bytes: "length bs = 4 \<Longrightarrow> mem_bytes host (mem_read host bs :: 32 word) = bs"
  by (cases host) (simp_all add: mem_bytes_def mem_read_def)

lemma port_back [simp]: "networkToHost16 host (hostToNetwork16 host p) = p"
  by (simp add: endian_conv_defs)

text \<open>The texts fit into the arrays.\<close>

lemma toIpPort_in:
  assumes "sin_family a = AF_INET"
  shows "inet_toIpPort host ntop6 a =
    Inr (ntop4 (mem_bytes host (sin_addr a)) @ '':'' @ nat_dec (unat (inet_portNumber host a)))"
  using length_ntop4[of "mem_bytes host (sin_addr a)"] length_port[of "inet_portNumber host a"] assms
  by (simp add: inet_toIpPort_def sockets_toIpPort_def sockets_toIp_def AF_INET_def AF_INET6_def
      snprintf_to_def inet_portNumber_def Let_def)

lemma toIpPort_in6:
  assumes "sin_family a = AF_INET6" "length (ntop6 (sin6_addr a)) \<le> 45"
  shows "inet_toIpPort host ntop6 a =
    Inr (''['' @ ntop6 (sin6_addr a) @ '']:'' @ nat_dec (unat (inet_portNumber host a)))"
  using length_port[of "inet_portNumber host a"] assms
  by (simp add: inet_toIpPort_def sockets_toIpPort_def sockets_toIp_def AF_INET_def AF_INET6_def
      snprintf_to_def inet_portNumber_def Let_def)

text \<open>What the manuals promise of the IPv6 conversions: \<open>pton6\<close> reads what \<open>ntop6\<close> prints, which has
  a colon and fits into \<open>INET6_ADDRSTRLEN\<close> characters with its NUL.\<close>

definition inet6_texts :: "(string \<Rightarrow> byte list option) \<Rightarrow> (byte list \<Rightarrow> string) \<Rightarrow> bool" where
  "inet6_texts pton6 ntop6 \<longleftrightarrow>
     (\<forall>bs. length bs = 16 \<longrightarrow>
        pton6 (ntop6 bs) = Some bs \<and> CHR '':'' \<in> set (ntop6 bs) \<and> length (ntop6 bs) \<le> 45)"

definition address_text :: "(byte list \<Rightarrow> string) \<Rightarrow> byte list \<Rightarrow> string" where
  "address_text ntop6 bs = (if length bs = 4 then ntop4 bs else ntop6 bs)"

text \<open>
  C23. InetAddress.h: an address made from the text of an IPv4 or IPv6 address and a port prints as that
  text again, with the port after a colon (and IPv6 addresses in brackets), and gives the port
  back, on hosts of either byte order; no text is cut by the arrays it is printed into.
\<close>

theorem inet_address_roundtrip:
  assumes "inet6_texts pton6 ntop6" "length bs = 4 \<or> length bs = 16"
  shows "let a = inet_ip host pton6 mem (address_text ntop6 bs) port False in
    inet_toIp host ntop6 a = Inr (address_text ntop6 bs) \<and> inet_portNumber host a = port \<and>
    inet_toIpPort host ntop6 a =
      Inr ((if length bs = 4 then ntop4 bs else ''['' @ ntop6 bs @ '']'') @ '':'' @ nat_dec (unat port))"
proof (cases "length bs = 4")
  case True
  then have "inet_ip host pton6 mem (address_text ntop6 bs) port False =
      (zero_in mem)\<lparr>sin_family := AF_INET, sin_port := hostToNetwork16 host port, sin_addr := mem_read host bs\<rparr>"
    by (simp add: inet_ip_def address_text_def ntop4_no_colon fromIpPort_in_def pton4_ntop4)
  then show ?thesis
    using True
    by (simp add: toIpPort_in inet_portNumber_def sin_addr_bytes inet_toIp_def sockets_toIp_def address_text_def)
next
  case False
  with assms(2) have L: "length bs = 16" by simp
  with assms(1) have T: "pton6 (ntop6 bs) = Some bs" "CHR '':'' \<in> set (ntop6 bs)" "length (ntop6 bs) \<le> 45"
    by (auto simp: inet6_texts_def)
  with False have "inet_ip host pton6 mem (address_text ntop6 bs) port False =
      (zero_in6 mem)\<lparr>sin_family := AF_INET6, sin_port := hostToNetwork16 host port, sin6_addr := bs\<rparr>"
    by (simp add: inet_ip_def address_text_def fromIpPort_in6_def)
  then show ?thesis
    using False T
    by (simp add: toIpPort_in6 inet_portNumber_def inet_toIp_def sockets_toIp_def address_text_def
        AF_INET_def AF_INET6_def)
qed

text \<open>The addresses that need no text: any address and the loopback address.\<close>

lemma inet_port_text:
  "inet_toIpPort host ntop6 (inet_port host mem port loopbackOnly False) =
     Inr ((if loopbackOnly then ''127.0.0.1'' else ''0.0.0.0'') @ '':'' @ nat_dec (unat port))"
proof -
  have "mem_bytes host (hostToNetwork32 host kInaddrLoopback) = [127, 0, 0, 1]"
    "mem_bytes host (hostToNetwork32 host kInaddrAny) = [0, 0, 0, 0]"
    by (simp_all add: hostToNetwork32_def mem_bytes_htobe kInaddrLoopback_def kInaddrAny_def be_bytes_def
        le_bytes_def upt_rec)
  then show ?thesis
    by (simp add: inet_port_def toIpPort_in inet_portNumber_def ntop4_def nat_dec.simps digit_chars)
qed

text \<open>
  InetAddress.cpp, SocketsOps.cpp:237: a text that is no IPv4 address (a host name, say) is not refused: the
  error is only logged and the address is 0.0.0.0, on which a server listens on all interfaces.
\<close>

theorem bad_address_is_any:
  assumes "pton4 ip = None" "CHR '':'' \<notin> set ip"
  shows "inet_ip host pton6 mem ip port False = inet_port host mem port False False \<and>
    inet_toIpPort host ntop6 (inet_ip host pton6 mem ip port False) = Inr (''0.0.0.0:'' @ nat_dec (unat port))"
proof -
  have "hostToNetwork32 host kInaddrAny = 0"
    by (cases host) (simp_all add: hostToNetwork32_def kInaddrAny_def htobe_def bswap_def le_bytes_def
        from_le_def upt_rec)
  then have "inet_ip host pton6 mem ip port False = inet_port host mem port False False"
    using assms by (simp add: inet_ip_def fromIpPort_in_def inet_port_def zero_in_def)
  then show ?thesis using inet_port_text[of host ntop6 mem port False] by simp
qed

theorem bad_address_is_any_witness:
  "inet_toIpPort LittleEndian (\<lambda>_. [])
     (inet_ip LittleEndian (\<lambda>_. None) (zero_in6 undefined) ''localhost'' 80 False) = Inr ''0.0.0.0:80''"
proof -
  have "pton4 ''localhost'' = None" by (simp add: pton4_def is_digit_def)
  then have "inet_toIpPort LittleEndian (\<lambda>_. [])
      (inet_ip LittleEndian (\<lambda>_. None) (zero_in6 undefined) ''localhost'' 80 False) =
      Inr (''0.0.0.0:'' @ nat_dec (unat (80 :: 16 word)))"
    by (rule bad_address_is_any[THEN conjunct2]) simp
  then show ?thesis by (simp add: nat_dec.simps digit_chars)
qed

text \<open>A connection to itself: both ends print alike.\<close>

lemma self_connect_text:
  assumes "sin_family l = AF_INET" "sin_family p = AF_INET"
  shows "isSelfConnect (Some l) (Some p) mem \<longleftrightarrow>
    inet_portNumber host l = inet_portNumber host p \<and> inet_toIp host ntop6 l = inet_toIp host ntop6 p"
proof -
  have "mem_read host (mem_bytes host (w :: 32 word)) = w" for w by simp
  then have "sin_addr l = sin_addr p \<longleftrightarrow> mem_bytes host (sin_addr l) = mem_bytes host (sin_addr p)"
    by metis
  moreover have "htobe host (htobe host (w :: 16 word)) = w" for w by simp
  then have "sin_port l = sin_port p \<longleftrightarrow> inet_portNumber host l = inet_portNumber host p"
    unfolding inet_portNumber_def networkToHost16_def by metis
  ultimately show ?thesis
    using assms by (simp add: isSelfConnect_def getLocalAddr_def getPeerAddr_def inet_toIp_def sockets_toIp_def
        ntop4_inject)
qed

theorem inet_address_roundtrip_witness:
  "let a = inet_ip BigEndian (\<lambda>s. Some (map (\<lambda>c. word_of_nat (of_char c)) (tl s))) (zero_in6 undefined) ''10.0.255.7'' 8080 False in
    inet_toIpPort BigEndian (\<lambda>bs. CHR '':'' # map (\<lambda>b. char_of (unat b)) bs) a = Inr ''10.0.255.7:8080''"
proof -
  have "inet6_texts (\<lambda>s. Some (map (\<lambda>c. word_of_nat (of_char c)) (tl s))) (\<lambda>bs. CHR '':'' # map (\<lambda>b. char_of (unat b)) bs)"
    by (auto simp: inet6_texts_def o_def mod_less[OF unat_byte] intro: map_idI)
  from inet_address_roundtrip[OF this, of "[10, 0, 255, 7]" BigEndian "zero_in6 undefined" 8080]
  show ?thesis by (simp add: Let_def address_text_def ntop4_def nat_dec.simps digit_chars)
qed

section \<open>Well-formed addresses\<close>

definition addr_ok :: "sockaddr \<Rightarrow> bool" where
  "addr_ok a \<longleftrightarrow> sin_family a \<in> {AF_INET, AF_INET6} \<and> length (sin6_addr a) = 16"

definition inet6_lengths :: "(string \<Rightarrow> byte list option) \<Rightarrow> (byte list \<Rightarrow> string) \<Rightarrow> bool" where
  "inet6_lengths pton6 ntop6 \<longleftrightarrow>
     (\<forall>s bs. pton6 s = Some bs \<longrightarrow> length bs = 16) \<and> (\<forall>bs. length (ntop6 bs) \<le> 45)"

lemma toIpPort_total:
  assumes "addr_ok a" "inet6_lengths pton6 ntop6"
  shows "\<exists>t. inet_toIpPort host ntop6 a = Inr t \<and> length t < 64"
proof (cases "sin_family a = AF_INET")
  case True
  then show ?thesis
    using toIpPort_in[OF True, of host ntop6] length_ntop4[of "mem_bytes host (sin_addr a)"]
      length_port[of "inet_portNumber host a"] by simp
next
  case False
  with assms have "sin_family a = AF_INET6" "length (ntop6 (sin6_addr a)) \<le> 45"
    by (auto simp: addr_ok_def inet6_lengths_def)
  then show ?thesis
    using toIpPort_in6[of a ntop6 host] length_port[of "inet_portNumber host a"] by simp
qed



text \<open>
  \<open>resolve\<close> stores the IPv4 address without looking at the family: into an IPv6 address it goes where the
  flow label is, and the caller, told of success, still has the old address.
\<close>

lemma resolve_ipv6_lost:
  assumes "sin_family a = AF_INET6" "inet_resolve 0 (Some (AF_INET, 4, ip)) a = Inr (True, b)"
  shows "inet_toIp host ntop6 b = inet_toIp host ntop6 a"
  using assms by (auto simp: inet_resolve_def inet_toIp_def sockets_toIp_def AF_INET_def AF_INET6_def)

end
