(* ===== verification/Threads.thy ===== *)
theory Threads
  imports Timestamp Text
begin

text \<open>
  Locks and threads (src/zing/base/Mutex.h, Condition.h, Thread.h, Thread.cpp, CurrentThread.h and
  CurrentThread.cpp). \<open>std::mutex\<close>, \<open>std::condition_variable\<close> and pthreads are the steps below;
  what the library adds to them is the record of the holder, the handshake that makes the id of a
  new thread known to its creator, and the thread's names. Each step is one access to shared
  memory; the steps of different threads interleave freely.
\<close>

section \<open>MutexLock\<close>

text \<open>
  A thread is outside; has taken \<open>mutex_\<close> but not yet written \<open>holder_\<close>; is inside; has cleared
  \<open>holder_\<close> but not yet released \<open>mutex_\<close>; has cleared it in \<open>Condition::wait\<close>; or is blocked there,
  without the mutex.
\<close>

datatype mx_point = MOut | MLocked | MIn | MUnassigned | MWaiting | MBlocked

record mutex_lock =
  mx_owner :: "nat option"
  mx_holder :: int
  mx_points :: "mx_point list"

definition new_mutex :: "nat \<Rightarrow> mutex_lock" where
  "new_mutex n = \<lparr>mx_owner = None, mx_holder = 0, mx_points = replicate n MOut\<rparr>"

definition mx_go :: "nat \<Rightarrow> mx_point \<Rightarrow> mutex_lock \<Rightarrow> mutex_lock" where
  "mx_go t p m = m\<lparr>mx_points := (mx_points m)[t := p]\<rparr>"

definition mutex_take :: "nat \<Rightarrow> mutex_lock \<Rightarrow> mutex_lock" where
  "mutex_take t m = mx_go t MLocked (m\<lparr>mx_owner := Some t\<rparr>)"

definition assignHolder :: "(nat \<Rightarrow> int) \<Rightarrow> nat \<Rightarrow> mutex_lock \<Rightarrow> mutex_lock" where
  "assignHolder tid t m = mx_go t MIn (m\<lparr>mx_holder := tid t\<rparr>)"

definition unassignHolder :: "nat \<Rightarrow> mx_point \<Rightarrow> mutex_lock \<Rightarrow> mutex_lock" where
  "unassignHolder t p m = mx_go t p (m\<lparr>mx_holder := 0\<rparr>)"

definition mutex_release :: "nat \<Rightarrow> mx_point \<Rightarrow> mutex_lock \<Rightarrow> mutex_lock" where
  "mutex_release t p m = mx_go t p (m\<lparr>mx_owner := None\<rparr>)"

definition isLockedByThisThread :: "(nat \<Rightarrow> int) \<Rightarrow> nat \<Rightarrow> mutex_lock \<Rightarrow> bool" where
  "isLockedByThisThread tid t m = (mx_holder m = tid t)"

definition assertLocked :: "(nat \<Rightarrow> int) \<Rightarrow> nat \<Rightarrow> mutex_lock \<Rightarrow> unit result" where
  "assertLocked tid t m = (if isLockedByThisThread tid t m then Inr () else Inl AssertFail)"

definition destroy_mutex :: "mutex_lock \<Rightarrow> unit result" where
  "destroy_mutex m = (if mx_holder m = 0 then Inr () else Inl AssertFail)"

text \<open>
  \<open>lock()\<close> (or the constructor of a guard) takes the mutex when it is free and then assigns the
  holder; \<open>unlock()\<close> (or the destructor) goes the other way round; \<open>Condition::wait\<close> unassigns the
  holder, releases the mutex while it is blocked, takes it again and assigns the holder.
\<close>

inductive mx_run :: "(nat \<Rightarrow> int) \<Rightarrow> nat \<Rightarrow> mutex_lock \<Rightarrow> bool" for tid n where
  mx_start: "mx_run tid n (new_mutex n)"
| mx_lock: "mx_run tid n m \<Longrightarrow> t < n \<Longrightarrow> mx_points m ! t \<in> {MOut, MBlocked} \<Longrightarrow> mx_owner m = None \<Longrightarrow>
    mx_run tid n (mutex_take t m)"
| mx_assign: "mx_run tid n m \<Longrightarrow> t < n \<Longrightarrow> mx_points m ! t = MLocked \<Longrightarrow> mx_run tid n (assignHolder tid t m)"
| mx_unassign: "mx_run tid n m \<Longrightarrow> t < n \<Longrightarrow> mx_points m ! t = MIn \<Longrightarrow> p \<in> {MUnassigned, MWaiting} \<Longrightarrow>
    mx_run tid n (unassignHolder t p m)"
| mx_unlock: "mx_run tid n m \<Longrightarrow> t < n \<Longrightarrow> mx_points m ! t = MUnassigned \<Longrightarrow> mx_run tid n (mutex_release t MOut m)"
| mx_block: "mx_run tid n m \<Longrightarrow> t < n \<Longrightarrow> mx_points m ! t = MWaiting \<Longrightarrow> mx_run tid n (mutex_release t MBlocked m)"

definition mx_has :: "mx_point \<Rightarrow> bool" where
  "mx_has p = (p \<notin> {MOut, MBlocked})"

definition mx_inv :: "(nat \<Rightarrow> int) \<Rightarrow> nat \<Rightarrow> mutex_lock \<Rightarrow> bool" where
  "mx_inv tid n m \<longleftrightarrow> length (mx_points m) = n \<and>
     (case mx_owner m of
        None \<Rightarrow> mx_holder m = 0 \<and> (\<forall>u < n. \<not> mx_has (mx_points m ! u))
      | Some t \<Rightarrow> t < n \<and> mx_holder m = (if mx_points m ! t = MIn then tid t else 0) \<and>
          (\<forall>u < n. mx_has (mx_points m ! u) \<longleftrightarrow> u = t))"

text \<open>A thread at a point with the mutex is its owner, so a step of it changes what the owner's point says.\<close>

lemma mx_inv_owner: "mx_inv tid n m \<Longrightarrow> t < n \<Longrightarrow> mx_has (mx_points m ! t) \<Longrightarrow> mx_owner m = Some t"
  by (auto simp: mx_inv_def split: option.splits)

lemma mx_inv_keep:
  assumes "mx_inv tid n m" "t < n" "mx_owner m = Some t" "mx_has p"
    and "mx_holder m' = (if p = MIn then tid t else 0)" "mx_owner m' = mx_owner m"
    and "mx_points m' = (mx_points m)[t := p]"
  shows "mx_inv tid n m'"
  using assms by (auto simp: mx_inv_def nth_list_update)

lemma mx_inv_release:
  assumes "mx_inv tid n m" "t < n" "mx_owner m = Some t" "mx_points m ! t \<noteq> MIn" "\<not> mx_has p"
  shows "mx_inv tid n (mutex_release t p m)"
  using assms by (auto simp: mx_inv_def mutex_release_def mx_go_def nth_list_update)

lemma mx_inv_take:
  assumes "mx_inv tid n m" "t < n" "mx_owner m = None"
  shows "mx_inv tid n (mutex_take t m)"
  using assms by (auto simp: mx_inv_def mutex_take_def mx_go_def nth_list_update mx_has_def)

lemma mx_run_inv: "mx_run tid n m \<Longrightarrow> mx_inv tid n m"
proof (induction rule: mx_run.induct)
  case mx_start
  then show ?case by (simp add: mx_inv_def new_mutex_def mx_has_def)
next
  case (mx_lock m t)
  then show ?case by (intro mx_inv_take)
next
  case (mx_assign m t)
  then have "mx_owner m = Some t" by (intro mx_inv_owner) (auto simp: mx_has_def)
  then show ?case
    by (rule mx_inv_keep[OF mx_assign.IH mx_assign.hyps(2), of MIn])
      (simp_all add: mx_has_def assignHolder_def mx_go_def)
next
  case (mx_unassign m t p)
  then have "mx_owner m = Some t" by (intro mx_inv_owner) (auto simp: mx_has_def)
  then show ?case
    using mx_unassign.hyps(4)
    by (intro mx_inv_keep[OF mx_unassign.IH mx_unassign.hyps(2), of p])
      (auto simp: mx_has_def unassignHolder_def mx_go_def)
next
  case (mx_unlock m t)
  then have "mx_owner m = Some t" by (intro mx_inv_owner) (auto simp: mx_has_def)
  with mx_unlock show ?case by (intro mx_inv_release) (auto simp: mx_has_def)
next
  case (mx_block m t)
  then have "mx_owner m = Some t" by (intro mx_inv_owner) (auto simp: mx_has_def)
  with mx_block show ?case by (intro mx_inv_release) (auto simp: mx_has_def)
qed

text \<open>
  C22. Mutex.h: whatever the interleaving, at most one thread is between taking the mutex and giving it
  back; \<open>isLockedByThisThread\<close> is true for exactly the threads inside (so \<open>assertLocked\<close> fails for
  no thread that has the lock and for every thread that has not), and the assertion of the
  destructor holds whenever no thread is inside.
\<close>

theorem mutex_holder_exact:
  assumes "mx_run tid n m" "t < n" "\<forall>u v. tid u = tid v \<longrightarrow> u = v" "\<forall>u. tid u \<noteq> 0"
  shows "(\<forall>u < n. mx_has (mx_points m ! t) \<and> mx_has (mx_points m ! u) \<longrightarrow> u = t) \<and>
    (isLockedByThisThread tid t m \<longleftrightarrow> mx_points m ! t = MIn) \<and>
    (assertLocked tid t m = Inr () \<longleftrightarrow> mx_points m ! t = MIn) \<and>
    (destroy_mutex m = Inr () \<longleftrightarrow> MIn \<notin> set (mx_points m))"
proof -
  note inv = mx_run_inv[OF assms(1)]
  have one: "\<forall>u < n. mx_has (mx_points m ! t) \<and> mx_has (mx_points m ! u) \<longrightarrow> u = t"
    using mx_inv_owner[OF inv] assms(2) by (metis option.inject)
  have len: "length (mx_points m) = n" using inv by (simp add: mx_inv_def)
  have holder: "mx_holder m = tid u \<longleftrightarrow> mx_points m ! u = MIn" if "u < n" for u
  proof (cases "mx_owner m")
    case None
    then have "mx_holder m = 0" "\<not> mx_has (mx_points m ! u)" using inv that by (simp_all add: mx_inv_def)
    with assms(4)[rule_format, of u] show ?thesis by (auto simp: mx_has_def)
  next
    case (Some v)
    with inv have h: "mx_holder m = (if mx_points m ! v = MIn then tid v else 0)"
      and o: "\<not> mx_has (mx_points m ! u) \<or> u = v"
      using that by (simp_all add: mx_inv_def)
    have "tid u \<noteq> 0" "tid v = tid u \<Longrightarrow> u = v" using assms(3,4) by auto
    with h o show ?thesis by (cases "u = v") (auto simp: mx_has_def)
  qed
  have "mx_holder m = 0 \<longleftrightarrow> MIn \<notin> set (mx_points m)"
  proof (cases "mx_owner m")
    case None
    with inv show ?thesis by (auto simp: mx_inv_def in_set_conv_nth mx_has_def)
  next
    case (Some v)
    with inv have "v < n" by (simp add: mx_inv_def)
    from Some inv have h: "mx_holder m = (if mx_points m ! v = MIn then tid v else 0)"
      and o: "\<forall>u < n. mx_has (mx_points m ! u) \<longleftrightarrow> u = v"
      by (simp_all add: mx_inv_def)
    have "MIn \<in> set (mx_points m) \<longleftrightarrow> mx_points m ! v = MIn"
      using o \<open>v < n\<close> len by (force simp: in_set_conv_nth mx_has_def)
    with h assms(4)[rule_format, of v] show ?thesis by auto
  qed
  then show ?thesis
    using one holder[OF assms(2)] by (simp add: isLockedByThisThread_def assertLocked_def destroy_mutex_def)
qed

theorem mutex_holder_exact_witness:
  "\<exists>m. mx_run (\<lambda>t. int t + 100) 2 m \<and> isLockedByThisThread (\<lambda>t. int t + 100) 1 m \<and>
    \<not> isLockedByThisThread (\<lambda>t. int t + 100) 0 m"
proof -
  let ?tid = "\<lambda>t :: nat. int t + 100"
  have 1: "mx_run ?tid 2 \<lparr>mx_owner = Some 1, mx_holder = 0, mx_points = [MOut, MLocked]\<rparr>"
    using mx_lock[OF mx_start, of 1 2 ?tid] by (simp add: new_mutex_def mutex_take_def mx_go_def eval_nat_numeral)
  have 2: "mx_run ?tid 2 \<lparr>mx_owner = Some 1, mx_holder = 101, mx_points = [MOut, MIn]\<rparr>"
    using mx_assign[OF 1, of 1] by (simp add: assignHolder_def mx_go_def)
  show ?thesis
    using mutex_holder_exact[OF 2, of 0] mutex_holder_exact[OF 2, of 1] 2
    by (intro exI[of _ "\<lparr>mx_owner = Some 1, mx_holder = 101, mx_points = [MOut, MIn]\<rparr>"]) simp
qed

section \<open>CurrentThread\<close>

text \<open>The thread-local variables of one thread.\<close>

record current_thread =
  t_cachedTid :: int
  t_tidString :: string
  t_tidStringLength :: int
  t_threadName :: string

definition new_current_thread :: current_thread where
  "new_current_thread = \<lparr>t_cachedTid = 0, t_tidString = [], t_tidStringLength = 6, t_threadName = ''unknown''\<rparr>"

text \<open>\<open>gettid\<close> is what the kernel answers in this thread.\<close>

definition cacheTid :: "int \<Rightarrow> current_thread \<Rightarrow> current_thread" where
  "cacheTid gettid c =
     (if t_cachedTid c = 0
      then let text = fmt_d 5 gettid @ '' ''
           in c\<lparr>t_cachedTid := gettid, t_tidString := snprintf_to 32 text, t_tidStringLength := int (length text)\<rparr>
      else c)"

definition ct_tid :: "int \<Rightarrow> current_thread \<Rightarrow> int \<times> current_thread" where
  "ct_tid gettid c = (let c = (if t_cachedTid c = 0 then cacheTid gettid c else c) in (t_cachedTid c, c))"

definition isMainThread :: "int \<Rightarrow> int \<Rightarrow> current_thread \<Rightarrow> bool" where
  "isMainThread getpid gettid c = (fst (ct_tid gettid c) = getpid)"

text \<open>In the child of a \<open>fork\<close>, whose thread has another id.\<close>

definition afterFork :: "int \<Rightarrow> current_thread \<Rightarrow> current_thread" where
  "afterFork gettid c = snd (ct_tid gettid (c\<lparr>t_cachedTid := 0, t_threadName := ''main''\<rparr>))"

definition threadNameInitializer :: "int \<Rightarrow> current_thread \<Rightarrow> current_thread" where
  "threadNameInitializer gettid c = snd (ct_tid gettid (c\<lparr>t_threadName := ''main''\<rparr>))"

text \<open>The seconds and nanoseconds that \<open>nanosleep\<close> is asked for.\<close>

definition sleepUsec :: "int \<Rightarrow> int \<times> int" where
  "sleepUsec usec = (usec sdiv kMicroSecondsPerSecond, usec smod kMicroSecondsPerSecond * 1000)"

lemma sleepUsec_exact:
  assumes "0 \<le> usec"
  shows "0 \<le> snd (sleepUsec usec) \<and> snd (sleepUsec usec) < 1000000000 \<and>
    fst (sleepUsec usec) * 1000000000 + snd (sleepUsec usec) = usec * 1000"
proof -
  have "usec sdiv 1000000 = usec div 1000000" "usec smod 1000000 = usec mod 1000000"
    using assms by (simp_all add: signed_divide_int_def signed_modulo_int_def sgn_if minus_div_mult_eq_mod)
  then have e: "sleepUsec usec = (usec div 1000000, usec mod 1000000 * 1000)"
    by (simp add: sleepUsec_def kMicroSecondsPerSecond_def)
  have "usec mod 1000000 < 1000000" "0 \<le> usec mod 1000000" by simp_all
  moreover have "1000000 * (usec div 1000000) + usec mod 1000000 = usec" by simp
  ultimately show ?thesis unfolding e fst_conv snd_conv by (intro conjI) linarith+
qed

text \<open>The length that the logger trusts is that of the text, for every thread id that exists.\<close>

definition ct_ok :: "current_thread \<Rightarrow> bool" where
  "ct_ok c \<longleftrightarrow> (t_cachedTid c \<noteq> 0 \<longrightarrow> int (length (t_tidString c)) = t_tidStringLength c)"

lemma ct_tid_ok:
  assumes "ct_ok c" "0 < gettid" "gettid < 2 ^ 31"
  shows "ct_ok (snd (ct_tid gettid c)) \<and> t_cachedTid (snd (ct_tid gettid c)) \<noteq> 0 \<and>
    t_cachedTid (snd (ct_tid gettid c)) = fst (ct_tid gettid c)"
proof -
  have "length (nat_dec (nat gettid)) \<le> 10"
    using assms(2,3) by (intro length_nat_dec_le) auto
  then show ?thesis
    using assms by (auto simp: ct_tid_def cacheTid_def ct_ok_def Let_def snprintf_to_def fmt_d_def int_dec_def)
qed

section \<open>Thread\<close>

text \<open>
  The creator has not started the thread, waits for the latch in \<open>start\<close>, has returned from it,
  waits in \<open>join\<close>, has returned from it, or has destroyed the object. The new thread does not exist,
  is about to publish its id, to open the latch, to name itself, to call the function, or has ended.
\<close>

datatype th_owner = OIdle | OStarting | OStarted | OJoining | OJoined | ODestroyed

datatype th_child = CUnborn | CSetTid | CCountDown | CName | CRun | CEnded

datatype th_outcome = FuncReturns | FuncThrows

record thread_obj =
  th_started :: bool
  th_joined :: bool
  th_tid :: int
  th_name :: string
  th_latch :: int
  th_detached :: bool
  th_owner :: th_owner
  th_child :: th_child
  th_childName :: string
  th_ran :: bool

text \<open>The constructor, with the count of threads so far; the first result is the new count.\<close>

definition setDefaultName :: "32 word \<Rightarrow> string \<Rightarrow> 32 word \<times> string" where
  "setDefaultName numCreated n =
     (let (num, numCreated') = at_incrementAndGet numCreated
      in (numCreated', if n = [] then snprintf_to 32 (''Thread'' @ int_dec (sint num)) else n))"

definition new_thread :: "32 word \<Rightarrow> string \<Rightarrow> 32 word \<times> thread_obj" where
  "new_thread numCreated n =
     (let (numCreated', n') = setDefaultName numCreated n
      in (numCreated', \<lparr>th_started = False, th_joined = False, th_tid = 0, th_name = n', th_latch = 1,
           th_detached = False, th_owner = OIdle, th_child = CUnborn, th_childName = ''unknown'', th_ran = False\<rparr>))"

text \<open>When the thread cannot be created, the process exits.\<close>

definition th_start :: "bool \<Rightarrow> thread_obj \<Rightarrow> thread_obj result" where
  "th_start created s =
     (if th_started s then Inl AssertFail
      else if \<not> created then Inl Fatal
      else Inr (s\<lparr>th_started := True, th_owner := OStarting, th_child := CSetTid\<rparr>))"

text \<open>The wait for the latch, and the assertion after it.\<close>

definition th_start_wait :: "thread_obj \<Rightarrow> thread_obj result" where
  "th_start_wait s =
     (if 0 < th_latch s then Inr s
      else if 0 < th_tid s then Inr (s\<lparr>th_owner := OStarted\<rparr>) else Inl AssertFail)"

definition th_join :: "thread_obj \<Rightarrow> thread_obj result" where
  "th_join s =
     (if \<not> th_started s then Inl AssertFail
      else if th_joined s then Inl AssertFail
      else Inr (s\<lparr>th_joined := True, th_owner := OJoining\<rparr>))"

definition destroy_thread :: "thread_obj \<Rightarrow> thread_obj" where
  "destroy_thread s =
     (let s = (if th_started s \<and> \<not> th_joined s then s\<lparr>th_detached := True\<rparr> else s)
      in s\<lparr>th_owner := ODestroyed\<rparr>)"

text \<open>
  \<open>ThreadData::runInThread\<close>; \<open>k\<close> is the id of the new thread. It reaches into the object to write the
  id and to open the latch: undefined when the object is gone. An exception ends the process.
\<close>

definition th_runInThread :: "int \<Rightarrow> th_outcome \<Rightarrow> thread_obj \<Rightarrow> thread_obj result" where
  "th_runInThread k out s =
     (case th_child s of
        CUnborn \<Rightarrow> Inr s
      | CSetTid \<Rightarrow> if th_owner s = ODestroyed then Inl Undefined else Inr (s\<lparr>th_tid := k, th_child := CCountDown\<rparr>)
      | CCountDown \<Rightarrow>
          if th_owner s = ODestroyed then Inl Undefined
          else Inr (s\<lparr>th_latch := th_latch s - 1, th_child := CName\<rparr>)
      | CName \<Rightarrow> Inr (s\<lparr>th_childName := (if th_name s = [] then ''zingThread'' else th_name s), th_child := CRun\<rparr>)
      | CRun \<Rightarrow>
          (case out of
             FuncReturns \<Rightarrow> Inr (s\<lparr>th_ran := True, th_childName := ''finished'', th_child := CEnded\<rparr>)
           | FuncThrows \<Rightarrow> Inl Fatal)
      | CEnded \<Rightarrow> Inr s)"

inductive th_step :: "int \<Rightarrow> thread_obj \<Rightarrow> thread_obj result \<Rightarrow> bool" for k where
  th_starts: "th_owner s = OIdle \<Longrightarrow> th_step k s (th_start True s)"
| th_waits: "th_owner s = OStarting \<Longrightarrow> th_step k s (th_start_wait s)"
| th_joins: "th_owner s = OStarted \<Longrightarrow> th_step k s (th_join s)"
| th_joined: "th_owner s = OJoining \<Longrightarrow> th_child s = CEnded \<Longrightarrow> th_step k s (Inr (s\<lparr>th_owner := OJoined\<rparr>))"
| th_destroys: "th_owner s \<in> {OIdle, OStarted, OJoined} \<Longrightarrow> th_step k s (Inr (destroy_thread s))"
| th_works: "th_step k s (th_runInThread k FuncReturns s)"

inductive th_reach :: "int \<Rightarrow> thread_obj \<Rightarrow> thread_obj \<Rightarrow> bool" for k s where
  th_here: "th_reach k s s"
| th_there: "th_reach k s s1 \<Longrightarrow> th_step k s1 (Inr s2) \<Longrightarrow> th_reach k s s2"

text \<open>What each of the two knows of the other.\<close>

definition th_inv :: "int \<Rightarrow> thread_obj \<Rightarrow> bool" where
  "th_inv k s \<longleftrightarrow> th_name s \<noteq> [] \<and>
     (th_owner s \<in> {OIdle, OStarting, OStarted} \<longrightarrow> \<not> th_joined s) \<and>
     (th_started s \<longleftrightarrow> th_child s \<noteq> CUnborn) \<and>
     (case th_child s of
        CUnborn \<Rightarrow> th_latch s = 1 \<and> th_owner s \<in> {OIdle, ODestroyed}
      | CSetTid \<Rightarrow> th_latch s = 1 \<and> th_owner s = OStarting
      | CCountDown \<Rightarrow> th_latch s = 1 \<and> th_tid s = k \<and> th_owner s = OStarting
      | CEnded \<Rightarrow> th_latch s = 0 \<and> th_tid s = k \<and> th_owner s \<noteq> OIdle \<and>
          th_ran s \<and> th_childName s = ''finished''
      | _ \<Rightarrow> th_latch s = 0 \<and> th_tid s = k \<and> th_owner s \<in> {OStarting, OStarted, OJoining, ODestroyed})"

lemma th_new_inv: "th_inv k (snd (new_thread c n))"
  by (auto simp: th_inv_def new_thread_def setDefaultName_def snprintf_to_def split: prod.splits)

lemma th_step_inv:
  assumes "th_step k s r" "th_inv k s" "0 < k"
  shows "rpost {} (th_inv k) r"
  using assms(1)
proof (cases rule: th_step.cases)
  case th_starts
  then show ?thesis using assms(2) by (cases "th_child s") (simp_all add: th_inv_def th_start_def)
next
  case th_waits
  then show ?thesis using assms(2,3) by (cases "th_child s") (simp_all add: th_inv_def th_start_wait_def)
next
  case th_joins
  then show ?thesis using assms(2) by (cases "th_child s") (simp_all add: th_inv_def th_join_def)
next
  case th_joined
  then show ?thesis using assms(2) by (simp add: th_inv_def)
next
  case th_destroys
  then show ?thesis
    using assms(2) by (cases "th_child s"; cases "th_owner s") (simp_all add: th_inv_def destroy_thread_def Let_def)
next
  case th_works
  then show ?thesis
    using assms(2) by (cases "th_child s"; cases "th_owner s") (simp_all add: th_inv_def th_runInThread_def)
qed

lemma th_reach_inv: "th_reach k s s' \<Longrightarrow> th_inv k s \<Longrightarrow> 0 < k \<Longrightarrow> th_inv k s'"
  by (induction rule: th_reach.induct) (auto dest: th_step_inv)

text \<open>
  C21. Thread.cpp: in every interleaving of a thread with its creator, as long as the function returns, no
  step fails: no assertion, and the new thread never reaches into an object that is gone. When
  \<open>start\<close> has returned, \<open>tid()\<close> is the id of the new thread; while it waits, the new thread is on its
  way to opening the latch; when \<open>join\<close> has returned, the function has run to its end.
\<close>

theorem thread_handshake:
  assumes "th_reach k (snd (new_thread numCreated n)) s" "0 < k"
  shows "(\<forall>r. th_step k s r \<longrightarrow> (\<exists>s'. r = Inr s')) \<and>
    (th_owner s \<in> {OStarted, OJoining, OJoined} \<longrightarrow> th_tid s = k) \<and>
    (th_owner s = OStarting \<longrightarrow> 0 < th_latch s \<longrightarrow> th_child s \<in> {CSetTid, CCountDown}) \<and>
    (th_owner s = OJoined \<longrightarrow> th_ran s \<and> th_childName s = ''finished'')"
proof -
  have inv: "th_inv k s" using th_reach_inv[OF assms(1) th_new_inv assms(2)] .
  have "\<exists>s'. r = Inr s'" if "th_step k s r" for r
    using th_step_inv[OF that inv assms(2)] by (auto simp: rpost_total)
  moreover have "th_owner s \<in> {OStarted, OJoining, OJoined} \<longrightarrow> th_tid s = k"
    using inv by (cases "th_owner s"; cases "th_child s") (simp_all add: th_inv_def)
  moreover have "th_owner s = OStarting \<longrightarrow> 0 < th_latch s \<longrightarrow> th_child s \<in> {CSetTid, CCountDown}"
    using inv by (cases "th_child s"; cases "th_owner s") (simp_all add: th_inv_def)
  moreover have "th_owner s = OJoined \<longrightarrow> th_ran s \<and> th_childName s = ''finished''"
    using inv by (cases "th_child s"; cases "th_owner s") (simp_all add: th_inv_def)
  ultimately show ?thesis by blast
qed

theorem thread_handshake_witness:
  "\<exists>s. th_reach 4242 (snd (new_thread 0 [])) s \<and> th_owner s = OStarted \<and> th_tid s = 4242"
proof -
  let ?s = "snd (new_thread 0 [])"
  define s1 where "s1 = ?s\<lparr>th_started := True, th_owner := OStarting, th_child := CSetTid\<rparr>"
  define s2 where "s2 = s1\<lparr>th_tid := 4242, th_child := CCountDown\<rparr>"
  define s3 where "s3 = s2\<lparr>th_latch := 0, th_child := CName\<rparr>"
  have f: "th_owner ?s = OIdle" "th_started ?s = False" "th_latch ?s = 1"
    by (simp_all add: new_thread_def split: prod.split)
  have "th_reach 4242 ?s s1"
    using th_starts[of ?s 4242] f by (intro th_there[OF th_here]) (simp add: th_start_def s1_def)
  moreover have "th_step 4242 s1 (Inr s2)"
    using th_works[of 4242 s1] by (simp add: th_runInThread_def s2_def s1_def)
  moreover have "th_step 4242 s2 (Inr s3)"
    using th_works[of 4242 s2] f by (simp add: th_runInThread_def s3_def s2_def s1_def)
  moreover have "th_step 4242 s3 (Inr (s3\<lparr>th_owner := OStarted\<rparr>))"
    using th_waits[of s3 4242] by (simp add: th_start_wait_def s3_def s2_def s1_def)
  ultimately have r: "th_reach 4242 ?s (s3\<lparr>th_owner := OStarted\<rparr>)" by (blast intro: th_there)
  from thread_handshake[OF r] r show ?thesis by (intro exI conjI) auto
qed

text \<open>Threads without a name of their own get different names until the counter wraps around.\<close>

lemma default_names_differ:
  assumes "snd (setDefaultName c []) = snd (setDefaultName c' [])"
  shows "c = c'"
proof -
  have "length (int_dec (sint (w :: 32 word))) \<le> 11" for w
  proof -
    have "- (2 ^ 31) \<le> sint w" "sint w < 2 ^ 31" using sint_range_size[of w] by (simp_all add: word_size)
    then have "\<bar>sint w\<bar> \<le> 2 ^ 31" by linarith
    then have "length (nat_dec (nat \<bar>sint w\<bar>)) \<le> 10" by (intro length_nat_dec_le) auto
    then show ?thesis by (cases "sint w < 0") (simp_all add: int_dec_def)
  qed
  then have cut: "snprintf_to 32 (''Thread'' @ int_dec (sint w)) = ''Thread'' @ int_dec (sint w)" for w :: "32 word"
    by (simp add: snprintf_to_def take_all_iff order_trans[of _ 11])
  have "snd (setDefaultName d []) = ''Thread'' @ int_dec (sint (d + 1))" for d :: "32 word"
    by (simp only: setDefaultName_def at_incrementAndGet_def at_addAndGet_def Let_def prod.case snd_conv cut
        simp_thms if_True)
  with assms have "sint (c + 1) = sint (c' + 1)" by simp
  then have "c + 1 = c' + 1" by (rule signed_word_eqI)
  then show ?thesis by simp
qed

end
