(* ===== verification/TimestampText.thy ===== *)
theory TimestampText
  imports Timestamp TimeZone Doubles
begin

text \<open>
  The formatted text of a point in time, the difference of two as a number of seconds, and the
  exchange of two (the rest of src/zing/base/Timestamp.h and Timestamp.cpp). Times are in UTC,
  broken down by the \<open>gmtime_r\<close> of theory TimeZone.
\<close>

definition time_text :: "tm \<Rightarrow> string" where
  "time_text t =
     fmt_d 4 (tm_year t + 1900) @ fmt_0d 2 (tm_mon t + 1) @ fmt_0d 2 (tm_mday t) @ '' '' @
     fmt_0d 2 (tm_hour t) @ '':'' @ fmt_0d 2 (tm_min t) @ '':'' @ fmt_0d 2 (tm_sec t)"

definition toFormattedString :: "bool \<Rightarrow> timestamp \<Rightarrow> string" where
  "toFormattedString showMicroseconds t =
     (let seconds = microSecondsSinceEpoch t sdiv kMicroSecondsPerSecond;
          tm_time = gmtime_r seconds
      in if showMicroseconds
         then let microseconds = int_cast (microSecondsSinceEpoch t smod kMicroSecondsPerSecond)
              in snprintf_to 64 (time_text tm_time @ ''.'' @ fmt_0d 6 microseconds)
         else snprintf_to 64 (time_text tm_time))"

definition timeDifference :: "timestamp \<Rightarrow> timestamp \<Rightarrow> rat" where
  "timeDifference high low =
     (let diff = microSecondsSinceEpoch high - microSecondsSinceEpoch low
      in fdiv (rnd (of_int diff)) (of_int kMicroSecondsPerSecond))"

definition ts_swap :: "timestamp \<Rightarrow> timestamp \<Rightarrow> timestamp \<times> timestamp" where
  "ts_swap this that = (that, this)"

text \<open>Years up to 9999: the texts have a fixed length, and no array cuts them.\<close>

definition four_digit_year :: "int \<Rightarrow> bool" where
  "four_digit_year seconds = (0 \<le> tm_year (gmtime_r seconds) + 1900 \<and> tm_year (gmtime_r seconds) + 1900 < 10000)"

lemma length_fmt_d: "0 \<le> i \<Longrightarrow> i < 10 ^ w \<Longrightarrow> 0 < w \<Longrightarrow> length (fmt_d w i) = w"
  using length_nat_dec_le[of "nat i" w] by (simp add: fmt_d_def int_dec_def nat_less_iff)

lemma length_time_text:
  assumes "0 \<le> seconds" "four_digit_year seconds"
  shows "length (time_text (gmtime_r seconds)) = 17"
  using gmtime_ranges[OF assms(1)] assms(2)
  by (simp add: time_text_def fmt_0d_2 length_fmt_d four_digit_year_def)

lemma fmt_d_inject: "0 \<le> i \<Longrightarrow> 0 \<le> j \<Longrightarrow> fmt_d w i = fmt_d w j \<longleftrightarrow> i = j"
proof
  assume ij: "0 \<le> i" "0 \<le> j" and e: "fmt_d w i = fmt_d w j"
  have d: "dropWhile (\<lambda>c. c = CHR '' '') (fmt_d w k) = nat_dec (nat k)" if "0 \<le> k" for k
  proof -
    have "\<forall>c \<in> set (nat_dec (nat k)). c \<noteq> CHR '' ''"
    proof
      fix c assume "c \<in> set (nat_dec (nat k))"
      then obtain d where "d < 10" "c = digit_char d" by (blast dest: nat_dec_chars)
      then have "of_char c = (48 + d :: nat)" by (simp add: digit_char_range)
      then show "c \<noteq> CHR '' ''" by auto
    qed
    then have "dropWhile (\<lambda>c. c = CHR '' '') (nat_dec (nat k)) = nat_dec (nat k)"
      by (cases "nat_dec (nat k)") auto
    moreover have "dropWhile (\<lambda>c. c = CHR '' '') (replicate n CHR '' '' @ s) = dropWhile (\<lambda>c. c = CHR '' '') s" for n s
      by (induction n) simp_all
    ultimately show ?thesis using that by (simp add: fmt_d_def int_dec_def)
  qed
  from e d[OF ij(1)] d[OF ij(2)] have "nat i = nat j" by (metis nat_dec_inject)
  with ij show "i = j" by simp
qed simp

lemma time_text_inject:
  assumes "0 \<le> s" "0 \<le> t" "four_digit_year s" "four_digit_year t"
  shows "time_text (gmtime_r s) = time_text (gmtime_r t) \<longleftrightarrow> s = t"
proof
  assume e: "time_text (gmtime_r s) = time_text (gmtime_r t)"
  note L = gmtime_ranges[OF assms(1)] gmtime_ranges[OF assms(2)]
  have "tm_year (gmtime_r s) = tm_year (gmtime_r t) \<and> tm_mon (gmtime_r s) = tm_mon (gmtime_r t) \<and>
      tm_mday (gmtime_r s) = tm_mday (gmtime_r t) \<and> tm_hour (gmtime_r s) = tm_hour (gmtime_r t) \<and>
      tm_min (gmtime_r s) = tm_min (gmtime_r t) \<and> tm_sec (gmtime_r s) = tm_sec (gmtime_r t)"
    using e L assms(3,4) unfolding time_text_def four_digit_year_def
    by (simp add: fmt_0d_2 append_eq_append_conv fmt_0d_inject fmt_d_inject)
  then show "s = t" using assms by (blast intro: gmtime_inject)
qed simp

text \<open>
  Timestamp.cpp, \<open>toFormattedString\<close>: with microseconds, different timestamps from the epoch up to the end
  of the year 9999 have different texts, of 24 characters.
\<close>

theorem formatted_exact:
  assumes "0 \<le> a" "0 \<le> b" "four_digit_year (a sdiv 1000000)" "four_digit_year (b sdiv 1000000)"
  shows "(toFormattedString True (Timestamp a) = toFormattedString True (Timestamp b) \<longleftrightarrow> a = b) \<and>
    length (toFormattedString True (Timestamp a)) = 24"
proof -
  have k: "kMicroSecondsPerSecond = 1000000" by (simp add: kMicroSecondsPerSecond_def)
  have full: "toFormattedString True (Timestamp x) =
      time_text (gmtime_r (x sdiv 1000000)) @ ''.'' @ fmt_0d 6 (x smod 1000000) \<and>
      length (time_text (gmtime_r (x sdiv 1000000))) = 17 \<and> length (fmt_0d 6 (x smod 1000000)) = 6"
    if "0 \<le> x" "four_digit_year (x sdiv 1000000)" for x
  proof -
    have m: "0 \<le> x smod 1000000" "x smod 1000000 < 1000000" using that(1) by (simp_all add: smod_nonneg)
    then have "int_cast (x smod 1000000) = x smod 1000000" by (intro int_cast_id) (simp add: int32_def)
    moreover have "length (fmt_0d 6 (x smod 1000000)) = 6" using m by (intro length_fmt_0d_exact) simp_all
    moreover have "0 \<le> x sdiv 1000000" using that(1) by (simp add: sdiv_nonneg pos_imp_zdiv_nonneg_iff)
    then have "length (time_text (gmtime_r (x sdiv 1000000))) = 17"
      using that(2) by (rule length_time_text)
    ultimately show ?thesis by (simp add: toFormattedString_def k Let_def snprintf_to_def)
  qed
  note fa = full[OF assms(1,3)] and fb = full[OF assms(2,4)]
  have "a = b" if e: "toFormattedString True (Timestamp a) = toFormattedString True (Timestamp b)"
  proof -
    from e fa fb have "time_text (gmtime_r (a sdiv 1000000)) = time_text (gmtime_r (b sdiv 1000000))"
      "fmt_0d 6 (a smod 1000000) = fmt_0d 6 (b smod 1000000)"
      by (simp_all add: append_eq_append_conv)
    then have "a div 1000000 = b div 1000000" "a mod 1000000 = b mod 1000000"
      using assms by (simp_all add: time_text_inject fmt_0d_inject sdiv_nonneg smod_nonneg pos_imp_zdiv_nonneg_iff)
    then show ?thesis by (metis mult_div_mod_eq)
  qed
  with fa show ?thesis by auto
qed

theorem formatted_exact_witness:
  "toFormattedString True (Timestamp 0) \<noteq> toFormattedString True (Timestamp 1) \<and>
   length (toFormattedString True (Timestamp 0)) = 24"
proof -
  have "four_digit_year 0"
    unfolding four_digit_year_def gmtime_r_def Let_def by code_simp
  then show ?thesis using formatted_exact[of 0 1] by simp
qed

end
