(* ===== verification/Logging.thy ===== *)
theory Logging
  imports LogStream Threads TimestampText
begin

text \<open>
  The logger (src/zing/base/Logging.h and Logging.cpp): one object makes one line, from the time, the
  thread and the level over what the program inserts to the place in the source, and hands it to
  the output function. The time of day, \<open>errno\<close>, its text and the kernel's thread id are arguments.
\<close>

section \<open>Levels\<close>

datatype log_level = TRACE | DEBUG | INFO | WARN | ERROR | FATAL

fun level_number :: "log_level \<Rightarrow> nat" where
  "level_number TRACE = 0"
| "level_number DEBUG = 1"
| "level_number INFO = 2"
| "level_number WARN = 3"
| "level_number ERROR = 4"
| "level_number FATAL = 5"

lemma level_number_inject: "level_number a = level_number b \<longleftrightarrow> a = b"
  by (cases a; cases b) simp_all

instantiation log_level :: linorder
begin

definition less_log_level :: "log_level \<Rightarrow> log_level \<Rightarrow> bool" where
  "less_log_level a b = (level_number a < level_number b)"

definition less_eq_log_level :: "log_level \<Rightarrow> log_level \<Rightarrow> bool" where
  "less_eq_log_level a b = (level_number a \<le> level_number b)"

instance
  by standard (auto simp: less_log_level_def less_eq_log_level_def level_number_inject)

end

text \<open>Which of the two environment variables are set.\<close>

definition initLogLevel :: "bool \<Rightarrow> bool \<Rightarrow> log_level" where
  "initLogLevel log_trace log_debug = (if log_trace then TRACE else if log_debug then DEBUG else INFO)"

definition LogLevelName :: "log_level \<Rightarrow> string" where
  "LogLevelName l =
     (case l of TRACE \<Rightarrow> ''TRACE '' | DEBUG \<Rightarrow> ''DEBUG '' | INFO \<Rightarrow> ''INFO  '' | WARN \<Rightarrow> ''WARN  ''
      | ERROR \<Rightarrow> ''ERROR '' | FATAL \<Rightarrow> ''FATAL '')"

text \<open>The macros \<open>LOG_TRACE\<close>, \<open>LOG_DEBUG\<close> and \<open>LOG_INFO\<close> test the level; the others always log.\<close>

definition log_enabled :: "log_level \<Rightarrow> log_level \<Rightarrow> bool" where
  "log_enabled g_logLevel l = (if l \<in> {TRACE, DEBUG, INFO} then g_logLevel \<le> l else True)"

section \<open>The place in the source\<close>

text \<open>The name after the last slash.\<close>

definition sourceFile :: "string \<Rightarrow> string" where
  "sourceFile filename = rev (takeWhile (\<lambda>c. c \<noteq> CHR ''/'') (rev filename))"

lemma takeWhile_until: "c \<notin> set xs \<Longrightarrow> takeWhile (\<lambda>d. d \<noteq> c) (xs @ c # ys) = xs"
  by (induction xs) auto

lemma sourceFile_dir: "CHR ''/'' \<notin> set name \<Longrightarrow> sourceFile (dir @ ''/'' @ name) = name"
  using takeWhile_until[of "CHR ''/''" "rev name" "rev dir"] by (simp add: sourceFile_def)

lemma sourceFile_plain: "CHR ''/'' \<notin> set name \<Longrightarrow> sourceFile name = name"
proof -
  assume "CHR ''/'' \<notin> set name"
  then have "takeWhile (\<lambda>c. c \<noteq> CHR ''/'') (rev name) = rev name"
    by (intro takeWhile_eq_all_conv[THEN iffD2]) auto
  from this show ?thesis by (simp only: sourceFile_def rev_rev_ident)
qed

section \<open>One line\<close>

text \<open>The thread-local variables of the logger and of \<open>CurrentThread\<close>.\<close>

record log_thread =
  t_time :: string
  t_lastSecond :: int
  t_current :: current_thread

definition new_log_thread :: log_thread where
  "new_log_thread = \<lparr>t_time = [], t_lastSecond = 0, t_current = new_current_thread\<rparr>"

text \<open>The helper class \<open>T\<close> asserts that the length it is given is that of the string.\<close>

definition put_T :: "string \<Rightarrow> int \<Rightarrow> log_stream \<Rightarrow> log_stream result" where
  "put_T str len s = (if int (length str) = len then ls_append str s else Inl AssertFail)"

definition log_tm :: "time_zone \<Rightarrow> int \<Rightarrow> tm result" where
  "log_tm tz seconds = (if tz_valid tz then toLocalTime tz seconds else Inr (gmtime_r seconds))"

definition refresh_time :: "time_zone \<Rightarrow> int \<Rightarrow> log_thread \<Rightarrow> log_thread result" where
  "refresh_time tz seconds th =
     (if seconds \<noteq> t_lastSecond th
      then rbind (log_tm tz seconds) (\<lambda>tm_time.
        let text = time_text tm_time
        in if length text = 17
           then Inr (th\<lparr>t_lastSecond := seconds, t_time := snprintf_to 64 text\<rparr>)
           else Inl AssertFail)
      else Inr th)"

definition formatTime ::
  "time_zone \<Rightarrow> timestamp \<Rightarrow> log_thread \<Rightarrow> log_stream \<Rightarrow> (log_thread \<times> log_stream) result" where
  "formatTime tz time th s =
     (let us = microSecondsSinceEpoch time;
          seconds = us sdiv kMicroSecondsPerSecond;
          microseconds = int_cast (us smod kMicroSecondsPerSecond)
      in rbind (refresh_time tz seconds th) (\<lambda>th.
         if tz_valid tz
         then rbind (new_Fmt (''.'' @ fmt_0d 6 microseconds @ '' '')) (\<lambda>us.
           if length us = 8
           then rbind (put_T (t_time th) 17 s) (\<lambda>s. rbind (put_T us 8 s) (\<lambda>s. Inr (th, s)))
           else Inl AssertFail)
         else rbind (new_Fmt (''.'' @ fmt_0d 6 microseconds @ ''Z '')) (\<lambda>us.
           if length us = 9
           then rbind (put_T (t_time th) 17 s) (\<lambda>s. rbind (put_T us 9 s) (\<lambda>s. Inr (th, s)))
           else Inl AssertFail)))"

text \<open>The constructor of \<open>Logger::Impl\<close>; \<open>err_text\<close> is the text of \<open>strerror_tl\<close>.\<close>

definition new_Impl ::
  "time_zone \<Rightarrow> int \<Rightarrow> (int \<Rightarrow> string) \<Rightarrow> log_level \<Rightarrow> 32 word \<Rightarrow> timestamp \<Rightarrow> string \<Rightarrow> log_thread \<Rightarrow>
   (log_thread \<times> log_stream) result" where
  "new_Impl tz gettid err_text level savedErrno time mem th =
     rbind (formatTime tz time th \<lparr>ls_buffer = new_fixed_buffer mem\<rparr>) (\<lambda>(th, s).
       let th = th\<lparr>t_current := snd (ct_tid gettid (t_current th))\<rparr>
       in rbind (put_T (t_tidString (t_current th)) (t_tidStringLength (t_current th)) s) (\<lambda>s.
          rbind (put_T (LogLevelName level) 6 s) (\<lambda>s.
            if savedErrno \<noteq> 0
            then rbind (ls_cstr (Some (err_text (sint savedErrno))) s) (\<lambda>s.
                 rbind (ls_cstr (Some '' (errno='') s) (\<lambda>s.
                 rbind (ls_int savedErrno s) (\<lambda>s.
                 rbind (ls_cstr (Some '') '') s) (\<lambda>s. Inr (th, s)))))
            else Inr (th, s))))"

definition finish :: "string \<Rightarrow> 32 word \<Rightarrow> log_stream \<Rightarrow> log_stream result" where
  "finish basename line s =
     rbind (ls_cstr (Some '' - '') s) (\<lambda>s.
     rbind (ls_append basename s) (\<lambda>s.
     rbind (ls_char (CHR '':'') s) (\<lambda>s.
     rbind (ls_int line s) (\<lambda>s.
     ls_char (CHR 0x0A) s))))"

text \<open>
  The four constructors of \<open>Logger\<close> differ in the level, in whether \<open>errno\<close> is reported and in
  whether the function's name follows.
\<close>

datatype log_kind = PlainLog | LevelLog log_level | FuncLog log_level string | SysLog bool

fun kind_level :: "log_kind \<Rightarrow> log_level" where
  "kind_level PlainLog = INFO"
| "kind_level (LevelLog l) = l"
| "kind_level (FuncLog l f) = l"
| "kind_level (SysLog toAbort) = (if toAbort then FATAL else ERROR)"

fun kind_errno :: "32 word \<Rightarrow> log_kind \<Rightarrow> 32 word" where
  "kind_errno e (SysLog toAbort) = e"
| "kind_errno e _ = 0"

fun kind_func :: "log_kind \<Rightarrow> log_stream \<Rightarrow> log_stream result" where
  "kind_func (FuncLog l func) s = rbind (ls_cstr (Some func) s) (\<lambda>s. ls_char (CHR '' '') s)"
| "kind_func _ s = Inr s"

text \<open>
  The life of a \<open>Logger\<close>: constructor, the program's insertions \<open>user\<close>, destructor. The result is what
  the output function gets, and whether the process then flushes and aborts.
\<close>

definition log_line ::
  "time_zone \<Rightarrow> int \<Rightarrow> (int \<Rightarrow> string) \<Rightarrow> 32 word \<Rightarrow> timestamp \<Rightarrow> string \<Rightarrow> log_kind \<Rightarrow> string \<Rightarrow> 32 word \<Rightarrow>
   (log_stream \<Rightarrow> log_stream result) \<Rightarrow> log_thread \<Rightarrow> (string \<times> bool \<times> log_thread) result" where
  "log_line tz gettid err_text err time mem kind filename line user th =
     rbind (new_Impl tz gettid err_text (kind_level kind) (kind_errno err kind) time mem th) (\<lambda>(th, s).
     rbind (kind_func kind s) (\<lambda>s.
     rbind (user s) (\<lambda>s.
     rbind (finish (sourceFile filename) line s) (\<lambda>s.
       Inr (fb_toString (ls_buffer s), kind_level kind = FATAL, th)))))"

text \<open>\<open>CheckNotNull\<close>: a null pointer is logged as fatal, which ends the process.\<close>

definition CheckNotNull :: "ptr \<Rightarrow> ptr result" where
  "CheckNotNull p = (if p = 0 then Inl Fatal else Inr p)"

text \<open>The settings of the whole process; the output and flush functions are named by the program.\<close>

record 'o log_globals =
  g_logLevel :: log_level
  g_output :: 'o
  g_flush :: 'o
  g_logTimeZone :: time_zone

definition setLogLevel :: "log_level \<Rightarrow> 'o log_globals \<Rightarrow> 'o log_globals" where
  "setLogLevel level G = G\<lparr>g_logLevel := level\<rparr>"

definition setOutput :: "'o \<Rightarrow> 'o log_globals \<Rightarrow> 'o log_globals" where
  "setOutput out G = G\<lparr>g_output := out\<rparr>"

definition setFlush :: "'o \<Rightarrow> 'o log_globals \<Rightarrow> 'o log_globals" where
  "setFlush fl G = G\<lparr>g_flush := fl\<rparr>"

definition setTimeZone :: "time_zone \<Rightarrow> 'o log_globals \<Rightarrow> 'o log_globals" where
  "setTimeZone tz G = G\<lparr>g_logTimeZone := tz\<rparr>"

text \<open>
  A macro: nothing when its level is not enabled, else a line to the output function, and to the
  flush function before the process is aborted.
\<close>

definition log_macro ::
  "'o log_globals \<Rightarrow> int \<Rightarrow> (int \<Rightarrow> string) \<Rightarrow> 32 word \<Rightarrow> timestamp \<Rightarrow> string \<Rightarrow> log_kind \<Rightarrow> string \<Rightarrow> 32 word \<Rightarrow>
   (log_stream \<Rightarrow> log_stream result) \<Rightarrow> log_thread \<Rightarrow> (('o \<times> string) list \<times> bool \<times> log_thread) result" where
  "log_macro G gettid err_text err time mem kind filename line user th =
     (if log_enabled (g_logLevel G) (kind_level kind)
      then rbind (log_line (g_logTimeZone G) gettid err_text err time mem kind filename line user th)
        (\<lambda>(out, abort, th). Inr ((g_output G, out) # (if abort then [(g_flush G, [])] else []), abort, th))
      else Inr ([], False, th))"

section \<open>The line as a list of items\<close>

definition tid_text :: "int \<Rightarrow> string" where
  "tid_text gettid = fmt_d 5 gettid @ '' ''"

definition micros_text :: "time_zone \<Rightarrow> int \<Rightarrow> string" where
  "micros_text tz us = ''.'' @ fmt_0d 6 (us smod 1000000) @ (if tz_valid tz then '' '' else ''Z '')"

fun kind_items :: "(int \<Rightarrow> string) \<Rightarrow> 32 word \<Rightarrow> log_kind \<Rightarrow> 'd log_item list" where
  "kind_items err_text err (SysLog toAbort) =
     (if err = 0 then []
      else [ICStr (Some (err_text (sint err))), ICStr (Some '' (errno=''), IInt err, ICStr (Some '') '')])"
| "kind_items err_text err (FuncLog l func) = [ICStr (Some func), IChar (CHR '' '')]"
| "kind_items err_text err _ = []"

definition line_items ::
  "time_zone \<Rightarrow> int \<Rightarrow> (int \<Rightarrow> string) \<Rightarrow> 32 word \<Rightarrow> int \<Rightarrow> tm \<Rightarrow> log_kind \<Rightarrow> string \<Rightarrow> 32 word \<Rightarrow>
   'd log_item list \<Rightarrow> 'd log_item list" where
  "line_items tz gettid err_text err us tm kind filename line items =
     [IAppend (time_text tm), IAppend (micros_text tz us), IAppend (tid_text gettid),
      IAppend (LogLevelName (kind_level kind))] @ kind_items err_text err kind @ items @
     [ICStr (Some '' - ''), IAppend (sourceFile filename), IChar (CHR '':''), IInt line, IChar (CHR 0x0A)]"

text \<open>What the thread-local caches may hold: the text of the second they name, and of the thread's id.\<close>

definition log_cache :: "time_zone \<Rightarrow> int \<Rightarrow> log_thread \<Rightarrow> bool" where
  "log_cache tz gettid th \<longleftrightarrow>
     (t_lastSecond th \<noteq> 0 \<longrightarrow>
        (\<exists>tm. log_tm tz (t_lastSecond th) = Inr tm \<and> t_time th = time_text tm \<and> length (t_time th) = 17)) \<and>
     (t_cachedTid (t_current th) \<noteq> 0 \<longrightarrow>
        t_tidString (t_current th) = tid_text gettid \<and>
        t_tidStringLength (t_current th) = int (length (tid_text gettid)))"

lemma new_thread_cache: "log_cache tz gettid new_log_thread"
  by (simp add: log_cache_def new_log_thread_def new_current_thread_def)

lemma length_tid_text: "0 < gettid \<Longrightarrow> gettid < 2 ^ 31 \<Longrightarrow> length (tid_text gettid) \<le> 11"
proof -
  assume "0 < gettid" "gettid < 2 ^ 31"
  then have "length (nat_dec (nat gettid)) \<le> 10" by (intro length_nat_dec_le) auto
  with \<open>0 < gettid\<close> show ?thesis by (simp add: tid_text_def fmt_d_def int_dec_def)
qed

lemma cached_tid:
  assumes "log_cache tz gettid th" "0 < gettid" "gettid < 2 ^ 31"
  defines "c \<equiv> snd (ct_tid gettid (t_current th))"
  shows "t_tidString c = tid_text gettid" "t_tidStringLength c = int (length (tid_text gettid))"
  using assms(1) length_tid_text[OF assms(2,3)] unfolding c_def tid_text_def
  by (auto simp: log_cache_def ct_tid_def cacheTid_def snprintf_to_def Let_def tid_text_def)

lemma refresh_time_ok:
  assumes "log_cache tz gettid th" "log_tm tz seconds = Inr tm" "length (time_text tm) = 17" "seconds \<noteq> 0"
  shows "\<exists>th'. refresh_time tz seconds th = Inr th' \<and> t_time th' = time_text tm \<and> t_lastSecond th' = seconds \<and>
    t_current th' = t_current th"
proof (cases "seconds = t_lastSecond th")
  case True
  then show ?thesis using assms by (auto simp: refresh_time_def log_cache_def)
next
  case False
  then show ?thesis using assms by (simp add: refresh_time_def snprintf_to_def)
qed

lemma micros_range: "0 \<le> us \<Longrightarrow> 0 \<le> us smod 1000000 \<and> us smod 1000000 < (1000000 :: int)"
  by (simp add: smod_nonneg)

lemma formatTime_items:
  assumes "log_cache tz gettid th" "log_tm tz (us sdiv 1000000) = Inr tm" "length (time_text tm) = 17"
    and "us sdiv 1000000 \<noteq> 0" "0 \<le> us"
  shows "\<exists>th'. t_time th' = time_text tm \<and> t_lastSecond th' = us sdiv 1000000 \<and> t_current th' = t_current th \<and>
    formatTime tz (Timestamp us) th s =
      rbind (rfold (insert_item g) [IAppend (time_text tm), IAppend (micros_text tz us)] s) (\<lambda>s. Inr (th', s))"
proof -
  obtain th' where th': "refresh_time tz (us sdiv 1000000) th = Inr th'" "t_time th' = time_text tm"
    "t_lastSecond th' = us sdiv 1000000" "t_current th' = t_current th"
    using refresh_time_ok[OF assms(1-4)] by blast
  have k: "kMicroSecondsPerSecond = 1000000" by (simp add: kMicroSecondsPerSecond_def)
  note m = micros_range[OF assms(5)]
  have "int_cast (us smod 1000000) = us smod 1000000"
    using m by (intro int_cast_id) (simp add: int32_def)
  moreover have "length (fmt_0d 6 (us smod 1000000)) = 6"
    using m by (intro length_fmt_0d_exact) simp_all
  ultimately have "formatTime tz (Timestamp us) th s =
      rbind (rfold (insert_item g) [IAppend (time_text tm), IAppend (micros_text tz us)] s) (\<lambda>s. Inr (th', s))"
    using th' assms(3)
    by (simp add: formatTime_def k Let_def new_Fmt_def snprintf_to_def put_T_def micros_text_def rbind_assoc)
  with th' show ?thesis by blast
qed

text \<open>The line is the insertion of its items, one after the other, into an empty stream.\<close>

lemma log_line_items:
  assumes "log_cache tz gettid th" "0 < gettid" "gettid < 2 ^ 31"
    and "log_tm tz (us sdiv 1000000) = Inr tm" "length (time_text tm) = 17" "us sdiv 1000000 \<noteq> 0" "0 \<le> us"
  shows "\<exists>th'. log_cache tz gettid th' \<and>
    log_line tz gettid err_text err (Timestamp us) mem kind filename line (rfold (insert_item g) items) th =
      rbind (rfold (insert_item g) (line_items tz gettid err_text err us tm kind filename line items)
          \<lparr>ls_buffer = new_fixed_buffer mem\<rparr>)
        (\<lambda>s. Inr (fb_toString (ls_buffer s), kind_level kind = FATAL, th'))"
proof -
  obtain th1 where th1: "t_time th1 = time_text tm" "t_lastSecond th1 = us sdiv 1000000"
    "t_current th1 = t_current th"
    "formatTime tz (Timestamp us) th \<lparr>ls_buffer = new_fixed_buffer mem\<rparr> =
      rbind (rfold (insert_item g) [IAppend (time_text tm), IAppend (micros_text tz us)]
        \<lparr>ls_buffer = new_fixed_buffer mem\<rparr>) (\<lambda>s. Inr (th1, s))"
    using formatTime_items[OF assms(1,4,5,6,7)] by metis
  define th' where "th' = th1\<lparr>t_current := snd (ct_tid gettid (t_current th))\<rparr>"
  note c = cached_tid[OF assms(1-3)]
  have "log_cache tz gettid th'"
    using th1(1,2) assms(4,5) c unfolding log_cache_def th'_def by simp
  moreover have "length (LogLevelName l) = 6" for l by (cases l) (simp_all add: LogLevelName_def)
  then have "log_line tz gettid err_text err (Timestamp us) mem kind filename line (rfold (insert_item g) items) th =
      rbind (rfold (insert_item g) (line_items tz gettid err_text err us tm kind filename line items)
          \<lparr>ls_buffer = new_fixed_buffer mem\<rparr>)
        (\<lambda>s. Inr (fb_toString (ls_buffer s), kind_level kind = FATAL, th'))"
    using th1(3) c
    by (cases kind) (simp_all add: log_line_def new_Impl_def th1(4) put_T_def line_items_def finish_def
        rbind_assoc th'_def Let_def)
  ultimately show ?thesis by blast
qed

lemma item_text_room: "good_g12 g \<Longrightarrow> length (item_text g it) \<le> item_room g it"
proof (cases it)
  case (IShort v) then show ?thesis using convert_text[of v] by (simp add: item_room_def)
next
  case (IUShort v) then show ?thesis using convert_text[of v] by (simp add: item_room_def)
next
  case (IInt v) then show ?thesis using convert_text[of v] by (simp add: item_room_def)
next
  case (IUInt v) then show ?thesis using convert_text[of v] by (simp add: item_room_def)
next
  case (ILong v) then show ?thesis using convert_text[of v] by (simp add: item_room_def)
next
  case (IULong v) then show ?thesis using convert_text[of v] by (simp add: item_room_def)
next
  case (ILongLong v) then show ?thesis using convert_text[of v] by (simp add: item_room_def)
next
  case (IULongLong v) then show ?thesis using convert_text[of v] by (simp add: item_room_def)
next
  case (IPointer v) then show ?thesis using convertHex_value(2)[of v] by (simp add: item_room_def)
next
  assume "good_g12 g"
  case (IDouble v) with \<open>good_g12 g\<close> show ?thesis by (simp add: item_room_def good_g12_def order.strict_implies_order)
qed (simp_all add: item_room_def)

lemma put_items_fit:
  assumes "good_g12 g"
  shows "length t + sum_list (map (item_room g) items) \<le> cap \<Longrightarrow>
    fold (put_item g cap) items t = t @ concat (map (item_text g) items)"
proof (induction items arbitrary: t)
  case (Cons it items)
  have "put_item g cap it t = t @ item_text g it" using Cons.prems by (simp add: put_item_def)
  moreover have "length (t @ item_text g it) + sum_list (map (item_room g) items) \<le> cap"
    using Cons.prems item_text_room[OF assms, of it] by simp
  ultimately show ?case using Cons.IH[of "t @ item_text g it"] by simp
qed simp

lemma log_line_result:
  fixes items :: "'d log_item list" and err_text and err and kind and filename and line
  assumes "log_cache tz gettid th" "0 < gettid" "gettid < 2 ^ 31"
    and "log_tm tz (us sdiv 1000000) = Inr tm" "length (time_text tm) = 17" "1000000 \<le> us"
    and "length mem = kSmallBuffer" "good_g12 g"
  defines "parts \<equiv> line_items tz gettid err_text err us tm kind filename line items"
  shows "\<exists>th' out. log_cache tz gettid th' \<and>
    log_line tz gettid err_text err (Timestamp us) mem kind filename line (rfold (insert_item g) items) th =
      Inr (out, kind_level kind = FATAL, th') \<and>
    out = fold (put_item g kSmallBuffer) parts [] \<and>
    (sum_list (map (item_room g) parts) \<le> kSmallBuffer \<longrightarrow> out = concat (map (item_text g) parts))"
proof -
  let ?s = "\<lparr>ls_buffer = new_fixed_buffer mem\<rparr>"
  have us: "0 \<le> us" "us sdiv 1000000 \<noteq> 0" using assms(6) by (simp_all add: sdiv_nonneg)
  have s: "stream_inv kSmallBuffer ?s" "stream_text ?s = []"
    using assms(7) by (simp_all add: stream_inv_def new_fixed_buffer_def stream_text_def fb_toString_def)
  from insert_items_ok[OF s(1) assms(8), of parts] s(2) obtain s' where
    s': "rfold (insert_item g) parts ?s = Inr s'" "stream_text s' = fold (put_item g kSmallBuffer) parts []"
    by auto
  obtain th' where "log_cache tz gettid th'"
    "log_line tz gettid err_text err (Timestamp us) mem kind filename line (rfold (insert_item g) items) th =
      rbind (rfold (insert_item g) parts ?s) (\<lambda>s. Inr (fb_toString (ls_buffer s), kind_level kind = FATAL, th'))"
    using log_line_items[OF assms(1-5) us(2,1)] unfolding parts_def by metis
  moreover from this s' have
    "log_line tz gettid err_text err (Timestamp us) mem kind filename line (rfold (insert_item g) items) th =
      Inr (fold (put_item g kSmallBuffer) parts [], kind_level kind = FATAL, th')"
    by (simp add: stream_text_def)
  ultimately show ?thesis
    using put_items_fit[OF assms(8), of "[]" parts kSmallBuffer] by auto
qed

text \<open>
  C15. Logging.cpp: for every kind of logger, whatever the program inserts, the destructor hands over one text:
  the time of day, the microseconds, the thread's id, the level, the error if there is one, the
  function or not, the inserted items, the place in the source and a newline, each of these parts
  whole or, when the buffer of 4000 characters has no room for it, missing; when the parts fit, the
  whole line. The process aborts afterwards exactly for the level \<open>FATAL\<close>. The thread-local caches
  stay correct. No assertion fails.
\<close>

theorem log_line_format:
  fixes items :: "'d log_item list" and err_text and err and kind and filename and line
  assumes "log_cache tz gettid th" "0 < gettid" "gettid < 2 ^ 31"
    and "log_tm tz (us sdiv 1000000) = Inr tm" "length (time_text tm) = 17" "1000000 \<le> us"
    and "length mem = kSmallBuffer" "good_g12 g"
  defines "parts \<equiv> line_items tz gettid err_text err us tm kind filename line items"
  shows "\<exists>th' out. log_cache tz gettid th' \<and>
    log_line tz gettid err_text err (Timestamp us) mem kind filename line (rfold (insert_item g) items) th =
      Inr (out, kind_level kind = FATAL, th') \<and>
    out = fold (put_item g kSmallBuffer) parts [] \<and>
    (sum_list (map (item_room g) parts) \<le> kSmallBuffer \<longrightarrow> out = concat (map (item_text g) parts))"
  unfolding parts_def by (rule log_line_result[OF assms(1-8)])

text \<open>A moment to try it on.\<close>

lemma sample_second:
  "log_tm None (1600000000000042 sdiv 1000000) = Inr (gmtime_r 1600000000)"
  "time_text (gmtime_r 1600000000) = ''20200913 12:26:40''"
proof -
  show "log_tm None (1600000000000042 sdiv 1000000) = Inr (gmtime_r 1600000000)"
    by (simp add: log_tm_def tz_valid_def sdiv_nonneg)
  have d: "(1600000000 :: int) div 86400 = 18518" "(1600000000 :: int) mod 86400 = 44800" by simp_all
  have g: "getYearMonthDay 2459106 = \<lparr>ymd_year = 2020, ymd_month = 9, ymd_day = 13\<rparr>"
    by code_simp
  show "time_text (gmtime_r 1600000000) = ''20200913 12:26:40''"
    unfolding time_text_def gmtime_r_def d Let_def by (simp add: g) code_simp
qed

lemma sample_texts:
  "micros_text None 1600000000000042 = ''.000042Z ''" "tid_text 4242 = '' 4242 ''"
proof -
  have "(1600000000000042 :: int) smod 1000000 = 42" by (simp add: smod_nonneg)
  moreover have "replicate 4 c = [c, c, c, c]" for c :: char by (simp add: numeral_eq_Suc)
  then have "fmt_0d 6 42 = ''000042''" "fmt_d 5 4242 = '' 4242''"
    by (simp_all add: fmt_0d_def fmt_d_def int_dec_def nat_dec.simps digit_chars)
  ultimately show "micros_text None 1600000000000042 = ''.000042Z ''" "tid_text 4242 = '' 4242 ''"
    by (simp_all add: micros_text_def tid_text_def tz_valid_def)
qed

theorem log_line_format_witness:
  "\<exists>th'. log_line None 4242 (\<lambda>e. ''No such file'') 2 (Timestamp 1600000000000042) (replicate kSmallBuffer CHR ''?'')
     (SysLog False) ''net/Socket.cpp'' 106 (rfold (insert_item (\<lambda>v :: unit. [])) [ICStr (Some ''oops'')]) new_log_thread =
   Inr (''20200913 12:26:40.000042Z  4242 ERROR No such file (errno=2) oops - Socket.cpp:106'' @ [CHR 0x0A], False, th')"
proof -
  let ?parts = "line_items None 4242 (\<lambda>e. ''No such file'') 2 1600000000000042 (gmtime_r 1600000000) (SysLog False)
      ''net/Socket.cpp'' 106 [ICStr (Some ''oops'')] :: unit log_item list"
  have n: "sourceFile ''net/Socket.cpp'' = ''Socket.cpp''" "int_dec 2 = ''2''" "int_dec 106 = ''106''"
    by (simp_all add: sourceFile_def int_dec_def nat_dec.simps digit_chars)
  have "concat (map (item_text (\<lambda>v :: unit. [])) ?parts) =
      ''20200913 12:26:40.000042Z  4242 ERROR No such file (errno=2) oops - Socket.cpp:106'' @ [CHR 0x0A]"
    by (simp add: line_items_def sample_texts sample_second n LogLevelName_def)
  moreover have "sum_list (map (item_room (\<lambda>v :: unit. [])) ?parts) \<le> kSmallBuffer"
    by (simp add: line_items_def item_room_def sample_texts sample_second n LogLevelName_def kSmallBuffer_def)
  ultimately show ?thesis
    using log_line_format[OF new_thread_cache, of 4242 None 1600000000000042 "gmtime_r 1600000000"
        "replicate kSmallBuffer CHR ''?''" "\<lambda>v :: unit. []" "\<lambda>e. ''No such file''" 2 "SysLog False"
        "''net/Socket.cpp''" 106 "[ICStr (Some ''oops'')]"] sample_second
    by (auto simp: good_g12_def)
qed

section \<open>Limits of a line\<close>

lemma length_micros_text:
  assumes "0 \<le> us"
  shows "length (micros_text tz us) \<le> 9"
proof -
  have "length (fmt_0d 6 (us smod 1000000)) = 6"
    using micros_range[of us] assms by (intro length_fmt_0d_exact) simp_all
  then show ?thesis by (simp add: micros_text_def)
qed

text \<open>
  Logging.cpp, \<open>finish\<close>: a message that fills the buffer up to its last free character leaves no room for
  the place in the source, nor for the newline: the next line follows on the same line of the log.
\<close>

theorem full_line_loses_newline:
  assumes "log_cache tz gettid th" "0 < gettid" "gettid < 2 ^ 31"
    and "log_tm tz (us sdiv 1000000) = Inr tm" "length (time_text tm) = 17" "1000000 \<le> us"
    and "length mem = kSmallBuffer" "sourceFile filename \<noteq> []"
  defines "start \<equiv> time_text tm @ micros_text tz us @ tid_text gettid @ ''INFO  ''"
  assumes "length start + length msg = kSmallBuffer - 1"
  shows "\<exists>th'. log_line tz gettid err_text err (Timestamp us) mem PlainLog filename line (ls_string msg) th =
    Inr (start @ msg, False, th')"
proof -
  let ?g = "\<lambda>v :: unit. []"
  have g: "good_g12 ?g" by (simp add: good_g12_def)
  let ?head = "[IAppend (time_text tm), IAppend (micros_text tz us), IAppend (tid_text gettid), IAppend ''INFO  '']"
  let ?tail = "[ICStr (Some '' - ''), IAppend (sourceFile filename), IChar (CHR '':''), IInt line, IChar (CHR 0x0A)]"
  have items: "line_items tz gettid err_text err us tm PlainLog filename line [IString msg] =
      ?head @ IString msg # ?tail"
    by (simp add: line_items_def LogLevelName_def)
  have "length (micros_text tz us) \<le> 9" using assms(6) by (intro length_micros_text) simp
  then have "sum_list (map (item_room ?g) ?head) \<le> kSmallBuffer"
    using assms(5) length_tid_text[OF assms(2,3)] by (simp add: item_room_def kSmallBuffer_def)
  then have "fold (put_item ?g kSmallBuffer) ?head [] = start"
    using put_items_fit[OF g, of "[]" ?head kSmallBuffer] by (simp add: start_def)
  moreover have "put_item ?g kSmallBuffer (IString msg) start = start @ msg"
    using assms(10) by (simp add: put_item_def item_room_def kSmallBuffer_def)
  moreover have "put_item ?g kSmallBuffer it (start @ msg) = start @ msg" if "2 \<le> item_room ?g it" for it
    using assms(10) that by (simp add: put_item_def kSmallBuffer_def)
  then have "fold (put_item ?g kSmallBuffer) ?tail (start @ msg) = start @ msg"
    using assms(8) by (simp add: item_room_def Suc_le_eq)
  ultimately have "fold (put_item ?g kSmallBuffer) (?head @ IString msg # ?tail) [] = start @ msg" by simp
  moreover have "rfold (insert_item ?g) [IString msg] = ls_string msg" by (simp add: fun_eq_iff)
  ultimately show ?thesis
    using log_line_result[OF assms(1-7) g, of err_text err PlainLog filename line "[IString msg]"]
    unfolding items by auto
qed

theorem full_line_loses_newline_witness:
  "\<exists>out th'. log_line None 4242 (\<lambda>e. []) 0 (Timestamp 1600000000000042) (replicate kSmallBuffer CHR ''?'')
     PlainLog ''a.cpp'' 1 (ls_string (replicate 3961 CHR ''x'')) new_log_thread = Inr (out, False, th') \<and>
   length out = 3999 \<and> CHR 0x0A \<notin> set out"
proof -
  have "sourceFile ''a.cpp'' \<noteq> []" by (simp add: sourceFile_def)
  moreover have "\<exists>th'. log_line None 4242 (\<lambda>e. []) 0 (Timestamp 1600000000000042) (replicate kSmallBuffer CHR ''?'')
      PlainLog ''a.cpp'' 1 (ls_string (replicate 3961 CHR ''x'')) new_log_thread =
    Inr ((time_text (gmtime_r 1600000000) @ micros_text None 1600000000000042 @ tid_text 4242 @ ''INFO  '') @
      replicate 3961 CHR ''x'', False, th')"
    by (rule full_line_loses_newline[OF new_thread_cache _ _ sample_second(1) _ _ _ calculation])
      (simp_all add: sample_second sample_texts kSmallBuffer_def)
  ultimately show ?thesis by (auto simp: sample_second sample_texts)
qed

text \<open>
  Within one second the text of the time is not made again, so after \<open>setTimeZone\<close> the lines of the
  thread still show the old zone's time of day (while the letter \<open>Z\<close> is already gone).
\<close>

lemma stale_zone:
  assumes "t_lastSecond th = seconds"
  shows "refresh_time tz seconds th = Inr th"
  using assms by (simp add: refresh_time_def)

end
