(* ===== verification/ProcessInfo.thy ===== *)
theory ProcessInfo
  imports StringPiece FileUtil TimeZone Doubles "HOL-Library.Multiset"
begin

text \<open>
  Facts about the process (src/zing/base/ProcessInfo.h and ProcessInfo.cpp) and the printed call
  stack (src/zing/base/CurrentThread.cpp). What the system calls answer and what the files of /proc
  contain are arguments; the model is what the code makes of them.
\<close>

section \<open>Searching in strings\<close>

text \<open>\<open>std::string::find\<close> and \<open>rfind\<close>; \<open>None\<close> is \<open>npos\<close>.\<close>

fun find_char :: "char \<Rightarrow> string \<Rightarrow> nat option" where
  "find_char c [] = None"
| "find_char c (d # s) = (if d = c then Some 0 else map_option Suc (find_char c s))"

fun rfind_char :: "char \<Rightarrow> string \<Rightarrow> nat option" where
  "rfind_char c [] = None"
| "rfind_char c (d # s) =
     (case rfind_char c s of Some i \<Rightarrow> Some (Suc i) | None \<Rightarrow> if d = c then Some 0 else None)"

fun find_text :: "string \<Rightarrow> string \<Rightarrow> nat option" where
  "find_text p [] = (if p = [] then Some 0 else None)"
| "find_text p (d # s) = (if prefix p (d # s) then Some 0 else map_option Suc (find_text p s))"

text \<open>\<open>atoi\<close>: white space, a sign, digits. Numbers beyond an \<open>int\<close> are undefined in C and do not occur.\<close>

definition is_space :: "char \<Rightarrow> bool" where
  "is_space c = (c = CHR '' '' \<or> 9 \<le> (of_char c :: nat) \<and> (of_char c :: nat) \<le> 13)"

definition atoi :: "string \<Rightarrow> int" where
  "atoi s =
     (case dropWhile is_space s of
        [] \<Rightarrow> 0
      | c # r \<Rightarrow>
          if c = CHR ''-'' then - int (dec_val (takeWhile is_digit r))
          else if c = CHR ''+'' then int (dec_val (takeWhile is_digit r))
          else int (dec_val (takeWhile is_digit (c # r))))"

section \<open>ProcessInfo\<close>

definition pidString :: "int \<Rightarrow> string" where
  "pidString pid = snprintf_to 32 (int_dec pid)"

text \<open>\<open>getpwuid_r\<close> found an entry with this name, or none.\<close>

definition username :: "string option \<Rightarrow> string" where
  "username entry = (case entry of Some name \<Rightarrow> name | None \<Rightarrow> ''unknownuser'')"

text \<open>\<open>gethostname\<close> filled the array of 256 characters, or failed.\<close>

definition hostname :: "string option \<Rightarrow> string" where
  "hostname answer =
     (case answer of
        Some buf \<Rightarrow> takeWhile (\<lambda>c. c \<noteq> CHR 0x00) (buf[255 := CHR 0x00])
      | None \<Rightarrow> ''unknownhost'')"

definition procname :: "string \<Rightarrow> piece" where
  "procname stat =
     (case (find_char CHR ''('' stat, rfind_char CHR '')'' stat) of
        (Some lp, Some rp) \<Rightarrow>
          if lp < rp
          then sp_set (stat @ [CHR 0x00]) (int (lp + 1)) (int_of_size (rp - lp - 1)) sp_null
          else sp_null
      | _ \<Rightarrow> sp_null)"

text \<open>Files of /proc, with \<open>rd\<close> reading and \<open>opened\<close> what \<open>open\<close> answered; errors leave the text empty.\<close>

definition read_proc :: "reader \<Rightarrow> int \<times> int \<Rightarrow> string \<Rightarrow> string result" where
  "read_proc rd opened mem =
     rbind (readFile rd (Inl 0) opened mem 65536 [] \<lparr>ft_size = None, ft_modify = None, ft_create = None\<rparr>)
       (\<lambda>(err, content, ft). Inr content)"

definition procStatus :: "reader \<Rightarrow> int \<times> int \<Rightarrow> string \<Rightarrow> string result" where
  "procStatus rd opened mem = read_proc rd opened mem"

definition procStat :: "reader \<Rightarrow> int \<times> int \<Rightarrow> string \<Rightarrow> string result" where
  "procStat rd opened mem = read_proc rd opened mem"

text \<open>The name of the file is what the kernel is asked for, so the reader depends on it.\<close>

definition threadStat ::
  "(string \<Rightarrow> reader) \<Rightarrow> (string \<Rightarrow> int \<times> int) \<Rightarrow> string \<Rightarrow> int \<Rightarrow> string result" where
  "threadStat rd opened mem tid =
     (let buf = snprintf_to 64 (''/proc/self/task/'' @ int_dec tid @ ''/stat'')
      in read_proc (rd buf) (opened buf) mem)"

definition procname_self :: "reader \<Rightarrow> int \<times> int \<Rightarrow> string \<Rightarrow> string result" where
  "procname_self rd opened mem = rbind (procStat rd opened mem) (\<lambda>stat. as_string (procname stat))"

text \<open>\<open>readlink\<close> put \<open>n\<close> characters into the array.\<close>

definition exePath :: "int \<Rightarrow> string \<Rightarrow> string" where
  "exePath n buf = (if 0 < n then take (nat n) buf else [])"

text \<open>\<open>scandir\<close> calls the filter on every entry; both filters refuse all and work by side effect.\<close>

definition starts_with_digit :: "string \<Rightarrow> bool" where
  "starts_with_digit name = (case name of [] \<Rightarrow> False | c # _ \<Rightarrow> is_digit c)"

definition fdDirFilter :: "string \<Rightarrow> int \<Rightarrow> int" where
  "fdDirFilter name t_numOpenedFiles =
     (if starts_with_digit name then t_numOpenedFiles + 1 else t_numOpenedFiles)"

definition taskDirFilter :: "string \<Rightarrow> int list \<Rightarrow> int list" where
  "taskDirFilter name t_pids = (if starts_with_digit name then t_pids @ [atoi name] else t_pids)"

definition scanDir :: "(string \<Rightarrow> 's \<Rightarrow> 's) \<Rightarrow> string list \<Rightarrow> 's \<Rightarrow> 's" where
  "scanDir flt entries s = fold flt entries s"

definition openedFiles :: "string list \<Rightarrow> int" where
  "openedFiles entries = scanDir fdDirFilter entries 0"

text \<open>\<open>getrlimit\<close> answered with the soft limit, cast from 64 bits to \<open>int\<close>, or failed.\<close>

definition maxOpenFiles :: "int option \<Rightarrow> string list \<Rightarrow> int" where
  "maxOpenFiles rlim_cur entries = (case rlim_cur of None \<Rightarrow> openedFiles entries | Some n \<Rightarrow> int_cast n)"

record cpu_time =
  userSeconds :: rat
  systemSeconds :: rat

definition cpuTime :: "(int \<times> int) option \<Rightarrow> int \<Rightarrow> cpu_time" where
  "cpuTime tms clockTicksPerSecond =
     (case tms of
        Some (utime, stime) \<Rightarrow>
          (let hz = rnd (of_int clockTicksPerSecond)
           in \<lparr>userSeconds = fdiv (rnd (of_int utime)) hz, systemSeconds = fdiv (rnd (of_int stime)) hz\<rparr>)
      | None \<Rightarrow> \<lparr>userSeconds = 0, systemSeconds = 0\<rparr>)"

definition numThreads :: "string \<Rightarrow> int" where
  "numThreads status =
     (case find_text ''Threads:'' status of
        Some pos \<Rightarrow> atoi (drop (pos + 8) status)
      | None \<Rightarrow> 0)"

definition process_threads :: "string list \<Rightarrow> int list" where
  "process_threads entries = sort (scanDir taskDirFilter entries [])"

section \<open>CurrentThread::stackTrace\<close>

text \<open>
  The symbols are the C strings of \<open>backtrace_symbols\<close>, such as \<open>prog(_Zname+0x12) [0x4005]\<close>.
  \<open>demangle\<close> is \<open>__cxa_demangle\<close>: \<open>None\<close> for a status other than 0. While it is called, the last
  plus sign is overwritten with a NUL, which ends the mangled name if it comes after the
  parenthesis.
\<close>

definition stack_line :: "(string \<Rightarrow> string option) option \<Rightarrow> string \<Rightarrow> string" where
  "stack_line demangle s =
     (case (demangle, rfind_char CHR ''('' s, rfind_char CHR ''+'' s) of
        (Some dm, Some left_par, Some plus_at) \<Rightarrow>
          (let mangled = takeWhile (\<lambda>c. c \<noteq> CHR 0x00) (drop (left_par + 1) (s[plus_at := CHR 0x00]))
           in case dm mangled of
                Some ret \<Rightarrow> take (left_par + 1) s @ ret @ drop plus_at s @ [CHR 0x0A]
              | None \<Rightarrow> s @ [CHR 0x0A])
      | _ \<Rightarrow> s @ [CHR 0x0A])"

text \<open>The first frame is the function itself; no symbols, no text.\<close>

definition stackTrace :: "(string \<Rightarrow> string option) option \<Rightarrow> string list option \<Rightarrow> string" where
  "stackTrace demangle strings =
     (case strings of Some ss \<Rightarrow> concat (map (stack_line demangle) (drop 1 ss)) | None \<Rightarrow> [])"

section \<open>The name of the process\<close>

lemma find_char_app: "c \<notin> set xs \<Longrightarrow> find_char c (xs @ c # ys) = Some (length xs)"
  by (induction xs) auto

lemma rfind_char_app: "c \<notin> set ys \<Longrightarrow> rfind_char c (xs @ c # ys) = Some (length xs)"
proof (induction xs)
  case Nil
  have "c \<notin> set ys \<Longrightarrow> rfind_char c ys = None" for ys by (induction ys) auto
  with Nil show ?case by simp
qed simp

lemma not_digit_paren: "CHR ''('' \<notin> set (nat_dec n)"
proof
  assume "CHR ''('' \<in> set (nat_dec n)"
  then obtain d where "d < 10" "CHR ''('' = digit_char d" by (blast dest: nat_dec_chars)
  then have "of_char (CHR ''('') = (48 + d :: nat)" by (simp add: digit_char_range)
  then show False by simp
qed

text \<open>
  ProcessInfo.cpp, \<open>procname\<close>: from a line of /proc/self/stat the name between the outer parentheses
  is taken, also when the name itself contains parentheses or spaces.
\<close>

theorem procname_exact:
  assumes "CHR '')'' \<notin> set rest" "length name < 2 ^ 31"
  shows "as_string (procname (nat_dec pid @ '' ('' @ name @ '')'' @ rest)) = Inr name"
proof -
  define stat where "stat = nat_dec pid @ '' ('' @ name @ '')'' @ rest"
  let ?pre = "nat_dec pid @ '' ''"
  have lp: "find_char CHR ''('' stat = Some (length ?pre)"
    using find_char_app[of "CHR ''(''" ?pre "name @ '')'' @ rest"] not_digit_paren[of pid]
    by (simp add: stat_def)
  have rp: "rfind_char CHR '')'' stat = Some (length ?pre + 1 + length name)"
    using rfind_char_app[OF assms(1), of "?pre @ ''('' @ name"] by (simp add: stat_def)
  have "procname stat = sp_set (stat @ [CHR 0x00]) (int (length ?pre + 1)) (int (length name)) sp_null"
    using assms(2) by (simp add: procname_def lp rp)
  then have "as_string (procname stat) = Inr name"
    by (simp add: as_string_def sp_set_def sp_null_def in_block_def sp_chars_def stat_def nat_add_distrib)
  then show ?thesis by (simp only: stat_def)
qed

theorem procname_exact_witness:
  "as_string (procname (nat_dec 12 @ '' ('' @ ''a) (b'' @ '')'' @ '' S 1 12'')) = Inr ''a) (b''"
  by (rule procname_exact) simp_all

section \<open>Counting threads\<close>

lemma find_text_first:
  assumes "\<forall>i < length xs. \<not> prefix p (drop i (xs @ p @ ys))"
  shows "find_text p (xs @ p @ ys) = Some (length xs)"
  using assms
proof (induction xs)
  case Nil
  show ?case
  proof (cases "p @ ys")
    case (Cons a l)
    then have "prefix p (a # l)" by (metis prefixI)
    with Cons show ?thesis by simp
  qed simp
next
  case (Cons x xs)
  then have "\<not> prefix p (x # xs @ p @ ys)" by force
  moreover have "\<forall>i < length xs. \<not> prefix p (drop i (xs @ p @ ys))"
    using Cons.prems by (metis Suc_less_eq append_Cons drop_Suc_Cons length_Cons)
  ultimately show ?case using Cons.IH by simp
qed

lemma takeWhile_digits: "takeWhile is_digit (nat_dec n @ CHR 0x0A # ys) = nat_dec n"
proof -
  have "\<forall>c \<in> set (nat_dec n). is_digit c" by (auto dest!: nat_dec_chars)
  then have "takeWhile is_digit (nat_dec n @ CHR 0x0A # ys) = nat_dec n @ takeWhile is_digit (CHR 0x0A # ys)"
    by (simp add: takeWhile_append2)
  then show ?thesis by (simp add: is_digit_def)
qed

lemma digit_char_plain: "d < 10 \<Longrightarrow> digit_char d \<noteq> CHR ''-'' \<and> digit_char d \<noteq> CHR ''+'' \<and> \<not> is_space (digit_char d)"
proof -
  assume "d < 10"
  then have "of_char (digit_char d) = (48 + d :: nat)" by (rule digit_char_range)
  then show ?thesis using \<open>d < 10\<close> by (auto simp: is_space_def)
qed

lemma atoi_tab: "atoi (CHR 0x09 # nat_dec n @ CHR 0x0A # ys) = int n"
proof -
  obtain c r where c: "nat_dec n = c # r" by (cases "nat_dec n") auto
  then obtain d where d: "d < 10" "c = digit_char d" using nat_dec_chars[of c n] by auto
  have "dropWhile is_space (CHR 0x09 # nat_dec n @ CHR 0x0A # ys) = nat_dec n @ CHR 0x0A # ys"
  proof -
    have "\<not> is_space c" "is_space CHR 0x09" using digit_char_plain[OF d(1)] d(2) by (simp_all add: is_space_def)
    then show ?thesis by (simp add: c)
  qed
  then show ?thesis
    using digit_char_plain[OF d(1)] d(2) c takeWhile_digits[of n ys] dec_val_nat_dec[of n]
    by (simp add: atoi_def)
qed

text \<open>
  ProcessInfo.cpp, \<open>numThreads\<close>: the number after the first \<open>Threads:\<close> of /proc/self/status is returned.
\<close>

theorem numThreads_exact:
  assumes "\<forall>i < length before. \<not> prefix ''Threads:'' (drop i (before @ ''Threads:'' @ CHR 0x09 # nat_dec n @ CHR 0x0A # rest))"
  shows "numThreads (before @ ''Threads:'' @ CHR 0x09 # nat_dec n @ CHR 0x0A # rest) = int n"
proof -
  have "find_text ''Threads:'' (before @ ''Threads:'' @ CHR 0x09 # nat_dec n @ CHR 0x0A # rest) = Some (length before)"
    using find_text_first[OF assms] by simp
  then show ?thesis using atoi_tab[of n rest] by (simp add: numThreads_def)
qed

text \<open>The first line of the file is the name of the process, which is free: it can pass for the count.\<close>

lemma numThreads_fooled:
  "numThreads (''Name:'' @ CHR 0x09 # ''Threads:9'' @ CHR 0x0A # ''Threads:'' @ CHR 0x09 # ''1'' @ CHR 0x0A # rest) = 9"
  by (simp add: numThreads_def atoi_def is_space_def is_digit_def dec_val_def digit_val_def)

section \<open>Directories\<close>

lemma openedFiles_count: "openedFiles entries = int (length (filter starts_with_digit entries))"
proof -
  have "fold fdDirFilter entries k = k + int (length (filter starts_with_digit entries))" for k
    by (induction entries arbitrary: k) (simp_all add: fdDirFilter_def)
  then show ?thesis by (simp add: openedFiles_def scanDir_def)
qed

lemma process_threads_sorted:
  "sorted (process_threads entries) \<and>
   mset (process_threads entries) = mset (map atoi (filter starts_with_digit entries))"
proof -
  have "fold taskDirFilter entries ps = ps @ map atoi (filter starts_with_digit entries)" for ps
    by (induction entries arbitrary: ps) (simp_all add: taskDirFilter_def)
  then show ?thesis by (simp add: process_threads_def scanDir_def)
qed

text \<open>A stack trace has one line for every frame but the first.\<close>

lemma stackTrace_lines:
  assumes "\<forall>s \<in> set ss. CHR 0x0A \<notin> set s" "\<forall>m r. dm m = Some r \<longrightarrow> CHR 0x0A \<notin> set r"
  shows "length (filter (\<lambda>c. c = CHR 0x0A) (stackTrace (Some dm) (Some ss))) = length ss - 1"
proof -
  have line: "filter (\<lambda>c. c = CHR 0x0A) (stack_line (Some dm) s) = [CHR 0x0A]" if "CHR 0x0A \<notin> set s" for s
  proof -
    have n: "filter (\<lambda>c. c = CHR 0x0A) xs = []" if "CHR 0x0A \<notin> set xs" for xs
      using that by (auto simp: filter_empty_conv)
    have "CHR 0x0A \<notin> set (take k s)" "CHR 0x0A \<notin> set (drop k s)" for k
      using that by (auto dest: in_set_takeD in_set_dropD)
    then show ?thesis
      using assms(2) that by (auto simp: stack_line_def n Let_def split: option.splits)
  qed
  have "length (filter (\<lambda>c. c = CHR 0x0A) (concat (map (stack_line (Some dm)) ss'))) = length ss'"
    if "\<forall>s \<in> set ss'. CHR 0x0A \<notin> set s" for ss'
    using that by (induction ss') (simp_all add: line)
  from this[of "drop 1 ss"] assms(1) show ?thesis by (auto simp: stackTrace_def dest: in_set_dropD)
qed

end
