(* ===== verification/Singletons.thy ===== *)
theory Singletons
  imports Zing_Prelude
begin

text \<open>
  Objects made on first use (src/zing/base/Singleton.h, ThreadLocal.h, ThreadLocalSingleton.h) and
  callbacks that hold their object weakly (WeakCallback.h). \<open>pthread_once\<close> makes the first call run
  \<open>init\<close> while the others wait, so a call of \<open>instance\<close> is one step; thread-specific data belong to
  one thread. \<open>new\<close> returns an address that no living object has.
\<close>

section \<open>Singleton\<close>

text \<open>\<open>sg_made\<close> counts the objects constructed; \<open>sg_atexit\<close> whether \<open>destroy\<close> was registered.\<close>

record singleton =
  sg_done :: bool
  sg_value :: ptr
  sg_made :: nat
  sg_atexit :: bool

definition new_singleton :: singleton where
  "new_singleton = \<lparr>sg_done = False, sg_value = 0, sg_made = 0, sg_atexit = False\<rparr>"

definition sg_init :: "bool \<Rightarrow> ptr \<Rightarrow> singleton \<Rightarrow> singleton" where
  "sg_init has_no_destroy p s =
     (let s = s\<lparr>sg_value := p, sg_made := sg_made s + 1\<rparr>
      in if \<not> has_no_destroy then s\<lparr>sg_atexit := True\<rparr> else s)"

definition sg_instance :: "bool \<Rightarrow> ptr \<Rightarrow> singleton \<Rightarrow> (ptr \<times> singleton) result" where
  "sg_instance has_no_destroy p s =
     (let s = (if sg_done s then s else (sg_init has_no_destroy p s)\<lparr>sg_done := True\<rparr>)
      in if sg_value s \<noteq> 0 then Inr (sg_value s, s) else Inl AssertFail)"

definition sg_destroy :: "singleton \<Rightarrow> singleton" where
  "sg_destroy s = s\<lparr>sg_value := 0\<rparr>"

fun sg_calls :: "bool \<Rightarrow> ptr list \<Rightarrow> singleton \<Rightarrow> (ptr list \<times> singleton) result" where
  "sg_calls nd [] s = Inr ([], s)"
| "sg_calls nd (p # ps) s =
     rbind (sg_instance nd p s) (\<lambda>(q, s). rbind (sg_calls nd ps s) (\<lambda>(qs, s). Inr (q # qs, s)))"

lemma sg_calls_done:
  "sg_done s \<Longrightarrow> sg_value s = v \<Longrightarrow> v \<noteq> 0 \<Longrightarrow> sg_calls nd ps s = Inr (replicate (length ps) v, s)"
  by (induction ps) (simp_all add: sg_instance_def Let_def)

text \<open>Every call gets the object that the first call made.\<close>

lemma singleton_one_object:
  assumes "p \<noteq> 0"
  shows "\<exists>s. sg_calls nd (p # ps) new_singleton = Inr (replicate (Suc (length ps)) p, s) \<and> sg_made s = 1"
proof -
  define s where "s = \<lparr>sg_done = True, sg_value = p, sg_made = 1, sg_atexit = \<not> nd\<rparr>"
  have "sg_instance nd p new_singleton = Inr (p, s)"
    using assms by (simp add: sg_instance_def sg_init_def new_singleton_def s_def Let_def)
  moreover have "sg_calls nd ps s = Inr (replicate (length ps) p, s)"
    using assms by (intro sg_calls_done) (simp_all add: s_def)
  ultimately have "sg_calls nd (p # ps) new_singleton = Inr (replicate (Suc (length ps)) p, s)" by simp
  then show ?thesis by (auto simp: s_def)
qed

text \<open>A call that comes after \<open>destroy\<close>, from the destructor of another static object, fails.\<close>

lemma singleton_after_exit:
  "sg_done s \<Longrightarrow> sg_instance nd p (sg_destroy s) = Inl AssertFail"
  by (simp add: sg_instance_def sg_destroy_def Let_def)

section \<open>Thread-local objects\<close>

text \<open>The value stored under the key by each thread, as in \<open>pthread_getspecific\<close>; 0 for none.\<close>

type_synonym thread_values = "nat \<Rightarrow> ptr"

text \<open>\<open>ret\<close> is what \<open>pthread_setspecific\<close> answers.\<close>

definition tl_value :: "nat \<Rightarrow> int \<Rightarrow> ptr \<Rightarrow> thread_values \<Rightarrow> (ptr \<times> thread_values) result" where
  "tl_value t ret p m =
     (if m t = 0
      then if ret = 0 then Inr (p, m(t := p)) else Inl AssertFail
      else Inr (m t, m))"

text \<open>
  \<open>ThreadLocal\<close>: its key, while there is one, the values under it, and which of the objects made by
  \<open>value\<close> are alive. \<open>ret\<close> is what the call of pthreads answers.
\<close>

record thread_local =
  tl_keyed :: bool
  tl_values :: thread_values
  tl_objects :: "ptr set"

definition new_thread_local :: "int \<Rightarrow> thread_local result" where
  "new_thread_local ret =
     (if ret = 0 then Inr \<lparr>tl_keyed = True, tl_values = (\<lambda>_. 0), tl_objects = {}\<rparr> else Inl AssertFail)"

text \<open>\<open>pthread_key_delete\<close> forgets the values and calls no destructor.\<close>

definition destroy_thread_local :: "int \<Rightarrow> thread_local \<Rightarrow> thread_local result" where
  "destroy_thread_local ret s =
     (if ret = 0 then Inr (s\<lparr>tl_keyed := False, tl_values := (\<lambda>_. 0)\<rparr>) else Inl AssertFail)"

definition tl_get :: "nat \<Rightarrow> int \<Rightarrow> ptr \<Rightarrow> thread_local \<Rightarrow> (ptr \<times> thread_local) result" where
  "tl_get t ret p s =
     rbind (tl_value t ret p (tl_values s)) (\<lambda>(q, m).
       Inr (q, s\<lparr>tl_values := m,
                 tl_objects := (if tl_values s t = 0 then insert p (tl_objects s) else tl_objects s)\<rparr>))"

definition tl_destructor :: "ptr \<Rightarrow> thread_local \<Rightarrow> thread_local result" where
  "tl_destructor x s =
     (if x \<in> tl_objects s then Inr (s\<lparr>tl_objects := tl_objects s - {x}\<rparr>) else Inl Undefined)"

text \<open>At the end of a thread pthreads clears the value and passes it to the destructor of a living key.\<close>

definition tl_thread_end :: "nat \<Rightarrow> thread_local \<Rightarrow> thread_local result" where
  "tl_thread_end t s =
     (if tl_keyed s \<and> tl_values s t \<noteq> 0
      then tl_destructor (tl_values s t) (s\<lparr>tl_values := (tl_values s)(t := 0)\<rparr>)
      else Inr s)"

text \<open>
  While the \<open>ThreadLocal\<close> lives, threads ask for their objects, made at fresh addresses, and end.
\<close>

datatype tl_op = TlGet nat ptr | TlThreadEnd nat

fun tl_op_step :: "tl_op \<Rightarrow> thread_local \<Rightarrow> thread_local result" where
  "tl_op_step (TlGet t p) s = rbind (tl_get t 0 p s) (\<lambda>(q, s). Inr s)"
| "tl_op_step (TlThreadEnd t) s = tl_thread_end t s"

inductive tl_run :: "thread_local \<Rightarrow> bool" where
  tl_created: "new_thread_local 0 = Inr s \<Longrightarrow> tl_run s"
| tl_asks: "tl_run s \<Longrightarrow> p \<noteq> 0 \<Longrightarrow> p \<notin> tl_objects s \<Longrightarrow> tl_op_step (TlGet t p) s = Inr s' \<Longrightarrow> tl_run s'"
| tl_ends: "tl_run s \<Longrightarrow> tl_op_step (TlThreadEnd t) s = Inr s' \<Longrightarrow> tl_run s'"

definition tl_exact :: "thread_local \<Rightarrow> bool" where
  "tl_exact s \<longleftrightarrow> tl_keyed s \<and> tl_objects s = {q. q \<noteq> 0 \<and> (\<exists>t. tl_values s t = q)}
     \<and> (\<forall>t u. tl_values s t = tl_values s u \<longrightarrow> tl_values s t \<noteq> 0 \<longrightarrow> t = u)"

lemma tl_run_exact: "tl_run s \<Longrightarrow> tl_exact s"
proof (induction rule: tl_run.induct)
  case (tl_created s)
  then show ?case by (auto simp: new_thread_local_def tl_exact_def)
next
  case (tl_asks s p t s')
  show ?case
  proof (cases "tl_values s t = 0")
    case True
    then have s': "s' = s\<lparr>tl_values := (tl_values s)(t := p), tl_objects := insert p (tl_objects s)\<rparr>"
      using tl_asks by (simp add: tl_get_def tl_value_def)
    have ex: "tl_keyed s" "tl_objects s = {q. q \<noteq> 0 \<and> (\<exists>t. tl_values s t = q)}"
      and inj: "\<And>u v. tl_values s u = tl_values s v \<Longrightarrow> tl_values s u \<noteq> 0 \<Longrightarrow> u = v"
      using tl_asks.IH by (simp_all add: tl_exact_def)
    have new: "tl_values s u \<noteq> p" for u using tl_asks.hyps(2,3) ex(2) by simp
    have "tl_objects s' = {q. q \<noteq> 0 \<and> (\<exists>u. tl_values s' u = q)}"
    proof (rule set_eqI)
      fix q
      have "q \<in> tl_objects s' \<longleftrightarrow> q = p \<or> (q \<noteq> 0 \<and> (\<exists>u. tl_values s u = q))" unfolding s' by (simp add: ex(2))
      also have "\<dots> \<longleftrightarrow> q \<noteq> 0 \<and> (q = p \<or> (\<exists>u. u \<noteq> t \<and> tl_values s u = q))"
        using tl_asks.hyps(2) True by metis
      also have "\<dots> \<longleftrightarrow> q \<noteq> 0 \<and> (\<exists>u. tl_values s' u = q)" unfolding s' by (simp add: fun_upd_apply) metis
      finally show "q \<in> tl_objects s' \<longleftrightarrow> q \<in> {q. q \<noteq> 0 \<and> (\<exists>u. tl_values s' u = q)}" by simp
    qed
    moreover have "\<forall>u v. tl_values s' u = tl_values s' v \<longrightarrow> tl_values s' u \<noteq> 0 \<longrightarrow> u = v"
    proof (intro allI impI)
      fix u v assume eq: "tl_values s' u = tl_values s' v" "tl_values s' u \<noteq> 0"
      show "u = v"
        using eq inj[of u v] new[of u] new[of v] by (cases "u = t"; cases "v = t") (auto simp: s')
    qed
    moreover have "tl_keyed s'" by (simp add: s' ex(1))
    ultimately show ?thesis unfolding tl_exact_def by blast
  next
    case False
    then have "s' = s" using tl_asks by (simp add: tl_get_def tl_value_def)
    then show ?thesis using tl_asks by simp
  qed
next
  case (tl_ends s t s')
  have ex: "tl_keyed s" "tl_objects s = {q. q \<noteq> 0 \<and> (\<exists>t. tl_values s t = q)}"
    and inj: "\<And>u v. tl_values s u = tl_values s v \<Longrightarrow> tl_values s u \<noteq> 0 \<Longrightarrow> u = v"
    using tl_ends.IH by (simp_all add: tl_exact_def)
  show ?case
  proof (cases "tl_values s t = 0")
    case True
    then show ?thesis using tl_ends by (simp add: tl_thread_end_def)
  next
    case False
    then have "tl_values s t \<in> tl_objects s" using ex(2) by auto
    then have s': "s' = s\<lparr>tl_values := (tl_values s)(t := 0), tl_objects := tl_objects s - {tl_values s t}\<rparr>"
      using tl_ends.hyps(2) False ex(1) by (simp add: tl_thread_end_def tl_destructor_def)
    have "tl_objects s' = {q. q \<noteq> 0 \<and> (\<exists>u. tl_values s' u = q)}"
    proof (rule set_eqI)
      fix q
      have "q \<in> tl_objects s' \<longleftrightarrow> q \<noteq> 0 \<and> (\<exists>u. tl_values s u = q) \<and> q \<noteq> tl_values s t"
        unfolding s' by (simp add: ex(2))
      also have "\<dots> \<longleftrightarrow> q \<noteq> 0 \<and> (\<exists>u. u \<noteq> t \<and> tl_values s u = q)" using inj by metis
      also have "\<dots> \<longleftrightarrow> q \<noteq> 0 \<and> (\<exists>u. tl_values s' u = q)"
        by (intro conj_cong refl iff_exI) (auto simp: s')
      finally show "q \<in> tl_objects s' \<longleftrightarrow> q \<in> {q. q \<noteq> 0 \<and> (\<exists>u. tl_values s' u = q)}" by simp
    qed
    moreover have "\<forall>u v. tl_values s' u = tl_values s' v \<longrightarrow> tl_values s' u \<noteq> 0 \<longrightarrow> u = v"
    proof (intro allI impI)
      fix u v assume eq: "tl_values s' u = tl_values s' v" "tl_values s' u \<noteq> 0"
      show "u = v" using eq inj[of u v] by (cases "u = t"; cases "v = t") (auto simp: s')
    qed
    moreover have "tl_keyed s'" by (simp add: s' ex(1))
    ultimately show ?thesis unfolding tl_exact_def by blast
  qed
qed

text \<open>
  The living objects are exactly those of the threads that asked and have not ended, one for each;
  no step fails, and a thread that ends takes its object along.
\<close>

lemma thread_local_exact:
  assumes "tl_run s"
  shows "tl_objects s = {q. q \<noteq> 0 \<and> (\<exists>t. tl_values s t = q)} \<and> inj_on (tl_values s) {t. tl_values s t \<noteq> 0}
    \<and> (\<exists>s'. tl_thread_end t s = Inr s' \<and> tl_objects s' = tl_objects s - {tl_values s t} \<and> tl_values s' t = 0)"
  using tl_run_exact[OF assms] unfolding tl_exact_def inj_on_def
  by (cases "tl_values s t = 0") (auto simp: tl_thread_end_def tl_destructor_def)

text \<open>But the objects of threads that outlive the \<open>ThreadLocal\<close> are never deleted.\<close>

lemma thread_local_leaks:
  assumes "tl_run s" and "destroy_thread_local 0 s = Inr s'"
  shows "tl_objects s' = {q. q \<noteq> 0 \<and> (\<exists>t. tl_values s t = q)} \<and> tl_thread_end t s' = Inr s'"
  using tl_run_exact[OF assms(1)] assms(2) by (auto simp: destroy_thread_local_def tl_thread_end_def tl_exact_def)

lemma thread_local_leaks_witness:
  "\<exists>s s'. tl_run s \<and> destroy_thread_local 0 s = Inr s' \<and> tl_objects s' = {64} \<and> tl_thread_end 0 s' = Inr s'"
proof -
  let ?s = "\<lparr>tl_keyed = True, tl_values = (\<lambda>_. 0), tl_objects = {}\<rparr>"
  let ?s1 = "?s\<lparr>tl_values := (tl_values ?s)(0 := 64), tl_objects := {64}\<rparr>"
  have "tl_run ?s" by (rule tl_created) (simp add: new_thread_local_def)
  then have "tl_run ?s1" by (rule tl_asks[where p = 64 and t = 0]) (simp_all add: tl_get_def tl_value_def)
  moreover obtain s' where d: "destroy_thread_local 0 ?s1 = Inr s'" by (simp add: destroy_thread_local_def)
  moreover from d have "tl_objects s' = {64}" by (auto simp: destroy_thread_local_def)
  ultimately show ?thesis using thread_local_leaks[of ?s1 s' 0] by blast
qed

section \<open>Thread-local singletons\<close>

text \<open>
  \<open>ThreadLocalSingleton\<close>: the \<open>__thread\<close> pointer, and the key of the deleter with its values. Without
  a key, the calls of pthreads are undefined.
\<close>

record thread_singleton =
  tls_value :: thread_values
  tls_keyed :: bool
  tls_key :: thread_values

definition new_thread_singleton :: thread_singleton where
  "new_thread_singleton = \<lparr>tls_value = (\<lambda>_. 0), tls_keyed = False, tls_key = (\<lambda>_. 0)\<rparr>"

text \<open>Constructor and destructor of the static deleter.\<close>

definition new_deleter :: "thread_singleton \<Rightarrow> thread_singleton" where
  "new_deleter s = s\<lparr>tls_keyed := True, tls_key := (\<lambda>_. 0)\<rparr>"

definition destroy_deleter :: "thread_singleton \<Rightarrow> thread_singleton" where
  "destroy_deleter s = s\<lparr>tls_keyed := False, tls_key := (\<lambda>_. 0)\<rparr>"

definition deleter_set :: "nat \<Rightarrow> ptr \<Rightarrow> thread_singleton \<Rightarrow> thread_singleton result" where
  "deleter_set t newObj s =
     (if \<not> tls_keyed s then Inl Undefined
      else if tls_key s t = 0 then Inr (s\<lparr>tls_key := (tls_key s)(t := newObj)\<rparr>)
      else Inl AssertFail)"

definition tls_instance :: "nat \<Rightarrow> ptr \<Rightarrow> thread_singleton \<Rightarrow> (ptr \<times> thread_singleton) result" where
  "tls_instance t p s =
     (if tls_value s t = 0
      then rbind (deleter_set t p (s\<lparr>tls_value := (tls_value s)(t := p)\<rparr>)) (\<lambda>s. Inr (tls_value s t, s))
      else Inr (tls_value s t, s))"

definition tls_pointer :: "nat \<Rightarrow> thread_singleton \<Rightarrow> ptr" where
  "tls_pointer t s = tls_value s t"

text \<open>At the end of a thread pthreads clears the key and passes the value to the destructor.\<close>

definition tls_destructor :: "nat \<Rightarrow> ptr \<Rightarrow> thread_singleton \<Rightarrow> thread_singleton result" where
  "tls_destructor t obj s =
     (if obj = tls_value s t then Inr (s\<lparr>tls_value := (tls_value s)(t := 0)\<rparr>) else Inl AssertFail)"

definition tls_thread_end :: "nat \<Rightarrow> thread_singleton \<Rightarrow> thread_singleton result" where
  "tls_thread_end t s =
     (if tls_keyed s \<and> tls_key s t \<noteq> 0
      then tls_destructor t (tls_key s t) (s\<lparr>tls_key := (tls_key s)(t := 0)\<rparr>) else Inr s)"

datatype tls_op = TlsInstance nat ptr | TlsEnd nat

fun tls_step :: "tls_op \<Rightarrow> thread_singleton \<Rightarrow> thread_singleton result" where
  "tls_step (TlsInstance t p) s = rbind (tls_instance t p s) (\<lambda>(q, s). Inr s)"
| "tls_step (TlsEnd t) s = tls_thread_end t s"

fun tls_op_ok :: "tls_op \<Rightarrow> bool" where
  "tls_op_ok (TlsInstance t p) = (p \<noteq> 0)"
| "tls_op_ok (TlsEnd t) = True"

text \<open>The two records of a thread's object agree in every history, so neither assertion fails.\<close>

lemma tls_history_from:
  assumes "\<forall>op \<in> set ops. tls_op_ok op" "tls_value s = tls_key s" "tls_keyed s"
  shows "\<exists>s'. rfold tls_step ops s = Inr s' \<and> tls_value s' = tls_key s' \<and> tls_keyed s'"
  using assms
proof (induction ops arbitrary: s)
  case (Cons op ops)
  have "\<exists>s1. tls_step op s = Inr s1 \<and> tls_value s1 = tls_key s1 \<and> tls_keyed s1"
    using Cons.prems
    by (cases op) (auto simp: tls_instance_def deleter_set_def tls_thread_end_def tls_destructor_def)
  with Cons show ?case by fastforce
qed simp

lemma thread_singleton_history:
  assumes "\<forall>op \<in> set ops. tls_op_ok op"
  shows "\<exists>s'. rfold tls_step ops (new_deleter new_thread_singleton) = Inr s' \<and> tls_value s' = tls_key s'"
  using tls_history_from[OF assms, of "new_deleter new_thread_singleton"]
  by (auto simp: new_deleter_def new_thread_singleton_def)

text \<open>The pointer that a thread reads is the object it was given, until it ends.\<close>

lemma tls_instance_pointer:
  "tls_instance t p s = Inr (q, s') \<Longrightarrow> tls_pointer t s' = q"
  by (auto simp: tls_instance_def deleter_set_def tls_pointer_def rbind_eq_Inr_iff split: if_splits)

text \<open>Each thread keeps its own object, whatever the other threads do.\<close>

lemma thread_local_own:
  assumes "tl_value t r p m = Inr (q, m')" "tl_value u r' p' m' = Inr (q', m'')" "t \<noteq> u" "p \<noteq> 0"
  shows "tl_value t r'' p'' m'' = Inr (q, m'')"
  using assms by (auto simp: tl_value_def split: if_splits)

section \<open>Weak callbacks\<close>

text \<open>\<open>weak_ptr::lock\<close>: the object while it lives, and then nothing; the callback does nothing without it.\<close>

definition weak_call :: "('o \<Rightarrow> 'a \<Rightarrow> 's \<Rightarrow> 's) \<Rightarrow> 'o option \<Rightarrow> 'a \<Rightarrow> 's \<Rightarrow> 's" where
  "weak_call f locked args s = (case locked of Some ob \<Rightarrow> f ob args s | None \<Rightarrow> s)"

end
