(* ===== verification/ConnectionProps.thy ===== *)
theory ConnectionProps
  imports TcpConnection
begin

text \<open>
  What every TCP connection (TcpConnection.thy) does, whatever the kernel and the user's callbacks
  do, and what it does when its surroundings break the rules.
\<close>

section \<open>The properties of a connection\<close>

text \<open>
  C1. No byte is lost, repeated or reordered. In every state a connection can reach, the bytes
  that the kernel took followed by those in the output buffer are exactly the messages that the
  connection took over, in order; while the connection is up it waits for write events exactly
  when the buffer is not empty; and until the connection is down, a write side that was shut down
  had sent everything taken over before that.
\<close>

theorem connection_stream:
  assumes "conn_reach env c" and "write_ok env" and "scripts_ok env"
  shows "tc_sent c @ contents (tc_outputBuffer c) = tc_accepted c
    \<and> (tc_state c \<in> {kConnected, kDisconnecting} \<longrightarrow>
         tc_isWriting c = (contents (tc_outputBuffer c) \<noteq> []))
    \<and> (tc_state c \<noteq> kDisconnected \<longrightarrow> (\<forall>a. tc_shutAt c = Some a \<longrightarrow> (\<exists>more. tc_sent c = a @ more)))"
  using conn_reach_good[OF assms]
  by (simp add: conn_good_def conn_inv_def stream_ok_def out_ok_def split: if_splits)

text \<open>An echo server over a kernel that takes three bytes at a time.\<close>

definition echo_env :: conn_env where
  "echo_env = \<lparr>env_write = (\<lambda>_ ds. Wrote (min 3 (length ds))), on_connection = (\<lambda>_. []),
     on_message = (\<lambda>_. [SendInput]), on_writeComplete = (\<lambda>_. [Shutdown]), on_highWaterMark = (\<lambda>_ _. [])\<rparr>"

definition run_events :: "conn_env \<Rightarrow> conn_event list \<Rightarrow> tcp_connection result" where
  "run_events env evs =
     rbind (new_tcp_connection 1 77 ''echo'' 5 True False) (rfold (conn_step env) evs)"

lemma echo_env_ok: "write_ok echo_env" "scripts_ok echo_env"
  by (simp_all add: write_ok_def scripts_ok_def echo_env_def)

lemma echo_new: "\<exists>c. new_tcp_connection 1 77 ''echo'' 5 True False = Inr c"
proof -
  have k: "kInitialSize \<le> max_vec - kCheapPrepend"
    by (simp add: kInitialSize_def max_vec_def kCheapPrepend_def)
  obtain b where "newBuffer kInitialSize = Inr b"
    using k by (rule newBuffer_ok)
  then show ?thesis by (simp add: new_tcp_connection_def)
qed

definition echo_conn :: tcp_connection where
  "echo_conn = (case new_tcp_connection 1 77 ''echo'' 5 True False of Inr c \<Rightarrow> c | Inl _ \<Rightarrow> undefined)"

lemma echo_conn_new: "new_tcp_connection 1 77 ''echo'' 5 True False = Inr echo_conn"
  using echo_new by (auto simp: echo_conn_def)

text \<open>It is established, and the user sends five bytes, of which the kernel takes three.\<close>

definition echo_up :: tcp_connection where
  "echo_up = notify Up (tc_mask EnableReading ((setState kConnected echo_conn)
     \<lparr>tc_channel := ch_tie_to 0 (tc_channel echo_conn)\<rparr>))"

lemma new_tcp_connection_fields:
  assumes "new_tcp_connection me loop name sockfd hasWC hasHWM = Inr c"
  shows "tc_state c = kConnecting" "tc_threadId c = me" "tc_pending c = []" "tc_sent c = []"
    "tc_accepted c = []" "tc_channel c = new_channel loop sockfd" "tc_shutAt c = None" "tc_writes c = 0"
    "tc_hasWriteComplete c = hasWC" "tc_timers c = 0" "tc_reading c"
    "newBuffer kInitialSize = Inr (tc_outputBuffer c)" "tc_highWaterMark c = 64 * 1024 * 1024"
  using assms by (auto simp: new_tcp_connection_def rbind_eq_Inr_iff split: if_splits)

lemmas echo_fields = new_tcp_connection_fields[OF echo_conn_new]

lemma echo_up_step: "conn_step echo_env Establish echo_conn = Inr echo_up"
  by (simp add: echo_fields echo_up_def connectEstablished_def tc_assertInLoopThread_def Let_def run_script_def
      echo_env_def setState_def)

lemma echo_up_reach: "conn_reach echo_env echo_up"
  by (rule conn_reach.step[OF conn_reach.init[OF echo_conn_new] _ echo_up_step]) (simp add: echo_fields)

lemma echo_up_fields:
  "tc_state echo_up = kConnected" "tc_threadId echo_up = 1" "tc_pending echo_up = []"
  "tc_sent echo_up = []" "tc_accepted echo_up = []" "tc_writes echo_up = 0" "tc_hasWriteComplete echo_up"
  "tc_shutAt echo_up = None" "\<not> tc_isWriting echo_up" "\<not> isNoneEvent (tc_channel echo_up)"
  by (simp_all add: echo_up_def echo_fields notify_def setState_def tc_mask_def tc_isWriting_def new_channel_def
      ch_tie_to_def isWriting_def isNoneEvent_def has_event_def event_defs ch_mask_def)

lemma echo_up_good: "conn_good echo_up"
  by (rule conn_reach_good[OF echo_up_reach echo_env_ok])

lemma echo_up_empty: "contents (tc_outputBuffer echo_up) = []"
  using echo_up_good echo_up_fields by (simp add: conn_good_def conn_inv_def out_ok_def)

lemma echo_send:
  obtains c where "conn_step echo_env (CallFrom 1 (Send [1,2,3,4,5])) echo_up = Inr c"
    "tc_accepted c = [1,2,3,4,5]" "tc_sent c = [1,2,3]" "tc_isWriting c" "tc_state c = kConnected"
    "tc_pending c = []" "tc_threadId c = 1" "tc_shutAt c = None"
proof -
  let ?b = "tc_outputBuffer echo_up"
  have k: "kInitialSize \<le> max_vec - kCheapPrepend"
    by (simp add: kInitialSize_def max_vec_def kCheapPrepend_def)
  have eq: "?b = tc_outputBuffer echo_conn" by (simp add: echo_up_def notify_def setState_def)
  obtain b where b: "newBuffer kInitialSize = Inr b" "buf_inv b" "contents b = []" "writableBytes b = kInitialSize"
    using k by (rule newBuffer_ok)
  then have o: "buf_inv ?b" "contents ?b = []" "length [4, 5 :: byte] \<le> writableBytes ?b"
    using echo_fields(12) eq by (simp_all add: kInitialSize_def)
  obtain b' where "append [4, 5] ?b = Inr b'"
    by (rule append_in_place[OF o(1,3)])
  then have "readableBytes ?b = 0" "append_raw [4, 5] (Suc (Suc 0)) ?b = Inr b'"
    using o by (simp_all add: append_def readable_nil)
  moreover have "tc_highWaterMark echo_up = 64 * 1024 * 1024"
    using echo_fields(13) by (simp add: echo_up_def notify_def setState_def tc_mask_def)
  ultimately have "conn_step echo_env (CallFrom 1 (Send [1,2,3,4,5])) echo_up = Inr (tc_mask EnableWriting
      (echo_up\<lparr>tc_writes := 1, tc_sent := [1,2,3], tc_accepted := [1,2,3,4,5], tc_outputBuffer := b'\<rparr>))"
    using echo_up_fields
    by (simp add: tc_send_def sendInLoop_def tc_assertInLoopThread_def direct_write_def echo_env_def Let_def)
  then show ?thesis
    by (rule that) (simp_all add: echo_up_fields)
qed

lemma echo_send_reach:
  obtains c where "conn_reach echo_env c" "tc_accepted c = [1,2,3,4,5]" "tc_sent c = [1,2,3]"
    "tc_state c = kConnected" "tc_pending c = []" "tc_threadId c = 1" "tc_shutAt c = None"
proof -
  obtain c where c: "conn_step echo_env (CallFrom 1 (Send [1,2,3,4,5])) echo_up = Inr c"
    "tc_accepted c = [1,2,3,4,5]" "tc_sent c = [1,2,3]" "tc_state c = kConnected" "tc_pending c = []"
    "tc_threadId c = 1" "tc_shutAt c = None"
    by (rule echo_send)
  have "conn_reach echo_env c"
    by (rule conn_reach.step[OF echo_up_reach _ c(1)]) (simp add: echo_up_fields max_vec_def)
  then show ?thesis using that c by blast
qed

lemma connection_stream_witness:
  "\<exists>c. conn_reach echo_env c \<and> tc_sent c = [1, 2, 3] \<and> contents (tc_outputBuffer c) = [4, 5] \<and> tc_isWriting c"
proof -
  obtain c where c: "conn_reach echo_env c" "tc_accepted c = [1,2,3,4,5]" "tc_sent c = [1,2,3]"
    "tc_state c = kConnected"
    by (rule echo_send_reach)
  show ?thesis using connection_stream[OF c(1) echo_env_ok] c by auto
qed



text \<open>
  The user's connection callback runs exactly once with the connection up, and exactly once,
  later, with the connection down: its invocations tell the state.
\<close>

theorem connection_notices:
  assumes "conn_reach env c" and "write_ok env" and "scripts_ok env"
  shows "filter (\<lambda>n. n = Up \<or> n = Down) (tc_notices c) =
      (case tc_state c of kConnecting \<Rightarrow> [] | kConnected \<Rightarrow> [Up] | kDisconnecting \<Rightarrow> [Up]
       | kDisconnected \<Rightarrow> [Up, Down])"
  using conn_reach_good[OF assms] by (simp add: conn_good_def conn_inv_def notices_ok_def)

lemma connection_notices_witness:
  "filter (\<lambda>n. n = Up \<or> n = Down) (tc_notices echo_up) = [Up]"
  using connection_notices[OF echo_up_reach echo_env_ok] by (simp add: echo_up_fields)

text \<open>
  C29. A shutdown is never forgotten. A connection that is closing has shut its write side down, or
  is still sending and waits for write events, or has a task or a timer queued that will close it.
\<close>

theorem shutdown_not_forgotten:
  assumes "conn_reach env c" and "write_ok env" and "scripts_ok env" and "tc_state c = kDisconnecting"
  shows "tc_isWriting c \<and> contents (tc_outputBuffer c) \<noteq> [] \<or> tc_shutAt c \<noteq> None
    \<or> ShutdownTask \<in> set (tc_pending c) \<or> ForceCloseTask \<in> set (tc_pending c) \<or> 0 < tc_timers c"
  using conn_reach_good[OF assms(1-3)] assms(4) by (auto simp: conn_good_def conn_inv_def shut_ok_def out_ok_def)

lemma shutdown_step:
  assumes "conn_reach env c" "tc_state c = kConnected"
  shows "conn_step env (CallFrom (tc_threadId c) Shutdown) c
    = Inr (if tc_isWriting c then setState kDisconnecting c else shutdownWrite (setState kDisconnecting c))"
  using assms(2) by (simp add: tc_shutdown_def shutdownInLoop_def tc_assertInLoopThread_def setState_def Let_def)

lemma echo_shutdown:
  obtains c where "conn_reach echo_env c" "tc_state c = kDisconnecting" "tc_pending c = []" "tc_shutAt c = None"
proof -
  obtain c where c: "conn_reach echo_env c" "tc_state c = kConnected" "tc_pending c = []" "tc_threadId c = 1"
    "tc_accepted c = [1,2,3,4,5]" "tc_sent c = [1,2,3]" "tc_shutAt c = None"
    by (rule echo_send_reach)
  have w: "tc_isWriting c"
    using conn_reach_good[OF c(1) echo_env_ok] c by (auto simp: conn_good_def conn_inv_def out_ok_def stream_ok_def)
  have "conn_reach echo_env (setState kDisconnecting c)"
    using conn_reach.step[OF c(1) _ shutdown_step[OF c(1,2)]] c w by simp
  then show ?thesis by (rule that) (simp_all add: setState_def c)
qed

lemma shutdown_not_forgotten_witness:
  "\<exists>c. conn_reach echo_env c \<and> tc_state c = kDisconnecting \<and> tc_pending c = [] \<and> tc_shutAt c = None
     \<and> (tc_isWriting c \<and> contents (tc_outputBuffer c) \<noteq> [] \<or> 0 < tc_timers c)"
proof -
  obtain c where c: "conn_reach echo_env c" "tc_state c = kDisconnecting" "tc_pending c = []" "tc_shutAt c = None"
    by (rule echo_shutdown)
  show ?thesis using shutdown_not_forgotten[OF c(1) echo_env_ok c(2)] c by auto
qed

lemma sendInLoop_accepts:
  assumes "tc_state c \<noteq> kDisconnected" and "me = tc_threadId c"
    and alive: "\<forall>e. env_write env (tc_writes c) data = WriteErr e \<longrightarrow> e \<notin> {EPIPE, ECONNRESET}"
    and ok: "sendInLoop env me data c = Inr c'"
  shows "tc_accepted c' = tc_accepted c @ data"
proof -
  have q: "tc_accepted (queueTask t x) = tc_accepted x" for t x by (simp add: queueTask_def)
  have d: "tc_accepted c1 = tc_accepted c \<and> \<not> f" if "direct_write env data c = (n, r, f, c1)" for n r f c1
    using that alive by (auto simp: direct_write_def Let_def q split: write_result.splits if_splits)
  show ?thesis
    using ok assms(1,2) d
    by (auto simp: sendInLoop_def tc_assertInLoopThread_def Let_def q rbind_eq_Inr_iff
        split: if_splits prod.splits)
qed

text \<open>
  What \<open>send\<close> does on the loop's thread. As long as the kernel does not report that the peer is
  gone, the whole message is taken over: the bytes sent and those waiting in the output buffer
  grow together by exactly the message.
\<close>

theorem send_takes_message:
  assumes "conn_reach env c" and "write_ok env" and "scripts_ok env"
    and "tc_state c = kConnected" and "length data \<le> max_vec"
    and "\<forall>e. env_write env (tc_writes c) data = WriteErr e \<longrightarrow> e \<notin> {EPIPE, ECONNRESET}"
  shows "(\<exists>c'. tc_send env (tc_threadId c) data c = Inr c' \<and> tc_accepted c' = tc_accepted c @ data
            \<and> tc_sent c' @ contents (tc_outputBuffer c') = tc_sent c @ contents (tc_outputBuffer c) @ data)
         \<or> tc_send env (tc_threadId c) data c = Inl LengthError"
proof -
  have good: "conn_inv c" using conn_reach_good[OF assms(1-3)] by (simp add: conn_good_def)
  have "rpost {LengthError} (keeps c) (sendInLoop env (tc_threadId c) data c)"
    by (rule sendInLoop_keeps[OF good _ refl assms(2,5)]) (simp add: assms(4))
  then show ?thesis
    using sendInLoop_accepts[OF _ refl assms(6)] assms(4) good
    by (cases "sendInLoop env (tc_threadId c) data c")
      (auto simp: tc_send_def keeps_def conn_inv_def stream_ok_def)
qed

lemma send_takes_message_witness:
  "(\<exists>c'. tc_send echo_env 1 [1, 2, 3, 4, 5] echo_up = Inr c' \<and> tc_accepted c' = [1, 2, 3, 4, 5]
       \<and> tc_sent c' @ contents (tc_outputBuffer c') = [1, 2, 3, 4, 5])
   \<or> tc_send echo_env 1 [1, 2, 3, 4, 5] echo_up = Inl LengthError"
  using send_takes_message[OF echo_up_reach echo_env_ok echo_up_fields(1), of "[1, 2, 3, 4, 5]"]
  by (simp add: echo_up_fields echo_up_empty max_vec_def echo_env_def)

section \<open>When the surroundings break the rules\<close>

text \<open>
  \<open>connectDestroyed\<close> takes a connection out of the poller only when it is up or down, not while it
  is closing: when the user has asked for a shutdown and the server is destroyed before the peer
  closes, the channel still has events and the assertion of \<open>Channel::remove\<close> fails.
\<close>

theorem destroy_while_closing_fails:
  assumes "conn_reach env c" and "tc_state c = kConnected" and "\<not> isNoneEvent (tc_channel c)"
  shows "rbind (conn_step env (CallFrom (tc_threadId c) Shutdown) c) (conn_step env Destroy) = Inl AssertFail"
  unfolding shutdown_step[OF assms(1,2)] using assms(3)
  by (auto simp: connectDestroyed_def tc_assertInLoopThread_def setState_def shutdownWrite_def split: option.splits)

lemma destroy_while_closing_fails_witness:
  "rbind (conn_step echo_env (CallFrom 1 Shutdown) echo_up) (conn_step echo_env Destroy) = Inl AssertFail"
  using destroy_while_closing_fails[OF echo_up_reach] by (simp add: echo_up_fields del: conn_step.simps)

lemma dispatch_POLLIN: "dispatch POLLIN = [OnRead]"
  by (simp add: dispatch_def has_event_def event_defs)

lemma read_end_when_down:
  assumes "buf_inv (tc_inputBuffer c)" "tc_state c = kDisconnected"
  shows "conn_step env (Ready POLLIN (ReadData [])) c = Inl AssertFail"
  using readFd_direct[OF assms(1), of "[]"] assms(2)
  by (auto simp: dispatch_POLLIN tc_handleRead_def tc_assertInLoopThread_def handleClose_def Let_def
      simp del: readFd.simps)

text \<open>
  \<open>startRead\<close> does not look at the state: called after the connection went down it watches the
  channel again, and the end of the stream is then handled a second time, where the assertion of
  \<open>handleClose\<close> fails.
\<close>

theorem restart_after_close_fails:
  assumes "conn_reach env c" and "write_ok env" and "scripts_ok env" and "tc_state c = kDisconnected"
  shows "rbind (conn_step env (CallFrom (tc_threadId c) StartRead) c)
      (conn_step env (Ready POLLIN (ReadData []))) = Inl AssertFail"
proof -
  have inv: "conn_inv c" using conn_reach_good[OF assms(1-3)] by (simp add: conn_good_def)
  then have "\<not> isReading (tc_channel c)"
    using assms(4) by (simp add: conn_inv_def out_ok_def isReading_def isNoneEvent_def has_event_def event_defs)
  then have start: "conn_step env (CallFrom (tc_threadId c) StartRead) c
      = Inr ((tc_mask EnableReading c)\<lparr>tc_reading := True\<rparr>)"
    by (simp add: run_in_loop_def startReadInLoop_def tc_assertInLoopThread_def)
  show ?thesis
    unfolding start rbind_Inr by (rule read_end_when_down) (use inv assms(4) in \<open>simp_all add: conn_inv_def\<close>)
qed

lemma close_when_up:
  assumes "conn_inv c" and "tc_state c = kConnected" and "\<And>x. on_connection env x = []"
  obtains c' where "conn_step env (Ready POLLIN (ReadData [])) c = Inr c'" "tc_state c' = kDisconnected"
    "isNoneEvent (tc_channel c')" "tc_threadId c' = tc_threadId c" "tc_pending c' = tc_pending c"
proof -
  have "buf_inv (tc_inputBuffer c)" using assms(1) by (simp add: conn_inv_def)
  then obtain b where b: "readFd (ReadData []) (tc_inputBuffer c) = Inr (0, None, b)"
    using readFd_direct[of "tc_inputBuffer c" "[]"] by auto
  define c' where "c' = notify Closed (notify Down (tc_mask DisableAll (setState kDisconnected
      (c\<lparr>tc_inputBuffer := b\<rparr>))))"
  have "conn_step env (Ready POLLIN (ReadData [])) c = Inr c'"
    using assms(2,3) b
    by (simp add: c'_def dispatch_POLLIN tc_handleRead_def tc_assertInLoopThread_def handleClose_def
        run_script_def setState_def Let_def del: readFd.simps)
  then show ?thesis by (rule that) (simp_all add: c'_def notify_def setState_def tc_mask_def)
qed

lemma echo_close:
  obtains c where "conn_reach echo_env c" "tc_state c = kDisconnected" "tc_threadId c = 1"
proof -
  have inv: "conn_inv echo_up" using echo_up_good by (simp add: conn_good_def)
  have quiet: "on_connection echo_env x = []" for x by (simp add: echo_env_def)
  obtain c where c: "conn_step echo_env (Ready POLLIN (ReadData [])) echo_up = Inr c"
    "tc_state c = kDisconnected" "tc_threadId c = tc_threadId echo_up"
    by (rule close_when_up[OF inv echo_up_fields(1) quiet])
  have "legal_event echo_up (Ready POLLIN (ReadData []))"
    by (simp add: echo_up_fields revents_ok_def dispatch_POLLIN readv_ok_def)
  from conn_reach.step[OF echo_up_reach this c(1)] show ?thesis
    by (rule that) (simp_all add: c echo_up_fields)
qed

lemma restart_after_close_fails_witness:
  "\<exists>c. tc_state c = kDisconnected \<and> rbind (conn_step echo_env (CallFrom 1 StartRead) c)
      (conn_step echo_env (Ready POLLIN (ReadData []))) = Inl AssertFail"
proof -
  obtain c where c: "conn_reach echo_env c" "tc_state c = kDisconnected" "tc_threadId c = 1"
    by (rule echo_close)
  show ?thesis using restart_after_close_fails[OF c(1) echo_env_ok c(2)] c by metis
qed

text \<open>
  \<open>shutdown\<close> called in another thread looks at the state and changes it in two steps (a comment asks
  for compare and swap); the rest of the development takes them as one. This is its second half.
\<close>

definition tc_shutdown_rest :: "int \<Rightarrow> tcp_connection \<Rightarrow> tcp_connection result" where
  "tc_shutdown_rest me c =
    (let c' = setState kDisconnecting c
     in if me = tc_threadId c' then shutdownInLoop me c' else Inr (queueTask ShutdownTask c'))"

lemma tc_shutdown_split:
  "tc_shutdown me c = (if tc_state c = kConnected then tc_shutdown_rest me c else Inr c)"
  by (simp add: tc_shutdown_def tc_shutdown_rest_def)

text \<open>
  C37. So when the peer closes between the two halves, the state goes back from \<open>kDisconnected\<close> to
  \<open>kDisconnecting\<close>, nothing changes it again, and the assertion of the destructor fails.
\<close>

theorem shutdown_race_fails:
  assumes "conn_reach env c" and "write_ok env" and "scripts_ok env" and "\<And>x. on_connection env x = []"
    and "tc_state c = kConnected" and "t \<noteq> tc_threadId c"
  shows "rbind (conn_step env (Ready POLLIN (ReadData [])) c) (\<lambda>c1.
      rbind (tc_shutdown_rest t c1) (\<lambda>c2.
      rbind (conn_step env Destroy c2) destroy_tcp_connection)) = Inl AssertFail"
proof -
  have inv: "conn_inv c" using conn_reach_good[OF assms(1-3)] by (simp add: conn_good_def)
  obtain c1 where c1: "conn_step env (Ready POLLIN (ReadData [])) c = Inr c1" "tc_state c1 = kDisconnected"
    "isNoneEvent (tc_channel c1)" "tc_threadId c1 = tc_threadId c"
    by (rule close_when_up[OF inv assms(5,4)])
  have "rbind (tc_shutdown_rest t c1) (\<lambda>c2. rbind (conn_step env Destroy c2) destroy_tcp_connection) = Inl AssertFail"
    using c1(2-4) assms(6)
    by (simp add: tc_shutdown_rest_def setState_def queueTask_def connectDestroyed_def tc_assertInLoopThread_def
        destroy_tcp_connection_def)
  then show ?thesis using c1(1) by (simp del: conn_step.simps)
qed

lemma shutdown_race_fails_witness:
  "rbind (conn_step echo_env (Ready POLLIN (ReadData [])) echo_up) (\<lambda>c1.
      rbind (tc_shutdown_rest 2 c1) (\<lambda>c2.
      rbind (conn_step echo_env Destroy c2) destroy_tcp_connection)) = Inl AssertFail"
  by (rule shutdown_race_fails[OF echo_up_reach echo_env_ok]) (simp_all add: echo_up_fields echo_env_def)

end
