(* ===== verification/EchoServer.thy ===== *)
theory EchoServer
  imports ConnectionProps
begin

text \<open>
  The echo server (src/examples/echo/echo.cpp) on the model of a connection: the callbacks that the
  program installs, the bytes that come back to a client, and the default callbacks of the library
  (src/zing/net/TcpConnection.cpp), which throw the bytes away. The log lines are in
  EchoMain.thy.
\<close>

section \<open>The program\<close>

text \<open>It only logs.\<close>

definition echo_onConnection :: "tcp_connection \<Rightarrow> conn_call list" where
  "echo_onConnection c = []"

text \<open>\<open>msg = buf->retrieveAllAsString(); conn->send(msg)\<close>\<close>

definition echo_onMessage :: "tcp_connection \<Rightarrow> conn_call list" where
  "echo_onMessage c =
    (case retrieveAllAsString (tc_inputBuffer c) of
       Inr (msg, _) \<Rightarrow> [RetrieveInput (readableBytes (tc_inputBuffer c)), Send msg]
     | Inl _ \<Rightarrow> [RetrieveInput (readableBytes (tc_inputBuffer c))])"

text \<open>The server installs these two callbacks; \<open>wr\<close> is what \<open>write\<close> does.\<close>

definition echo_program :: "(nat \<Rightarrow> byte list \<Rightarrow> write_result) \<Rightarrow> conn_env" where
  "echo_program wr = \<lparr>env_write = wr, on_connection = echo_onConnection, on_message = echo_onMessage,
     on_writeComplete = (\<lambda>_. []), on_highWaterMark = (\<lambda>_ _. [])\<rparr>"

text \<open>The callbacks of a server that installs none.\<close>

definition defaultConnectionCallback :: "tcp_connection \<Rightarrow> conn_call list" where
  "defaultConnectionCallback c = []"

definition defaultMessageCallback :: "tcp_connection \<Rightarrow> conn_call list" where
  "defaultMessageCallback c = [RetrieveInput (readableBytes (tc_inputBuffer c))]"

definition default_program :: "(nat \<Rightarrow> byte list \<Rightarrow> write_result) \<Rightarrow> conn_env" where
  "default_program wr = \<lparr>env_write = wr, on_connection = defaultConnectionCallback,
     on_message = defaultMessageCallback, on_writeComplete = (\<lambda>_. []), on_highWaterMark = (\<lambda>_ _. [])\<rparr>"

section \<open>Histories of a served connection\<close>

text \<open>The bytes that an event brings.\<close>

fun received_by :: "conn_event \<Rightarrow> byte list" where
  "received_by (Ready revt (ReadData ds)) = (if OnRead \<in> set (dispatch revt) then ds else [])"
| "received_by ev = []"

fun is_call :: "conn_event \<Rightarrow> bool" where
  "is_call (CallFrom t call) = True"
| "is_call ev = False"

text \<open>
  A connection that the server made, which sets neither a write-complete nor a high-water-mark
  callback, after bytes \<open>ds\<close> were received. Nothing outside the callbacks calls it.
\<close>

inductive served :: "conn_env \<Rightarrow> byte list \<Rightarrow> tcp_connection \<Rightarrow> bool" for env where
  accept: "new_tcp_connection me loop name sockfd False False = Inr c \<Longrightarrow> served env [] c"
| event: "served env ds c \<Longrightarrow> legal_event c ev \<Longrightarrow> \<not> is_call ev \<Longrightarrow> conn_step env ev c = Inr c' \<Longrightarrow>
    served env (ds @ received_by ev) c'"

lemma served_reach: "served env ds c \<Longrightarrow> conn_reach env c"
  by (induction rule: served.induct) (auto intro: conn_reach.intros)

text \<open>No write reports that the peer is gone.\<close>

definition never_reset :: "(nat \<Rightarrow> byte list \<Rightarrow> write_result) \<Rightarrow> bool" where
  "never_reset wr \<longleftrightarrow> (\<forall>i ds. wr i ds \<notin> {WriteErr EPIPE, WriteErr ECONNRESET})"

lemma retrieveAllAsString_contents:
  assumes "buf_inv b"
  obtains b' where "retrieveAllAsString b = Inr (contents b, b')"
  using assms
proof (rule retrieveAsString_ok)
  show "readableBytes b \<le> readableBytes b" by simp
  fix b' assume "retrieveAsString (readableBytes b) b = Inr (take (readableBytes b) (contents b), b')"
  then show ?thesis using assms that[of b'] by (simp add: retrieveAllAsString_def length_contents)
qed

lemma echo_onMessage_eq:
  assumes "buf_inv (tc_inputBuffer c)"
  shows "echo_onMessage c =
    [RetrieveInput (readableBytes (tc_inputBuffer c)), Send (contents (tc_inputBuffer c))]"
  by (rule retrieveAllAsString_contents[OF assms]) (simp add: echo_onMessage_def)

lemma readable_small: "buf_inv b \<Longrightarrow> readableBytes b \<le> max_vec"
  using contents_small by (metis length_contents)

lemma programs_ok:
  "scripts_ok (echo_program wr)" "scripts_ok (default_program wr)"
  "write_ok (echo_program wr) = (\<forall>i ds n. wr i ds = Wrote n \<longrightarrow> n \<le> length ds)"
  "write_ok (default_program wr) = (\<forall>i ds n. wr i ds = Wrote n \<longrightarrow> n \<le> length ds)"
  by (auto simp: write_ok_def scripts_ok_def echo_program_def default_program_def echo_onConnection_def
      defaultConnectionCallback_def defaultMessageCallback_def echo_onMessage_eq readable_small)

section \<open>What a program leaves alone\<close>

text \<open>
  Handlers outside the callbacks change neither the input buffer nor the queue of functors of a
  connection without a write-complete and a high-water-mark callback.
\<close>

definition plain :: "tcp_connection \<Rightarrow> bool" where
  "plain c \<longleftrightarrow> \<not> tc_hasWriteComplete c \<and> \<not> tc_hasHighWaterMark c \<and> tc_pending c = [] \<and> tc_timers c = 0
     \<and> tc_state c \<noteq> kDisconnecting"

lemma plain_fields [simp]:
  "plain (tc_mask m c) = plain c" "plain (notify what c) = plain c" "plain (c\<lparr>tc_outputBuffer := b\<rparr>) = plain c"
  "plain (c\<lparr>tc_inputBuffer := b\<rparr>) = plain c" "plain (c\<lparr>tc_sent := l\<rparr>) = plain c"
  "plain (c\<lparr>tc_accepted := l\<rparr>) = plain c" "plain (c\<lparr>tc_writes := n\<rparr>) = plain c"
  "plain (c\<lparr>tc_channel := ch\<rparr>) = plain c"
  by (simp_all add: plain_def tc_mask_def notify_def)

lemma plain_state [simp]: "plain c \<Longrightarrow> s \<noteq> kDisconnecting \<Longrightarrow> plain (c\<lparr>tc_state := s\<rparr>)"
  by (simp add: plain_def)

lemma notify_fields [simp]:
  "tc_inputBuffer (notify n c) = tc_inputBuffer c" "tc_accepted (notify n c) = tc_accepted c"
  "tc_state (notify n c) = tc_state c" "tc_threadId (notify n c) = tc_threadId c"
  by (simp_all add: notify_def)

lemma direct_write_plain:
  "direct_write env data c = (n, r, f, c') \<Longrightarrow> plain c \<Longrightarrow>
    plain c' \<and> tc_inputBuffer c' = tc_inputBuffer c \<and> tc_state c' = tc_state c"
  by (auto simp: direct_write_def Let_def plain_def split: write_result.splits if_splits)

lemma sendInLoop_plain:
  assumes "sendInLoop env me data c = Inr c'" and "plain c"
  shows "plain c' \<and> tc_inputBuffer c' = tc_inputBuffer c \<and> tc_state c' = tc_state c"
proof -
  have hw: "\<not> tc_hasHighWaterMark x" if "plain x" for x using that by (simp add: plain_def)
  show ?thesis
    using assms direct_write_plain
    by (auto simp: sendInLoop_def tc_assertInLoopThread_def Let_def rbind_eq_Inr_iff hw
        split: if_splits prod.splits)
qed

lemma handleWrite_plain:
  assumes "handleWrite env me c = Inr c'" and "plain c"
  shows "plain c' \<and> tc_inputBuffer c' = tc_inputBuffer c \<and> tc_state c' = tc_state c
    \<and> tc_accepted c' = tc_accepted c"
proof -
  have p: "\<not> tc_hasWriteComplete x \<and> tc_state x \<noteq> kDisconnecting" if "plain x" for x
    using that by (simp add: plain_def)
  have "\<not> tc_hasWriteComplete c \<and> tc_state c \<noteq> kDisconnecting" using assms(2) by (rule p)
  then show ?thesis
    using assms
    by (auto simp: handleWrite_def tc_assertInLoopThread_def Let_def rbind_eq_Inr_iff tc_mask_def plain_def
        split: if_splits write_result.splits)
qed

lemma handleClose_plain:
  assumes "handleClose env me c = Inr c'" and "plain c" and "\<And>x. on_connection env x = []"
  shows "plain c' \<and> tc_inputBuffer c' = tc_inputBuffer c \<and> tc_accepted c' = tc_accepted c"
  using assms by (auto simp: handleClose_def tc_assertInLoopThread_def run_script_def setState_def Let_def
      split: if_splits)

lemma connectEstablished_plain:
  assumes "connectEstablished env me self c = Inr c'" and "plain c" and "\<And>x. on_connection env x = []"
  shows "plain c' \<and> tc_inputBuffer c' = tc_inputBuffer c \<and> tc_accepted c' = tc_accepted c"
  using assms by (auto simp: connectEstablished_def tc_assertInLoopThread_def run_script_def setState_def Let_def
      split: if_splits)

lemma connectDestroyed_plain:
  assumes "connectDestroyed env me c = Inr c'" and "plain c" and "\<And>x. on_connection env x = []"
  shows "plain c' \<and> tc_inputBuffer c' = tc_inputBuffer c \<and> tc_accepted c' = tc_accepted c"
  using assms by (auto simp: connectDestroyed_def tc_assertInLoopThread_def run_script_def setState_def Let_def
      split: if_splits)

section \<open>Programs that answer each message\<close>

text \<open>After bytes \<open>ds\<close>: nothing waits in the input buffer, and the answer was taken over.\<close>

definition answered :: "(byte list \<Rightarrow> byte list) \<Rightarrow> byte list \<Rightarrow> tcp_connection \<Rightarrow> bool" where
  "answered reply ds c \<longleftrightarrow> plain c \<and> contents (tc_inputBuffer c) = [] \<and> tc_accepted c = reply ds"

text \<open>
  What is asked of a program: it does nothing when a connection comes or goes, and its message
  callback empties the input buffer and sends \<open>reply\<close> of what it held.
\<close>

locale answering =
  fixes program :: "(nat \<Rightarrow> byte list \<Rightarrow> write_result) \<Rightarrow> conn_env"
    and reply :: "byte list \<Rightarrow> byte list"
  assumes program_write: "env_write (program wr) = wr"
    and program_connection: "on_connection (program wr) c = []"
    and program_scripts: "scripts_ok (program wr)"
    and reply_append: "reply (xs @ ys) = reply xs @ reply ys"
    and program_message: "never_reset wr \<Longrightarrow> conn_inv c \<Longrightarrow> tc_state c = kConnected \<Longrightarrow> plain c \<Longrightarrow>
      run_script (program wr) (tc_threadId c) (on_message (program wr)) c = Inr c' \<Longrightarrow>
      plain c' \<and> contents (tc_inputBuffer c') = [] \<and> tc_accepted c' = tc_accepted c @ reply (contents (tc_inputBuffer c))"
begin

lemma reply_Nil: "reply [] = []"
  using reply_append[of "[]" "[]"] by simp

lemma handleRead_answers:
  assumes nr: "never_reset wr" and inv: "conn_inv c" and st: "tc_state c = kConnected"
    and ans: "answered reply ds c" and kernel: "readv_ok (readFd_iov (tc_inputBuffer c)) r"
    and run: "tc_handleRead (program wr) (tc_threadId c) r c = Inr c'"
  shows "answered reply (ds @ (case r of ReadData xs \<Rightarrow> xs | ReadErr _ \<Rightarrow> [])) c'"
proof (cases r)
  case (ReadErr e)
  then show ?thesis
    using run ans by (auto simp: tc_handleRead_def tc_assertInLoopThread_def handleError_def answered_def)
next
  case (ReadData xs)
  have b: "buf_inv (tc_inputBuffer c)" using inv by (simp add: conn_inv_def)
  have "rbind (readFd r (tc_inputBuffer c)) (\<lambda>(n, savedErrno, b).
      let c1 = c\<lparr>tc_inputBuffer := b\<rparr> in
      if 0 < n then run_script (program wr) (tc_threadId c) (on_message (program wr)) (notify Message c1)
      else if n = 0 then handleClose (program wr) (tc_threadId c) c1
      else handleError c1) = Inr c'"
    using run by (simp add: tc_handleRead_def tc_assertInLoopThread_def)
  then obtain n e b' where rd: "readFd (ReadData xs) (tc_inputBuffer c) = Inr (n, e, b')"
    and go: "(let c1 = c\<lparr>tc_inputBuffer := b'\<rparr> in
      if 0 < n then run_script (program wr) (tc_threadId c) (on_message (program wr)) (notify Message c1)
      else if n = 0 then handleClose (program wr) (tc_threadId c) c1
      else handleError c1) = Inr c'"
    using ReadData by (auto simp: rbind_eq_Inr_iff simp del: readFd.simps)
  have rd': "n = int (length xs)" "buf_inv b'" "contents b' = xs"
    using rpost_InrD[OF readFd_rpost[OF b kernel[unfolded ReadData]] rd] ans by (simp_all add: answered_def)
  show ?thesis
  proof (cases "xs = []")
    case True
    then have "handleClose (program wr) (tc_threadId c) (c\<lparr>tc_inputBuffer := b'\<rparr>) = Inr c'"
      using go rd' by (simp add: Let_def)
    from handleClose_plain[OF this] show ?thesis
      using ans rd' True ReadData by (simp add: answered_def program_connection)
  next
    case False
    let ?c = "notify Message (c\<lparr>tc_inputBuffer := b'\<rparr>)"
    have "keeps c (c\<lparr>tc_inputBuffer := b'\<rparr>)" using input_keeps[OF inv rd'(2)] .
    then have "keeps (c\<lparr>tc_inputBuffer := b'\<rparr>) ?c" by (intro notify_keeps) (simp_all add: keeps_def)
    then have "conn_inv ?c" by (simp add: keeps_def)
    moreover have "run_script (program wr) (tc_threadId ?c) (on_message (program wr)) ?c = Inr c'"
      using go rd' False by (simp add: Let_def)
    ultimately have "plain c' \<and> contents (tc_inputBuffer c') = []
        \<and> tc_accepted c' = tc_accepted ?c @ reply (contents (tc_inputBuffer ?c))"
      using nr st ans by (intro program_message) (simp_all add: answered_def)
    then show ?thesis using ans rd' ReadData by (simp add: answered_def reply_append)
  qed
qed

lemma handleWrite_answers:
  "answered reply ds c \<Longrightarrow> handleWrite (program wr) me c = Inr c' \<Longrightarrow> answered reply ds c'"
  using handleWrite_plain[of "program wr" me c c'] by (simp add: answered_def)

lemma handleClose_answers:
  "answered reply ds c \<Longrightarrow> handleClose (program wr) me c = Inr c' \<Longrightarrow> answered reply ds c'"
  using handleClose_plain[of "program wr" me c c'] by (simp add: answered_def program_connection)

lemma handlers_answer:
  assumes nr: "never_reset wr" and good: "goes c" and on: "\<not> isNoneEvent (tc_channel c)"
    and ans: "answered reply ds c" and rev: "revents_ok revt"
    and kernel: "readv_ok (readFd_iov (tc_inputBuffer c)) r"
    and run: "rfold (conn_handler (program wr) (tc_threadId c) r) (dispatch revt) c = Inr c'"
  shows "answered reply (ds @ received_by (Ready revt r)) c'"
proof -
  let ?H = "conn_handler (program wr) (tc_threadId c) r" and ?has = "\<lambda>h. h \<in> set (dispatch revt)"
  have inv: "conn_inv c" and st: "tc_state c = kConnected"
    using good on ans by (cases "tc_state c"; auto simp: goes_def conn_inv_def out_ok_def answered_def plain_def)+
  have err: "rfold ?H (OnError # hs) = rfold ?H hs" for hs by (rule ext) (simp add: handleError_def)
  have wr: "answered reply xs y" if "answered reply xs x"
    "rfold ?H (if ?has OnWrite then [OnWrite] else []) x = Inr y" for xs x y
    using that handleWrite_answers[of xs x wr "tc_threadId c" y] by (auto split: if_splits)
  have run': "rfold ?H ((if ?has OnClose then [OnClose] else []) @ (if ?has OnError then [OnError] else [])
      @ (if ?has OnRead then [OnRead] else []) @ (if ?has OnWrite then [OnWrite] else [])) c = Inr c'"
    using run by (subst (asm) dispatch_cases)
  show ?thesis
  proof (cases "?has OnRead")
    case True
    then have "\<not> ?has OnClose" using rev by (simp add: revents_ok_def)
    then have "rbind (tc_handleRead (program wr) (tc_threadId c) r c)
        (rfold ?H (if ?has OnWrite then [OnWrite] else [])) = Inr c'"
      using run' True by (simp add: err split: if_splits)
    then obtain c1 where c1: "tc_handleRead (program wr) (tc_threadId c) r c = Inr c1"
      "rfold ?H (if ?has OnWrite then [OnWrite] else []) c1 = Inr c'"
      by (auto simp: rbind_eq_Inr_iff)
    from wr[OF handleRead_answers[OF nr inv st ans kernel c1(1)] c1(2)] show ?thesis
      using True by (cases r) simp_all
  next
    case False
    then have rc: "received_by (Ready revt r) = []" by (cases r) simp_all
    have "rbind (rfold ?H (if ?has OnClose then [OnClose] else []) c)
        (rfold ?H (if ?has OnWrite then [OnWrite] else [])) = Inr c'"
      using run' False by (simp add: err split: if_splits)
    then obtain c1 where c1: "rfold ?H (if ?has OnClose then [OnClose] else []) c = Inr c1"
      "rfold ?H (if ?has OnWrite then [OnWrite] else []) c1 = Inr c'"
      by (auto simp: rbind_eq_Inr_iff)
    have "answered reply ds c1"
      using c1(1) ans handleClose_answers[OF ans, of wr "tc_threadId c" c1] by (auto split: if_splits)
    from wr[OF this c1(2)] show ?thesis using rc by simp
  qed
qed

lemma event_answers:
  assumes nr: "never_reset wr" and good: "conn_good c" and ans: "answered reply ds c"
    and legal: "legal_event c ev" "\<not> is_call ev" and run: "conn_step (program wr) ev c = Inr c'"
  shows "answered reply (ds @ received_by ev) c'"
proof (cases ev)
  case Establish
  then show ?thesis
    using run ans connectEstablished_plain[of "program wr" "tc_threadId c" 0 c c']
    by (simp add: answered_def program_connection)
next
  case (Ready revt r)
  then have on: "\<not> isNoneEvent (tc_channel c)" "revents_ok revt" "readv_ok (readFd_iov (tc_inputBuffer c)) r"
    using legal by simp_all
  then have "tc_state c \<noteq> kConnecting" using good by (auto simp: conn_good_def conn_inv_def out_ok_def)
  then have "goes c" using good by (rule conn_good_goes[rotated])
  from handlers_answer[OF nr this on(1) ans on(2,3)] run Ready show ?thesis by simp
next
  case (CallFrom t call)
  then show ?thesis using legal by simp
next
  case RunTask
  then show ?thesis using legal ans by (simp add: answered_def plain_def)
next
  case DelayExpired
  then show ?thesis using legal ans by (simp add: answered_def plain_def)
next
  case Destroy
  then show ?thesis
    using run ans connectDestroyed_plain[of "program wr" "tc_threadId c" c c']
    by (simp add: answered_def program_connection)
qed

lemma served_answers:
  assumes "served (program wr) ds c" and "write_ok (program wr)" and "never_reset wr"
  shows "answered reply ds c"
  using assms(1)
proof (induction rule: served.induct)
  case (accept me loop name sockfd c)
  have k: "kInitialSize \<le> max_vec - kCheapPrepend"
    by (simp add: kInitialSize_def max_vec_def kCheapPrepend_def)
  obtain b where "newBuffer kInitialSize = Inr b" "contents b = []"
    using k by (rule newBuffer_ok)
  with accept show ?case
    by (auto simp: new_tcp_connection_def answered_def plain_def reply_Nil split: if_splits)
next
  case (event ds c ev c')
  have "conn_good c" using served_reach[OF event.hyps(1)] assms(2) program_scripts by (rule conn_reach_good)
  from event_answers[OF assms(3) this event.IH event.hyps(2-4)] show ?case .
qed

lemma served_stream:
  assumes "served (program wr) ds c" and "write_ok (program wr)" and "never_reset wr"
  shows "tc_sent c @ contents (tc_outputBuffer c) = reply ds \<and> contents (tc_inputBuffer c) = []"
proof -
  have "conn_good c" using served_reach[OF assms(1)] assms(2) program_scripts by (rule conn_reach_good)
  then show ?thesis
    using served_answers[OF assms] by (simp add: answered_def conn_good_def conn_inv_def stream_ok_def)
qed

end

section \<open>The two programs\<close>

lemma retrieve_input:
  assumes "conn_inv c"
  obtains b where "conn_exec env me (RetrieveInput (readableBytes (tc_inputBuffer c))) c
      = Inr (c\<lparr>tc_inputBuffer := b\<rparr>)" "buf_inv b" "contents b = []"
proof -
  let ?b = "tc_inputBuffer c"
  have inv: "buf_inv ?b" using assms by (simp add: conn_inv_def)
  obtain b where "retrieve (readableBytes ?b) ?b = Inr b" "buf_inv b" "contents b = drop (readableBytes ?b) (contents ?b)"
    by (rule retrieve_ok[OF inv order_refl])
  then show ?thesis using inv by (intro that[of b]) simp_all
qed

lemma echo_message:
  assumes nr: "never_reset wr" and inv: "conn_inv c" and st: "tc_state c = kConnected" and pl: "plain c"
    and run: "run_script (echo_program wr) (tc_threadId c) (on_message (echo_program wr)) c = Inr c'"
  shows "plain c' \<and> contents (tc_inputBuffer c') = []
    \<and> tc_accepted c' = tc_accepted c @ contents (tc_inputBuffer c)"
proof -
  let ?env = "echo_program wr" and ?me = "tc_threadId c" and ?msg = "contents (tc_inputBuffer c)"
  have bi: "buf_inv (tc_inputBuffer c)" using inv by (simp add: conn_inv_def)
  obtain b where b: "conn_exec ?env ?me (RetrieveInput (readableBytes (tc_inputBuffer c))) c
      = Inr (c\<lparr>tc_inputBuffer := b\<rparr>)" "contents b = []"
    by (rule retrieve_input[OF inv])
  let ?c = "c\<lparr>tc_inputBuffer := b\<rparr>"
  have "rfold (conn_exec ?env ?me) [RetrieveInput (readableBytes (tc_inputBuffer c)), Send ?msg] c = Inr c'"
    using run echo_onMessage_eq[OF bi] by (simp add: run_script_def echo_program_def del: conn_exec.simps)
  then have send: "sendInLoop ?env ?me ?msg ?c = Inr c'"
    using b(1) st by (simp add: tc_send_def del: conn_exec.simps(3))
  have "\<forall>e. env_write ?env (tc_writes ?c) ?msg = WriteErr e \<longrightarrow> e \<notin> {EPIPE, ECONNRESET}"
    using nr by (auto simp: never_reset_def echo_program_def)
  then have "tc_accepted c' = tc_accepted ?c @ ?msg"
    using st by (intro sendInLoop_accepts[OF _ _ _ send]) simp_all
  then show ?thesis using sendInLoop_plain[OF send] pl b(2) by simp
qed

lemma discard_message:
  assumes inv: "conn_inv c" and pl: "plain c"
    and run: "run_script (default_program wr) (tc_threadId c) (on_message (default_program wr)) c = Inr c'"
  shows "plain c' \<and> contents (tc_inputBuffer c') = [] \<and> tc_accepted c' = tc_accepted c"
proof -
  obtain b where b: "conn_exec (default_program wr) (tc_threadId c) (RetrieveInput (readableBytes (tc_inputBuffer c))) c
      = Inr (c\<lparr>tc_inputBuffer := b\<rparr>)" "contents b = []"
    by (rule retrieve_input[OF inv])
  have "rfold (conn_exec (default_program wr) (tc_threadId c))
      [RetrieveInput (readableBytes (tc_inputBuffer c))] c = Inr c'"
    using run by (simp add: run_script_def default_program_def defaultMessageCallback_def del: conn_exec.simps)
  then have "c' = c\<lparr>tc_inputBuffer := b\<rparr>" using b(1) by (simp del: conn_exec.simps)
  then show ?thesis using pl b(2) by simp
qed

interpretation echo: answering echo_program "\<lambda>ds. ds"
  by unfold_locales
    (erule (4) echo_message | simp add: programs_ok | simp add: echo_program_def echo_onConnection_def)+

interpretation discard: answering default_program "\<lambda>ds. []"
proof (unfold_locales, goal_cases)
  case (5 wr c c')
  from discard_message[OF 5(2,4,5)] show ?case by simp
qed (simp add: programs_ok | simp add: default_program_def defaultConnectionCallback_def)+

section \<open>A connection served\<close>

text \<open>A kernel that takes some bytes whenever there are any; below, at most three of them.\<close>

definition takes_some :: "(nat \<Rightarrow> byte list \<Rightarrow> write_result) \<Rightarrow> bool" where
  "takes_some wr \<longleftrightarrow>
    (\<forall>i xs. \<exists>n. wr i xs = Wrote n \<and> n \<le> length xs \<and> (xs \<noteq> [] \<longrightarrow> 0 < n))"

lemma takes_some_ok:
  assumes "takes_some wr"
  shows "\<forall>i xs n. wr i xs = Wrote n \<longrightarrow> n \<le> length xs" "never_reset wr"
proof -
  have *: "\<exists>n. wr i xs = Wrote n \<and> n \<le> length xs" for i xs
    using assms unfolding takes_some_def by blast
  show "\<forall>i xs n. wr i xs = Wrote n \<longrightarrow> n \<le> length xs"
  proof (intro allI impI)
    fix i xs n assume "wr i xs = Wrote n"
    then show "n \<le> length xs" using *[of i xs] by auto
  qed
  show "never_reset wr"
    unfolding never_reset_def
  proof (intro allI)
    fix i xs show "wr i xs \<notin> {WriteErr EPIPE, WriteErr ECONNRESET}" using *[of i xs] by auto
  qed
qed

definition three_at_a_time :: "nat \<Rightarrow> byte list \<Rightarrow> write_result" where
  "three_at_a_time i ds = Wrote (min 3 (length ds))"

lemma three_takes: "takes_some three_at_a_time"
  by (simp add: takes_some_def three_at_a_time_def)

lemma served_five:
  obtains c where "served (echo_program three_at_a_time) [1, 2, 3, 4, 5] c" "tc_state c = kConnected"
    "tc_sent c = [1, 2, 3]"
proof -
  let ?P = "echo_program three_at_a_time" and ?ds = "[1, 2, 3, 4, 5] :: byte list"
  have k: "kInitialSize \<le> max_vec - kCheapPrepend"
    by (simp add: kInitialSize_def max_vec_def kCheapPrepend_def)
  obtain b where b: "newBuffer kInitialSize = Inr b" "buf_inv b" "contents b = []" "writableBytes b = kInitialSize"
    using k by (rule newBuffer_ok)
  then obtain c0 where new: "new_tcp_connection 1 77 ''echo'' 5 False False = Inr c0"
    by (simp add: new_tcp_connection_def)
  note f = new_tcp_connection_fields[OF new]
  have io: "tc_inputBuffer c0 = b" "tc_outputBuffer c0 = b" "\<not> tc_hasHighWaterMark c0"
    using new b by (auto simp: new_tcp_connection_def)
  define c1 where "c1 = notify Up (tc_mask EnableReading ((setState kConnected c0)
     \<lparr>tc_channel := ch_tie_to 0 (tc_channel c0)\<rparr>))"
  have up: "conn_step ?P Establish c0 = Inr c1"
    by (simp add: f c1_def connectEstablished_def tc_assertInLoopThread_def Let_def run_script_def
        echo_program_def echo_onConnection_def setState_def)
  have f1: "tc_state c1 = kConnected" "tc_threadId c1 = 1" "tc_sent c1 = []" "tc_accepted c1 = []"
    "tc_writes c1 = 0" "\<not> tc_hasWriteComplete c1" "\<not> tc_hasHighWaterMark c1" "\<not> tc_isWriting c1"
    "\<not> isNoneEvent (tc_channel c1)" "tc_inputBuffer c1 = b" "tc_outputBuffer c1 = b"
    by (simp_all add: c1_def f io notify_def setState_def tc_mask_def tc_isWriting_def new_channel_def
        ch_tie_to_def isWriting_def isNoneEvent_def has_event_def event_defs ch_mask_def)
  have s1: "served ?P [] c1"
    using served.event[OF served.accept[OF new] _ _ up] f by simp
  obtain b1 where b1: "readFd (ReadData ?ds) b = Inr (5, None, b1)" "buf_inv b1" "contents b1 = ?ds"
    using readFd_direct[OF b(2), of ?ds] b by (auto simp: kInitialSize_def simp del: readFd.simps)
  obtain o1 where o1: "append [4, 5] b = Inr o1"
    by (rule append_in_place[OF b(2), of "[4, 5]"]) (simp add: b(4) kInitialSize_def)
  have r0: "readableBytes b = 0" "readableBytes b1 = 5"
    using b b1 by (simp_all add: readable_nil flip: length_contents)
  obtain b2 where b2: "retrieve 5 b1 = Inr b2"
    by (rule retrieve_ok[OF b1(2), of 5]) (simp_all add: r0)
  let ?c1 = "notify Message (c1\<lparr>tc_inputBuffer := b1\<rparr>)"
  define c2 where "c2 = tc_mask EnableWriting (?c1\<lparr>tc_inputBuffer := b2, tc_writes := 1, tc_sent := [1, 2, 3],
      tc_accepted := ?ds, tc_outputBuffer := o1\<rparr>)"
  have o1': "append_raw [4, 5] (Suc (Suc 0)) b = Inr o1" using o1 by (simp add: append_def)
  have nf: "tc_sent ?c1 = []" "tc_accepted ?c1 = []" "tc_writes ?c1 = 0" "\<not> tc_hasWriteComplete ?c1"
    "\<not> tc_hasHighWaterMark ?c1" "tc_outputBuffer ?c1 = b" "\<not> tc_isWriting ?c1"
    using f1 by (simp_all add: notify_def)
  have "echo_onMessage ?c1 = [RetrieveInput 5, Send ?ds]"
    using echo_onMessage_eq[of ?c1] b1 r0 by simp
  then have script: "run_script ?P 1 (on_message ?P) ?c1 = Inr c2"
    using nf r0 b2 o1' f1(1,2)
    by (simp add: run_script_def echo_program_def tc_send_def sendInLoop_def tc_assertInLoopThread_def
        direct_write_def three_at_a_time_def Let_def c2_def)
  have step: "conn_step ?P (Ready POLLIN (ReadData ?ds)) c1 = Inr c2"
    using b1(1) script f1(2,10)
    by (simp add: dispatch_POLLIN tc_handleRead_def tc_assertInLoopThread_def Let_def del: readFd.simps)
  have "legal_event c1 (Ready POLLIN (ReadData ?ds))"
    using f1(9,10) b by (simp add: revents_ok_def dispatch_POLLIN readv_ok_def readFd_iov_def kInitialSize_def
        extrabuf_size_def Let_def)
  from served.event[OF s1 this _ step] have "served ?P ?ds c2" by (simp add: dispatch_POLLIN)
  then show ?thesis by (rule that) (simp_all add: c2_def f1)
qed

section \<open>What clients get\<close>

text \<open>
  C3. The echo server echoes. Whatever the kernel accepts at a time, and however the bytes of
  the client are cut into reads, as long as no write reports that the peer is gone: the bytes sent
  back followed by those waiting to be sent are exactly the bytes received, in order; none stay
  in the input buffer; and while the connection is up the server waits for write events exactly
  when something waits to be sent.
\<close>

theorem echo_returns_bytes:
  assumes "served (echo_program wr) ds c"
    and "\<forall>i xs n. wr i xs = Wrote n \<longrightarrow> n \<le> length xs" and "never_reset wr"
  shows "tc_sent c @ contents (tc_outputBuffer c) = ds \<and> contents (tc_inputBuffer c) = []
    \<and> (tc_state c = kConnected \<longrightarrow> tc_isWriting c = (contents (tc_outputBuffer c) \<noteq> []))"
proof -
  have w: "write_ok (echo_program wr)" using assms(2) by (simp add: programs_ok)
  have "conn_good c" using served_reach[OF assms(1)] w programs_ok(1) by (rule conn_reach_good)
  then show ?thesis
    using echo.served_stream[OF assms(1) w assms(3)] by (simp add: conn_good_def conn_inv_def out_ok_def)
qed

lemma echo_returns_bytes_witness:
  "\<exists>c. served (echo_program three_at_a_time) [1, 2, 3, 4, 5] c \<and> tc_sent c = [1, 2, 3]
     \<and> contents (tc_outputBuffer c) = [4, 5] \<and> tc_isWriting c"
proof -
  obtain c where c: "served (echo_program three_at_a_time) [1, 2, 3, 4, 5] c" "tc_state c = kConnected"
    "tc_sent c = [1, 2, 3]"
    by (rule served_five)
  show ?thesis using echo_returns_bytes[OF c(1) takes_some_ok[OF three_takes]] c by auto
qed

text \<open>A server without callbacks of its own throws everything away and sends nothing.\<close>

theorem default_server_discards:
  assumes "served (default_program wr) ds c"
    and "\<forall>i xs n. wr i xs = Wrote n \<longrightarrow> n \<le> length xs" and "never_reset wr"
  shows "tc_sent c = [] \<and> contents (tc_outputBuffer c) = [] \<and> contents (tc_inputBuffer c) = []"
  using discard.served_stream[OF assms(1) _ assms(3)] assms(2) by (simp add: programs_ok)

section \<open>Everything comes back\<close>

lemma handleWrite_progress:
  assumes inv: "conn_inv c" and pl: "plain c" and up: "tc_state c = kConnected"
    and some: "takes_some (env_write env)"
  obtains c' where "handleWrite env (tc_threadId c) c = Inr c'" "conn_inv c'" "plain c'"
    "tc_state c' = kConnected" "tc_accepted c' = tc_accepted c" "tc_threadId c' = tc_threadId c"
    "length (contents (tc_outputBuffer c')) \<le> length (contents (tc_outputBuffer c)) - 1"
proof -
  have w: "write_ok env" using takes_some_ok(1)[OF some] by (simp add: write_ok_def)
  have b: "buf_inv (tc_outputBuffer c)" using inv by (simp add: conn_inv_def)
  have wr: "tc_isWriting c = (contents (tc_outputBuffer c) \<noteq> [])"
    using inv up by (simp add: conn_inv_def out_ok_def)
  from handleWrite_keeps[OF inv _ refl w] up obtain c' where c': "handleWrite env (tc_threadId c) c = Inr c'"
    and k: "keeps c c'" by (auto simp: rpost_total)
  have p: "plain c'" "tc_state c' = tc_state c" "tc_accepted c' = tc_accepted c"
    using handleWrite_plain[OF c' pl] by simp_all
  obtain n where n: "env_write env (tc_writes c) (contents (tc_outputBuffer c)) = Wrote n"
    "n \<le> length (contents (tc_outputBuffer c))" "contents (tc_outputBuffer c) \<noteq> [] \<Longrightarrow> 0 < n"
    using some unfolding takes_some_def by blast
  have "length (contents (tc_outputBuffer c')) \<le> length (contents (tc_outputBuffer c)) - 1"
  proof (cases "tc_isWriting c")
    case False
    then show ?thesis using c' wr by (simp add: handleWrite_def tc_assertInLoopThread_def)
  next
    case True
    obtain b' where b': "retrieve n (tc_outputBuffer c) = Inr b'" "buf_inv b'"
      "contents b' = drop n (contents (tc_outputBuffer c))"
      by (rule retrieve_ok[OF b, of n]) (use n(2) b in simp_all)
    have hw: "\<not> tc_hasWriteComplete c" "tc_state c \<noteq> kDisconnecting" using pl by (simp_all add: plain_def)
    have "tc_outputBuffer c' = b'"
      using c' True wr n b' hw
      by (auto simp: handleWrite_def tc_assertInLoopThread_def contents_peek[OF b] Let_def split: if_splits)
    then show ?thesis using b' n(3) wr True by simp
  qed
  then show ?thesis using that[OF c'] k p up by (simp add: keeps_def)
qed

lemma dispatch_POLLOUT: "dispatch POLLOUT = [OnWrite]"
  by (simp add: dispatch_def has_event_def event_defs)

lemma write_events_drain:
  assumes "conn_inv c" and "plain c" and "tc_state c = kConnected" and "takes_some (env_write env)"
    and "length (contents (tc_outputBuffer c)) \<le> n"
  shows "\<exists>c'. rfold (conn_step env) (replicate n (Ready POLLOUT r)) c = Inr c' \<and> conn_inv c'
    \<and> tc_state c' = kConnected \<and> tc_accepted c' = tc_accepted c \<and> contents (tc_outputBuffer c') = []"
  using assms
proof (induction n arbitrary: c)
  case 0
  then show ?case by simp
next
  case (Suc n)
  obtain c1 where c1: "handleWrite env (tc_threadId c) c = Inr c1" "conn_inv c1" "plain c1"
    "tc_state c1 = kConnected" "tc_accepted c1 = tc_accepted c"
    "length (contents (tc_outputBuffer c1)) \<le> length (contents (tc_outputBuffer c)) - 1"
    by (rule handleWrite_progress[OF Suc.prems(1-4)])
  have "length (contents (tc_outputBuffer c1)) \<le> n" using c1(6) Suc.prems(5) by simp
  from Suc.IH[OF c1(2-4) Suc.prems(4) this] show ?case using c1(1,5) by (simp add: dispatch_POLLOUT)
qed

text \<open>
  C26. Everything comes back. If the kernel always takes at least one byte, a connection of the
  echo server has sent back everything it received after as many write events as bytes wait, and
  then waits for no more of them.
\<close>

theorem echo_drains:
  assumes "served (echo_program wr) ds c" and "takes_some wr" and "tc_state c = kConnected"
  shows "\<exists>c'. rfold (conn_step (echo_program wr))
      (replicate (length (contents (tc_outputBuffer c))) (Ready POLLOUT r)) c = Inr c'
    \<and> tc_sent c' = ds \<and> tc_state c' = kConnected \<and> \<not> tc_isWriting c'"
proof -
  have w: "write_ok (echo_program wr)" using takes_some_ok(1)[OF assms(2)] by (simp add: programs_ok)
  have "conn_good c" using served_reach[OF assms(1)] w programs_ok(1) by (rule conn_reach_good)
  then have inv: "conn_inv c" by (simp add: conn_good_def)
  have ans: "plain c" "tc_accepted c = ds"
    using echo.served_answers[OF assms(1) w takes_some_ok(2)[OF assms(2)]] by (simp_all add: answered_def)
  have "takes_some (env_write (echo_program wr))" using assms(2) by (simp add: echo_program_def)
  from write_events_drain[OF inv ans(1) assms(3) this order_refl, of r] show ?thesis
    using ans(2) by (auto simp: conn_inv_def stream_ok_def out_ok_def)
qed

lemma echo_drains_witness:
  "\<exists>c c'. served (echo_program three_at_a_time) [1, 2, 3, 4, 5] c \<and> tc_sent c = [1, 2, 3]
     \<and> rfold (conn_step (echo_program three_at_a_time))
         (replicate (length (contents (tc_outputBuffer c))) (Ready POLLOUT (ReadErr 0))) c = Inr c'
     \<and> tc_sent c' = [1, 2, 3, 4, 5]"
proof -
  obtain c where c: "served (echo_program three_at_a_time) [1, 2, 3, 4, 5] c" "tc_state c = kConnected"
    "tc_sent c = [1, 2, 3]"
    by (rule served_five)
  show ?thesis using echo_drains[OF c(1) three_takes c(2), of "ReadErr 0"] c by blast
qed

end
