(* ===== verification/LogProgram.thy ===== *)
theory LogProgram
  imports Logging LogFile
begin

text \<open>
  A program that logs to files: the output function of the loggers (src/zing/base/Logging.h) is
  \<open>LogFile::append\<close> and the flush function is \<open>LogFile::flush\<close>. Each thread has its own caches; the
  log file takes the lines of all threads in one sequence, as its mutex makes them.
\<close>

section \<open>Statements\<close>

datatype log_sink = AppendSink | FlushSink

text \<open>
  A statement of the program: the thread, the macro, \<open>errno\<close>, the moment in microseconds, the place,
  what is inserted, and the readings of the clock that \<open>append\<close> takes.
\<close>

record 'd log_stmt =
  st_thread :: nat
  st_kind :: log_kind
  st_err :: "32 word"
  st_us :: int
  st_file :: string
  st_line :: "32 word"
  st_items :: "'d log_item list"
  st_now :: int
  st_nowRoll :: int

text \<open>The program sets both functions; \<open>G\<close> has the level and the time zone.\<close>

definition file_globals :: "log_sink log_globals \<Rightarrow> log_sink log_globals" where
  "file_globals G = setFlush FlushSink (setOutput AppendSink G)"

fun sink_op :: "int \<Rightarrow> int \<Rightarrow> log_sink \<times> string \<Rightarrow> log_op" where
  "sink_op now nowRoll (AppendSink, msg) = LogLine now nowRoll msg"
| "sink_op now nowRoll (FlushSink, msg) = LogFlush"

text \<open>
  The statements are executed in order until one aborts the process; the result tells whether one
  did. \<open>gettid\<close> gives the ids of the threads, \<open>mem\<close> the memory that the stream finds.
\<close>

fun run_stmts ::
  "log_env \<Rightarrow> log_sink log_globals \<Rightarrow> (nat \<Rightarrow> int) \<Rightarrow> (int \<Rightarrow> string) \<Rightarrow> string \<Rightarrow> ('d \<Rightarrow> string) \<Rightarrow> 'd log_stmt list \<Rightarrow>
   (nat \<Rightarrow> log_thread) \<Rightarrow> log_file \<Rightarrow> (bool \<times> (nat \<Rightarrow> log_thread) \<times> log_file) result option" where
  "run_stmts env G gettid err_text mem g [] ths lf = Some (Inr (False, ths, lf))"
| "run_stmts env G gettid err_text mem g (st # sts) ths lf =
     (case log_macro G (gettid (st_thread st)) err_text (st_err st) (Timestamp (st_us st)) mem (st_kind st)
         (st_file st) (st_line st) (rfold (insert_item g) (st_items st)) (ths (st_thread st)) of
        Inl e \<Rightarrow> Some (Inl e)
      | Inr (calls, abort, th) \<Rightarrow>
          (case lf_run env (map (sink_op (st_now st) (st_nowRoll st)) calls) lf of
             None \<Rightarrow> None
           | Some (Inl e) \<Rightarrow> Some (Inl e)
           | Some (Inr lf) \<Rightarrow>
               if abort then Some (Inr (True, ths(st_thread st := th), lf))
               else run_stmts env G gettid err_text mem g sts (ths(st_thread st := th)) lf))"

section \<open>The lines that are expected\<close>

definition st_enabled :: "log_level \<Rightarrow> 'd log_stmt \<Rightarrow> bool" where
  "st_enabled level st = log_enabled level (kind_level (st_kind st))"

definition st_fatal :: "'d log_stmt \<Rightarrow> bool" where
  "st_fatal st = (kind_level (st_kind st) = FATAL)"

text \<open>The enabled statements up to and with the first fatal one.\<close>

fun until_fatal :: "log_level \<Rightarrow> 'd log_stmt list \<Rightarrow> 'd log_stmt list" where
  "until_fatal level [] = []"
| "until_fatal level (st # sts) =
     (if \<not> st_enabled level st then until_fatal level sts
      else if st_fatal st then [st] else st # until_fatal level sts)"

definition st_parts :: "time_zone \<Rightarrow> (nat \<Rightarrow> int) \<Rightarrow> (int \<Rightarrow> string) \<Rightarrow> 'd log_stmt \<Rightarrow> 'd log_item list" where
  "st_parts tz gettid err_text st =
     line_items tz (gettid (st_thread st)) err_text (st_err st) (st_us st) (projr (log_tm tz (st_us st sdiv 1000000)))
       (st_kind st) (st_file st) (st_line st) (st_items st)"

text \<open>Its text: each part that the stream has room for, whole.\<close>

definition st_text :: "time_zone \<Rightarrow> (nat \<Rightarrow> int) \<Rightarrow> (int \<Rightarrow> string) \<Rightarrow> ('d \<Rightarrow> string) \<Rightarrow> 'd log_stmt \<Rightarrow> string" where
  "st_text tz gettid err_text g st = fold (put_item g kSmallBuffer) (st_parts tz gettid err_text st) []"

text \<open>After the first second of the epoch, in years of four digits and with a zone that is not broken.\<close>

definition st_ok :: "time_zone \<Rightarrow> 'd log_stmt \<Rightarrow> bool" where
  "st_ok tz st \<longleftrightarrow> 1000000 \<le> st_us st
     \<and> (\<exists>tm. log_tm tz (st_us st sdiv 1000000) = Inr tm \<and> length (time_text tm) = 17)"

section \<open>One statement\<close>

definition all_flushed :: "log_file \<Rightarrow> bool" where
  "all_flushed lf \<longleftrightarrow> (\<forall>f \<in> set (log_files lf). af_flushed f = length (af_text f))"

lemma flushed_after:
  assumes "log_inv env b ts parts lf" and "\<And>name. le_fopen env name"
    and "lf_run env (ops @ [LogFlush]) lf = Some (Inr lf')"
  shows "all_flushed lf'"
proof -
  obtain lf1 ts1 parts1 where run: "lf_run env ops lf = Some (Inr lf1)" and inv: "log_inv env b ts1 parts1 lf1"
    using lf_run_inv[OF assms(1,2), of ops] by blast
  have app: "lf_run env (ops @ [LogFlush]) lf = lf_run env [LogFlush] lf1"
    using run by (induction ops arbitrary: lf) (auto split: option.splits sum.splits)
  then have "lf_flush lf1 = Inr lf'" using assms(3) by (simp add: lf_step_def split: sum.splits)
  then show ?thesis
    using inv by (auto simp: all_flushed_def lf_flush_def af_flush_def log_inv_def log_files_def split: option.splits)
qed

lemma macro_calls:
  assumes "log_cache (g_logTimeZone G) (gettid (st_thread st)) th"
    and "0 < gettid (st_thread st)" "gettid (st_thread st) < 2 ^ 31"
    and "st_ok (g_logTimeZone G) st" and "length mem = kSmallBuffer" and "good_g12 g"
  obtains th' where "log_cache (g_logTimeZone G) (gettid (st_thread st)) th'"
    "log_macro (file_globals G) (gettid (st_thread st)) err_text (st_err st) (Timestamp (st_us st)) mem (st_kind st)
       (st_file st) (st_line st) (rfold (insert_item g) (st_items st)) th =
     Inr (if st_enabled (g_logLevel G) st
          then ((AppendSink, st_text (g_logTimeZone G) gettid err_text g st) # (if st_fatal st then [(FlushSink, [])] else []),
                st_fatal st, th')
          else ([], False, th'))"
proof (cases "st_enabled (g_logLevel G) st")
  case True
  obtain tm where tm: "log_tm (g_logTimeZone G) (st_us st sdiv 1000000) = Inr tm" "length (time_text tm) = 17"
    "1000000 \<le> st_us st"
    using assms(4) by (auto simp: st_ok_def)
  from log_line_result[OF assms(1-3) tm assms(5,6), of err_text "st_err st" "st_kind st" "st_file st" "st_line st" "st_items st"]
  obtain th' where "log_cache (g_logTimeZone G) (gettid (st_thread st)) th'"
    "log_line (g_logTimeZone G) (gettid (st_thread st)) err_text (st_err st) (Timestamp (st_us st)) mem (st_kind st)
       (st_file st) (st_line st) (rfold (insert_item g) (st_items st)) th =
     Inr (st_text (g_logTimeZone G) gettid err_text g st, st_fatal st, th')"
    by (auto simp: st_text_def st_parts_def st_fatal_def tm(1))
  then show ?thesis
    using True that[of th']
    by (simp add: log_macro_def file_globals_def setFlush_def setOutput_def st_enabled_def)
next
  case False
  then show ?thesis
    using that[of th] assms(1) by (simp add: log_macro_def file_globals_def setFlush_def setOutput_def st_enabled_def)
qed

section \<open>A program\<close>

lemma run_stmts_inv:
  fixes G :: "log_sink log_globals"
  assumes ids: "\<forall>t. 0 < gettid t \<and> gettid t < 2 ^ 31" and mem: "length mem = kSmallBuffer" and g: "good_g12 g"
    and fopen: "\<And>name. le_fopen env name"
  defines "tz \<equiv> g_logTimeZone G"
  shows "\<lbrakk>log_inv env b ts parts lf; \<forall>t. log_cache tz (gettid t) (ths t); \<forall>st \<in> set sts. st_ok tz st\<rbrakk> \<Longrightarrow>
    \<exists>ab ths' lf' ts' parts'. run_stmts env (file_globals G) gettid err_text mem g sts ths lf = Some (Inr (ab, ths', lf'))
      \<and> log_inv env b ts' parts' lf'
      \<and> concat parts' = concat parts @ map (st_text tz gettid err_text g) (until_fatal (g_logLevel G) sts)
      \<and> (ab \<longleftrightarrow> (\<exists>st \<in> set (until_fatal (g_logLevel G) sts). st_fatal st)) \<and> (ab \<longrightarrow> all_flushed lf')"
proof (induction sts arbitrary: ts parts lf ths)
  case Nil
  then show ?case by auto
next
  case (Cons st sts)
  let ?t = "st_thread st" and ?text = "st_text tz gettid err_text g"
  have cache: "log_cache tz (gettid ?t) (ths ?t)" "st_ok tz st" using Cons.prems by simp_all
  obtain th' where th: "log_cache tz (gettid ?t) th'" and calls:
    "log_macro (file_globals G) (gettid ?t) err_text (st_err st) (Timestamp (st_us st)) mem (st_kind st)
       (st_file st) (st_line st) (rfold (insert_item g) (st_items st)) (ths ?t) =
     Inr (if st_enabled (g_logLevel G) st
          then ((AppendSink, ?text st) # (if st_fatal st then [(FlushSink, [])] else []), st_fatal st, th')
          else ([], False, th'))"
    using macro_calls[of G gettid st "ths ?t" mem g err_text] cache ids mem g unfolding tz_def by blast
  have ths: "\<forall>t. log_cache tz (gettid t) ((ths(?t := th')) t)" using Cons.prems(2) th by simp
  let ?ops = "LogLine (st_now st) (st_nowRoll st) (?text st) # (if st_fatal st then [LogFlush] else [])"
  obtain lf1 ts1 parts1 where run: "lf_run env ?ops lf = Some (Inr lf1)" and inv: "log_inv env b ts1 parts1 lf1"
    and lines: "concat parts1 = concat parts @ [?text st]"
    using lf_run_inv[OF Cons.prems(1) fopen, of ?ops] by (auto simp: logged_def split: if_splits)
  show ?case
  proof (cases "st_enabled (g_logLevel G) st")
    case False
    from Cons.IH[of ts parts lf "ths(?t := th')", OF Cons.prems(1) ths] Cons.prems(3)
    show ?thesis using False calls by (simp del: fun_upd_apply)
  next
    case enabled: True
    show ?thesis
    proof (cases "st_fatal st")
      case True
      have "lf_run env ([LogLine (st_now st) (st_nowRoll st) (?text st)] @ [LogFlush]) lf = Some (Inr lf1)"
        using run True by simp
      then have "all_flushed lf1" using flushed_after[OF Cons.prems(1) fopen] by blast
      moreover have "run_stmts env (file_globals G) gettid err_text mem g (st # sts) ths lf
          = Some (Inr (True, ths(?t := th'), lf1))"
        using calls run enabled True by simp
      ultimately show ?thesis using inv lines enabled True by auto
    next
      case False
      have "run_stmts env (file_globals G) gettid err_text mem g (st # sts) ths lf
          = run_stmts env (file_globals G) gettid err_text mem g sts (ths(?t := th')) lf1"
        using calls run enabled False by simp
      with Cons.IH[of ts1 parts1 lf1 "ths(?t := th')", OF inv ths] Cons.prems(3) lines enabled False
      show ?thesis by (simp del: fun_upd_apply run_stmts.simps)
    qed
  qed
qed


text \<open>A program with two threads, of which one gives up; what comes after is not executed.\<close>

definition sample_stmt :: "nat \<Rightarrow> log_kind \<Rightarrow> string \<Rightarrow> unit log_stmt" where
  "sample_stmt t kind msg = \<lparr>st_thread = t, st_kind = kind, st_err = 0, st_us = 1600000000000042,
     st_file = ''net/Socket.cpp'', st_line = 106, st_items = [ICStr (Some msg)], st_now = 1600000000, st_nowRoll = 1600000000\<rparr>"

definition sample_stmts :: "unit log_stmt list" where
  "sample_stmts = [sample_stmt 0 PlainLog ''hello'', sample_stmt 1 (LevelLog FATAL) ''oops'',
     sample_stmt 0 PlainLog ''late'']"

lemma sample_stmt_ok: "st_ok None (sample_stmt t kind msg)"
  using sample_second by (auto simp: st_ok_def sample_stmt_def)


section \<open>Lines that are complete\<close>

lemma plain_line_complete:
  assumes "st_kind st = PlainLog" and "st_ok tz st" and "good_g12 g"
    and "0 < gettid (st_thread st)" "gettid (st_thread st) < 2 ^ 31"
    and "length (sourceFile (st_file st)) \<le> 90" "sum_list (map (item_room g) (st_items st)) \<le> 3800"
  shows "st_text tz gettid err_text g st = concat (map (item_text g) (st_parts tz gettid err_text st))"
proof -
  let ?parts = "st_parts tz gettid err_text st"
  obtain tm where tm: "log_tm tz (st_us st sdiv 1000000) = Inr tm" "length (time_text tm) = 17" "1000000 \<le> st_us st"
    using assms(2) by (auto simp: st_ok_def)
  have "length (micros_text tz (st_us st)) \<le> 9" using tm(3) by (intro length_micros_text) simp
  then have "sum_list (map (item_room g) ?parts) \<le> kSmallBuffer"
    using tm(2) assms(1,6,7) length_tid_text[OF assms(4,5)]
    by (simp add: st_parts_def line_items_def tm(1) item_room_def kSmallBuffer_def LogLevelName_def)
  then show ?thesis using put_items_fit[OF assms(3), of "[]" ?parts kSmallBuffer] by (simp add: st_text_def)
qed

end
