(* ===== verification/EchoMain.thy ===== *)
theory EchoMain
  imports EchoServer TcpServer InetAddress LogProgram
begin

text \<open>
  The echo program as a whole (src/examples/echo/main.cpp and echo.cpp): the server that \<open>main\<close>
  starts, on the models of the server (TcpServer.thy) and of addresses (InetAddress.thy), and the
  lines that the callbacks log (Logging.thy). What the callbacks do to a connection is in
  EchoServer.thy.
\<close>

section \<open>The server\<close>

text \<open>The constructor, when the sockets and the idle descriptor were created.\<close>

definition new_EchoServer ::
  "byte_order \<Rightarrow> (byte list \<Rightarrow> string) \<Rightarrow> ptr \<Rightarrow> sockaddr \<Rightarrow> int \<Rightarrow> int \<Rightarrow> tcp_server result" where
  "new_EchoServer host ntop6 loop listenAddr acceptFd idleFd =
     rbind (inet_toIpPort host ntop6 listenAddr) (\<lambda>ipPort.
       new_tcp_server loop ipPort ''EchoServer'' acceptFd idleFd)"

definition echo_start :: "ptr \<Rightarrow> tcp_server \<Rightarrow> tcp_server result" where
  "echo_start me s = ts_start me False (\<lambda>_. 0) s"

text \<open>\<open>main\<close> up to \<open>loop.loop()\<close>; \<open>mem\<close> is the memory in which the address is built.\<close>

definition echo_main ::
  "byte_order \<Rightarrow> (byte list \<Rightarrow> string) \<Rightarrow> sockaddr \<Rightarrow> ptr \<Rightarrow> int \<Rightarrow> int \<Rightarrow> tcp_server result" where
  "echo_main host ntop6 mem loop acceptFd idleFd =
     (let listenAddr = inet_port host mem 8848 False False
      in rbind (new_EchoServer host ntop6 loop listenAddr acceptFd idleFd) (\<lambda>server.
           echo_start loop server))"

section \<open>The lines that are logged\<close>

definition echo_pid_line :: "int \<Rightarrow> 'd log_item list" where
  "echo_pid_line pid = [ICStr (Some ''pid = ''), IInt (word_of_int pid)]"

definition echo_connection_line :: "string \<Rightarrow> string \<Rightarrow> bool \<Rightarrow> 'd log_item list" where
  "echo_connection_line peer local up =
     [ICStr (Some ''EchoServer - ''), IString peer, ICStr (Some '' -> ''), IString local,
      ICStr (Some '' is ''), ICStr (Some (if up then ''UP'' else ''DOWN''))]"

definition echo_message_line :: "string \<Rightarrow> string \<Rightarrow> timestamp \<Rightarrow> 'd log_item list" where
  "echo_message_line name msg time =
     [IString name, ICStr (Some '' echo ''), IULong (word_of_nat (length msg)), ICStr (Some '' bytes, ''),
      ICStr (Some ''data received at ''), IString (ts_toString time)]"

text \<open>A connection is given by its end points and whether \<open>connected()\<close> holds.\<close>

definition echo_log_connection ::
  "byte_order \<Rightarrow> (byte list \<Rightarrow> string) \<Rightarrow> sockaddr \<Rightarrow> sockaddr \<Rightarrow> bool \<Rightarrow> 'd log_item list result" where
  "echo_log_connection host ntop6 peer local up =
     rbind (inet_toIpPort host ntop6 peer) (\<lambda>p.
     rbind (inet_toIpPort host ntop6 local) (\<lambda>l. Inr (echo_connection_line p l up)))"

section \<open>What holds of them\<close>

text \<open>The server before and after \<open>start\<close>; it has no threads of its own, so the loop of \<open>main\<close> serves.\<close>

definition echo_created :: "ptr \<Rightarrow> int \<Rightarrow> int \<Rightarrow> tcp_server" where
  "echo_created loop acceptFd idleFd =
     \<lparr>ts_loop = loop, ts_ipPort = ''0.0.0.0:8848'', ts_name = ''EchoServer'',
      ts_acceptor = \<lparr>ac_loop = loop, ac_listening = False, ac_idleFd = idleFd, ac_hasCallback = True,
        ac_channel = new_channel loop acceptFd, ac_log = []\<rparr>,
      ts_pool = new_loop_pool (int loop) loop ''EchoServer'', ts_started = 0, ts_nextConnId = 1,
      ts_connections = [], ts_heap = (\<lambda>_. None), ts_queues = (\<lambda>_. []), ts_alive = True\<rparr>"

definition echo_started :: "ptr \<Rightarrow> int \<Rightarrow> int \<Rightarrow> tcp_server" where
  "echo_started loop acceptFd idleFd =
     (let s = echo_created loop acceptFd idleFd
      in s\<lparr>ts_started := 1, ts_pool := (ts_pool s)\<lparr>lp_started := True\<rparr>,
           ts_acceptor := (ts_acceptor s)\<lparr>ac_listening := True,
             ac_channel := ch_mask EnableReading (ac_channel (ts_acceptor s))\<rparr>\<rparr>)"

lemma echo_created:
  assumes "loop \<noteq> 0" "0 \<le> idleFd"
  shows "new_EchoServer host ntop6 loop (inet_port host mem 8848 False False) acceptFd idleFd
      = Inr (echo_created loop acceptFd idleFd)"
    and "new_tcp_server loop ''0.0.0.0:8848'' ''EchoServer'' acceptFd idleFd = Inr (echo_created loop acceptFd idleFd)"
proof -
  show n: "new_tcp_server loop ''0.0.0.0:8848'' ''EchoServer'' acceptFd idleFd = Inr (echo_created loop acceptFd idleFd)"
    using assms by (simp add: new_tcp_server_def new_acceptor_def echo_created_def)
  have "inet_toIpPort host ntop6 (inet_port host mem 8848 False False) = Inr ''0.0.0.0:8848''"
    by (simp add: inet_port_text nat_dec.simps digit_chars)
  then show "new_EchoServer host ntop6 loop (inet_port host mem 8848 False False) acceptFd idleFd
      = Inr (echo_created loop acceptFd idleFd)" using n by (simp add: new_EchoServer_def)
qed

lemma echo_started:
  "ts_start loop False addr (echo_created loop acceptFd idleFd) = Inr (echo_started loop acceptFd idleFd)"
  by (simp add: ts_start_def at_getAndAdd_def echo_created_def echo_started_def lp_start_def new_loop_pool_def
      lp_assertInLoopThread_def ac_listen_def Let_def)

lemma echo_accepts:
  assumes "0 < fd"
  shows "\<exists>s'. server_step (Accept fd p) (echo_started loop acceptFd idleFd) = Inr s'
    \<and> ts_connections s' = [(''EchoServer-0.0.0.0:8848#1'', p)]
    \<and> (\<exists>c. ts_heap s' p = Some c \<and> sc_fd c = fd \<and> sc_loop c = loop \<and> sc_state c = kConnected)"
proof -
  have "conn_name ''EchoServer'' ''0.0.0.0:8848'' 1 = ''EchoServer-0.0.0.0:8848#1''"
    by (simp add: conn_name_def snprintf_to_def int_dec_def nat_dec.simps digit_chars)
  then show ?thesis
    using assms by (simp add: echo_started_def echo_created_def ac_handleRead_def newConnection_def getNextLoop_def
        new_loop_pool_def lp_assertInLoopThread_def ts_runInLoop_def sc_establish_def map_put_def Let_def)
qed


definition sample_address :: sockaddr where
  "sample_address = \<lparr>sin_family = AF_INET, sin_port = 0, sin_addr = 0, sin6_addr = [], sin6_scope_id = 0\<rparr>"


section \<open>The log of the program\<close>

text \<open>An address is printed into an array of 64 characters.\<close>

lemma length_toIpPort: "inet_toIpPort host ntop6 a = Inr t \<Longrightarrow> length t \<le> 63"
  by (auto simp: inet_toIpPort_def sockets_toIpPort_def snprintf_to_def Let_def rbind_eq_Inr_iff split: if_splits)

text \<open>
  echo.cpp, \<open>onConnection\<close>: whatever the two addresses are, the line that is logged is complete.
\<close>

lemma echo_connection_logged:
  assumes "echo_log_connection host ntop6 peer local up = Inr (st_items st)" and "st_kind st = PlainLog"
    and "st_file st = ''examples/echo/echo.cpp''" and "st_ok tz st" "good_g12 g"
    and "0 < gettid (st_thread st)" "gettid (st_thread st) < 2 ^ 31"
  shows "\<exists>p l tm. inet_toIpPort host ntop6 peer = Inr p \<and> inet_toIpPort host ntop6 local = Inr l
    \<and> log_tm tz (st_us st sdiv 1000000) = Inr tm
    \<and> st_text tz gettid err_text g st =
        time_text tm @ micros_text tz (st_us st) @ tid_text (gettid (st_thread st)) @ ''INFO  ''
        @ ''EchoServer - '' @ p @ '' -> '' @ l @ '' is '' @ (if up then ''UP'' else ''DOWN'')
        @ '' - echo.cpp:'' @ int_dec (sint (st_line st)) @ [CHR 0x0A]"
proof -
  obtain p l where a: "inet_toIpPort host ntop6 peer = Inr p" "inet_toIpPort host ntop6 local = Inr l"
    "st_items st = echo_connection_line p l up"
    using assms(1) by (auto simp: echo_log_connection_def rbind_eq_Inr_iff)
  obtain tm where tm: "log_tm tz (st_us st sdiv 1000000) = Inr tm" using assms(4) by (auto simp: st_ok_def)
  have src: "sourceFile ''examples/echo/echo.cpp'' = ''echo.cpp''"
    using sourceFile_dir[of "''echo.cpp''" "''examples/echo''"] by simp
  have "sum_list (map (item_room g) (st_items st)) \<le> 3800"
    using length_toIpPort[OF a(1)] length_toIpPort[OF a(2)]
    by (simp add: a(3) echo_connection_line_def item_room_def)
  then have "st_text tz gettid err_text g st = concat (map (item_text g) (st_parts tz gettid err_text st))"
    by (intro plain_line_complete assms) (simp_all add: assms(3) src)
  then show ?thesis using a tm
    by (simp add: st_parts_def line_items_def echo_connection_line_def assms(2,3) src LogLevelName_def)
qed

text \<open>
  echo.cpp, \<open>onMessage\<close>: the same for a connection whose name has its usual length; the number of bytes
  is printed in full.
\<close>

lemma echo_message_logged:
  assumes "st_items st = echo_message_line name msg time" and "length name \<le> 1000" "length msg < 2 ^ 64"
    and "st_kind st = PlainLog" "st_file st = ''examples/echo/echo.cpp''" and "st_ok tz st" "good_g12 g"
    and "0 < gettid (st_thread st)" "gettid (st_thread st) < 2 ^ 31"
  shows "\<exists>tm. log_tm tz (st_us st sdiv 1000000) = Inr tm
    \<and> st_text tz gettid err_text g st =
        time_text tm @ micros_text tz (st_us st) @ tid_text (gettid (st_thread st)) @ ''INFO  ''
        @ name @ '' echo '' @ nat_dec (length msg) @ '' bytes, data received at '' @ ts_toString time
        @ '' - echo.cpp:'' @ int_dec (sint (st_line st)) @ [CHR 0x0A]"
proof -
  obtain tm where tm: "log_tm tz (st_us st sdiv 1000000) = Inr tm" using assms(6) by (auto simp: st_ok_def)
  have src: "sourceFile ''examples/echo/echo.cpp'' = ''echo.cpp''"
    using sourceFile_dir[of "''echo.cpp''" "''examples/echo''"] by simp
  have n: "int_dec (uint (word_of_nat (length msg) :: 64 word)) = nat_dec (length msg)"
    using assms(3) by (simp add: int_dec_def unsigned_of_nat take_bit_nat_eq_self)
  have "length (ts_toString time) \<le> 31" by (simp add: ts_toString_def snprintf_to_def Let_def)
  then have "sum_list (map (item_room g) (st_items st)) \<le> 3800"
    using assms(2) by (simp add: assms(1) echo_message_line_def item_room_def)
  then have "st_text tz gettid err_text g st = concat (map (item_text g) (st_parts tz gettid err_text st))"
    by (intro plain_line_complete assms) (simp_all add: assms(5) src)
  then show ?thesis using tm
    by (simp add: st_parts_def line_items_def echo_message_line_def assms(1,4,5) src n LogLevelName_def)
qed

end
