(* ===== verification/TimerThreads.thy ===== *)
theory TimerThreads
  imports TimerQueue
begin

text \<open>
  Timers added and cancelled from any thread (\<open>TimerQueue::addTimer\<close> and \<open>cancel\<close> in
  src/zing/net/TimerQueue.cpp with \<open>EventLoop::runAt\<close>, \<open>runAfter\<close>, \<open>runEvery\<close> and \<open>cancel\<close>). The
  calling thread creates the timer and hands it to the loop, whose functors run in the order they
  were queued (EventLoop.thy); meanwhile the loop goes on handling expirations.
\<close>

section \<open>The loop and its callers\<close>

text \<open>The functors of the timer queue.\<close>

datatype timer_task = AddTask ptr | CancelTask timer_id

record 'cb timer_loop =
  tl_queue :: "'cb timer_queue"
  tl_tasks :: "timer_task list"

definition new_timer_loop :: "int \<Rightarrow> 64 word \<Rightarrow> 'cb timer_loop" where
  "new_timer_loop threadId created = \<lparr>tl_queue = new_timer_queue threadId created, tl_tasks = []\<rparr>"

text \<open>\<open>addTimer\<close> in a thread other than the loop's, up to \<open>runInLoop\<close>, which queues the functor.\<close>

definition addTimer_begin ::
  "((ptr \<Rightarrow> bool) \<Rightarrow> ptr option) \<Rightarrow> 'cb \<Rightarrow> timestamp \<Rightarrow> seconds \<Rightarrow> 'cb timer_loop \<Rightarrow>
   (ptr \<times> 'cb timer_loop) result" where
  "addTimer_begin alloc cb when interval L =
    (let q = tl_queue L in
     case alloc (\<lambda>p. tq_heap q p \<noteq> None) of
       None \<Rightarrow> Inl BadAlloc
     | Some p \<Rightarrow>
       let (sequence, n) = at_incrementAndGet (s_numCreated q)
       in Inr (p, L\<lparr>tl_queue := q\<lparr>s_numCreated := n,
                 tq_heap := (tq_heap q)(p \<mapsto> mk_timer cb when interval sequence)\<rparr>,
               tl_tasks := tl_tasks L @ [AddTask p]\<rparr>))"

text \<open>Its end: the id is made from the address and \<open>timer->sequence()\<close>.\<close>

definition addTimer_end :: "ptr \<Rightarrow> 'cb timer_loop \<Rightarrow> timer_id result" where
  "addTimer_end p L =
    (case tq_heap (tl_queue L) p of None \<Rightarrow> Inl Undefined | Some tm \<Rightarrow> Inr (p, tm_sequence tm))"

text \<open>\<open>cancel\<close> in another thread.\<close>

definition tq_cancel :: "timer_id \<Rightarrow> 'cb timer_loop \<Rightarrow> 'cb timer_loop" where
  "tq_cancel tid L = L\<lparr>tl_tasks := tl_tasks L @ [CancelTask tid]\<rparr>"

definition on_queue ::
  "('cb timer_queue \<Rightarrow> 'cb timer_queue result) \<Rightarrow> 'cb timer_loop \<Rightarrow> 'cb timer_loop result" where
  "on_queue f L = rbind (f (tl_queue L)) (\<lambda>q. Inr (L\<lparr>tl_queue := q\<rparr>))"

text \<open>The loop runs the oldest functor.\<close>

definition run_timer_task :: "timestamp \<Rightarrow> 'cb timer_loop \<Rightarrow> 'cb timer_loop result" where
  "run_timer_task now L =
    (case tl_tasks L of
       [] \<Rightarrow> Inr L
     | AddTask p # ts \<Rightarrow> on_queue (\<lambda>q. addTimerInLoop (tq_threadId q) now p q) (L\<lparr>tl_tasks := ts\<rparr>)
     | CancelTask tid # ts \<Rightarrow> on_queue (\<lambda>q. cancelInLoop (tq_threadId q) tid q) (L\<lparr>tl_tasks := ts\<rparr>))"

text \<open>The time that the timer descriptor was set to has passed.\<close>

definition timerfd_fires :: "'cb timer_queue \<Rightarrow> 'cb timer_queue" where
  "timerfd_fires q =
    (case tq_timerfd q of None \<Rightarrow> q | Some _ \<Rightarrow> q\<lparr>tq_timerfd := None, tq_fired := True\<rparr>)"

text \<open>
  What can happen next: another thread adds or cancels a timer, the loop's thread does (outside the
  expiry handler), the loop runs a functor, the timer descriptor becomes readable, or the loop runs
  the expiry handler, for which the descriptor was readable when \<open>poll\<close> returned.
\<close>

datatype 'cb timer_event =
    AddFrom 'cb timestamp seconds | CancelFrom timer_id | InLoop "'cb timer_call"
  | TaskAt timestamp | Fire | Expire timestamp timestamp

fun tl_step :: "((ptr \<Rightarrow> bool) \<Rightarrow> ptr option) \<Rightarrow> ('cb \<Rightarrow> 'cb timer_call list) \<Rightarrow> 'cb timer_event \<Rightarrow>
    'cb timer_loop \<Rightarrow> 'cb timer_loop result" where
  "tl_step alloc script (AddFrom cb when interval) L =
     rbind (addTimer_begin alloc cb when interval L) (\<lambda>(_, L'). Inr L')"
| "tl_step alloc script (CancelFrom tid) L = Inr (tq_cancel tid L)"
| "tl_step alloc script (InLoop call) L = on_queue (\<lambda>q. exec_call alloc (tq_threadId q) call q) L"
| "tl_step alloc script (TaskAt now) L = run_timer_task now L"
| "tl_step alloc script Fire L = on_queue (\<lambda>q. Inr (timerfd_fires q)) L"
| "tl_step alloc script (Expire now now') L =
     on_queue (\<lambda>q. tq_handleRead alloc script (tq_threadId q) now now' q) L"

section \<open>The invariant\<close>

definition added :: "timer_task list \<Rightarrow> ptr list" where
  "added ts = concat (map (\<lambda>t. case t of AddTask p \<Rightarrow> [p] | CancelTask _ \<Rightarrow> []) ts)"

lemma added_simps [simp]:
  "added [] = []" "added (AddTask p # ts) = p # added ts" "added (CancelTask tid # ts) = added ts"
  "added (ts @ us) = added ts @ added us"
  by (simp_all add: added_def)

text \<open>The timers that wait to be filed are alive and in neither set.\<close>

definition tl_ok :: "'cb timer_loop \<Rightarrow> bool" where
  "tl_ok L \<longleftrightarrow> tq_ok (added (tl_tasks L)) (tl_queue L)"

lemma new_timer_loop_ok: "tl_ok (new_timer_loop threadId created)"
  by (simp add: tl_ok_def new_timer_loop_def new_timer_queue_def tq_ok_def)

lemma tq_ok_permute:
  assumes "tq_ok X q" and "distinct Y" and "set Y = set X"
  shows "tq_ok Y q"
  using assms(1,2) unfolding tq_ok_def distinct_append assms(3)
  by (elim conjE) (intro conjI; assumption)

lemma addTimer_begin_ok:
  assumes ok: "tl_ok L" and al: "alloc_ok alloc"
  shows "rpost {BadAlloc} (\<lambda>(p, L'). tl_ok L' \<and> addTimer_end p L' = Inr (p, s_numCreated (tl_queue L')))
    (addTimer_begin alloc cb when interval L)"
proof (cases "alloc (\<lambda>p. tq_heap (tl_queue L) p \<noteq> None)")
  case None
  then show ?thesis by (simp add: addTimer_begin_def)
next
  case (Some p)
  let ?q = "tl_queue L" and ?X = "added (tl_tasks L)"
  let ?tm = "mk_timer cb when interval (s_numCreated ?q + 1)"
  let ?q0 = "?q\<lparr>s_numCreated := s_numCreated ?q + 1\<rparr>"
  have q: "tq_ok ?X ?q0" using ok by (simp add: tl_ok_def)
  have p: "tq_heap ?q0 p = None" "p < UINTPTR_MAX" using alloc_okD[OF al Some] by simp_all
  have new: "tq_ok (p # ?X) (?q0\<lparr>tq_heap := (tq_heap ?q0)(p \<mapsto> ?tm)\<rparr>)" using q p by (rule tq_ok_new)
  have "p \<notin> set ?X" using tq_okD(5)[OF q] p(1) by auto
  then have "distinct (?X @ [p])" using tq_okD(3)[OF q] by simp
  from tq_ok_permute[OF new this]
  have "tq_ok (?X @ [p]) (?q0\<lparr>tq_heap := (tq_heap ?q0)(p \<mapsto> ?tm)\<rparr>)" by simp
  then show ?thesis
    using Some by (simp add: addTimer_begin_def addTimer_end_def atomic_defs Let_def tl_ok_def mk_timer_def)
qed

lemma on_queue_ok:
  assumes "rpost E (tq_ok (added (tl_tasks L))) (f (tl_queue L))"
  shows "rpost E tl_ok (on_queue f L)"
  unfolding on_queue_def by (rule rpost_rbind[OF assms]) (simp add: tl_ok_def)

lemma run_timer_task_ok:
  assumes ok: "tl_ok L"
  shows "rpost {} tl_ok (run_timer_task now L)"
proof (cases "tl_tasks L")
  case Nil
  then show ?thesis using ok by (simp add: run_timer_task_def)
next
  case (Cons t ts)
  let ?q = "tl_queue L"
  have q: "tq_ok (added (t # ts)) ?q" using ok Cons by (simp add: tl_ok_def)
  show ?thesis
  proof (cases t)
    case (AddTask p)
    then have X: "tq_ok (p # added ts) ?q" using q by simp
    then obtain tm where tm: "tq_heap ?q p = Some tm" using tq_okD(5)[OF X] by auto
    obtain q' where "addTimerInLoop (tq_threadId ?q) now p ?q = Inr q'" "tq_ok (remove1 p (p # added ts)) q'"
      by (rule addTimerInLoop_ok[OF X _ tm refl]) simp_all
    then show ?thesis using Cons AddTask by (simp add: run_timer_task_def on_queue_def tl_ok_def)
  next
    case (CancelTask tid)
    then have X: "tq_ok (added ts) ?q" using q by simp
    obtain q' where "cancelInLoop (tq_threadId ?q) tid ?q = Inr q'" "tq_ok (added ts) q'"
      by (rule cancelInLoop_ok[OF X refl])
    then show ?thesis using Cons CancelTask by (simp add: run_timer_task_def on_queue_def tl_ok_def)
  qed
qed

lemma tl_step_ok:
  assumes ok: "tl_ok L" and al: "alloc_ok alloc"
  shows "rpost {BadAlloc} tl_ok (tl_step alloc script ev L)"
proof (cases ev)
  case (AddFrom cb expiry interval)
  show ?thesis unfolding AddFrom tl_step.simps
    by (rule rpost_rbind[OF addTimer_begin_ok[OF ok al]]) auto
next
  case (CancelFrom tid)
  then show ?thesis using ok by (simp add: tq_cancel_def tl_ok_def)
next
  case (InLoop call)
  show ?thesis unfolding InLoop tl_step.simps
    by (intro on_queue_ok rpost_mono[OF exec_call_ok[OF ok[unfolded tl_ok_def] al refl]]) simp
next
  case (TaskAt now)
  then show ?thesis using run_timer_task_ok[OF ok] by (simp add: rpost_weaken)
next
  case Fire
  show ?thesis unfolding Fire tl_step.simps
    using ok by (intro on_queue_ok) (auto simp: tl_ok_def timerfd_fires_def split: option.splits)
next
  case (Expire now now')
  show ?thesis unfolding Expire tl_step.simps
    by (intro on_queue_ok rpost_mono[OF tq_handleRead_ok[OF ok[unfolded tl_ok_def] al refl]]) simp
qed

section \<open>Histories\<close>

inductive timer_run :: "((ptr \<Rightarrow> bool) \<Rightarrow> ptr option) \<Rightarrow> ('cb \<Rightarrow> 'cb timer_call list) \<Rightarrow> 'cb timer_loop \<Rightarrow> bool"
  for alloc script where
  created: "timer_run alloc script (new_timer_loop threadId n)"
| step: "timer_run alloc script L \<Longrightarrow> tl_step alloc script ev L = Inr L' \<Longrightarrow> timer_run alloc script L'"

lemma timer_run_ok:
  assumes "timer_run alloc script L" and al: "alloc_ok alloc"
  shows "tl_ok L"
  using assms(1)
proof (induction rule: timer_run.induct)
  case (created threadId n)
  show ?case by (rule new_timer_loop_ok)
next
  case (step L ev L')
  from rpost_InrD[OF tl_step_ok[OF step.IH al] step.hyps(2)] show ?case .
qed


text \<open>
  But \<open>addTimer\<close> reads \<open>timer->sequence()\<close> after it has handed the timer to the loop. When the
  loop files the timer, it expires at once and is deleted before the calling thread goes on, that
  reads a deleted object.
\<close>

lemma timer_run_start: "timer_run alloc script L \<Longrightarrow> addTimer_begin alloc cb expiry interval L = Inr (p, L')
    \<Longrightarrow> timer_run alloc script L'"
  by (rule timer_run.step[where ev = "AddFrom cb expiry interval" and L = L]) auto

definition first_loop :: "string timer_loop" where
  "first_loop = (case addTimer_begin bump_alloc ''once'' (Timestamp 1000) (Seconds False 0) (new_timer_loop 7 0) of
     Inr (_, L) \<Rightarrow> L | Inl _ \<Rightarrow> new_timer_loop 7 0)"

lemma first_loop_eq:
  "addTimer_begin bump_alloc ''once'' (Timestamp 1000) (Seconds False 0) (new_timer_loop 7 0) = Inr (256, first_loop)"
  by (simp add: first_loop_def addTimer_begin_def bump_alloc_def new_timer_loop_def new_timer_queue_def
      atomic_defs)

lemma first_loop_run: "timer_run bump_alloc (\<lambda>_. []) first_loop"
  by (rule timer_run_start[OF timer_run.created first_loop_eq])

theorem timer_id_read_late:
  "\<exists>L1 L2. tl_step bump_alloc (\<lambda>_. []) (TaskAt (Timestamp 1005)) first_loop = Inr L1
     \<and> tl_step bump_alloc (\<lambda>_. []) (Expire (Timestamp 1010) (Timestamp 1015)) L1 = Inr L2
     \<and> addTimer_end 256 L2 = Inl Undefined"
  by (simp add: first_loop_def addTimer_begin_def bump_alloc_def new_timer_loop_def new_timer_queue_def
      atomic_defs mk_timer_def run_timer_task_def on_queue_def addTimerInLoop_def insert_timer_def
      tq_assertInLoopThread_def sizes_agree_def resetTimerfd_def readTimerfd_def tq_handleRead_def getExpired_def
      erase_active_def run_timer_def reset_timers_def reset_one_def delete_timer_def UINTPTR_MAX_def
      less_prod_def' addTimer_end_def)


end
