(* ===== verification/TimerHistory.thy ===== *)
theory TimerHistory
  imports TimerThreads
begin

text \<open>
  What holds of timers over whole histories (TimerThreads.thy): the descriptor is always set early
  enough for the earliest timer, and an id never denotes a later timer at the same address.
\<close>

section \<open>How the timers of a queue change\<close>

text \<open>
  Arguments that mean a point in time: it is valid, and an interval that counts as positive does
  not become negative in microseconds.
\<close>

definition timer_legal :: "timestamp \<Rightarrow> seconds \<Rightarrow> bool" where
  "timer_legal expiry interval \<longleftrightarrow> ts_valid expiry \<and> (sec_positive interval \<longrightarrow> 0 \<le> sec_micros interval)"

text \<open>\<open>evolves q k q'\<close>: on the way from \<open>q\<close> to \<open>q'\<close>, \<open>k\<close> timers were created.\<close>

inductive evolves :: "'cb timer_queue \<Rightarrow> nat \<Rightarrow> 'cb timer_queue \<Rightarrow> bool" for q where
  ev_same: "tq_heap q' = tq_heap q \<Longrightarrow> s_numCreated q' = s_numCreated q \<Longrightarrow> evolves q 0 q'"
| ev_delete: "evolves q k q1 \<Longrightarrow> tq_heap q' = (tq_heap q1)(p := None) \<Longrightarrow> s_numCreated q' = s_numCreated q1 \<Longrightarrow>
    evolves q k q'"
| ev_restart: "evolves q k q1 \<Longrightarrow> tq_heap q1 p = Some tm \<Longrightarrow> tm_repeat tm \<Longrightarrow> ts_valid now \<Longrightarrow>
    tq_heap q' = (tq_heap q1)(p \<mapsto> restart now tm) \<Longrightarrow> s_numCreated q' = s_numCreated q1 \<Longrightarrow> evolves q k q'"
| ev_create: "evolves q k q1 \<Longrightarrow> timer_legal expiry interval \<Longrightarrow>
    tq_heap q' = (tq_heap q1)(p \<mapsto> mk_timer cb expiry interval (s_numCreated q1 + 1)) \<Longrightarrow>
    s_numCreated q' = s_numCreated q1 + 1 \<Longrightarrow> evolves q (Suc k) q'"

lemma evolves_refl [simp]: "evolves q 0 q"
  by (rule ev_same) simp_all

lemma evolves_eq:
  assumes "evolves q k q1" and "tq_heap q2 = tq_heap q1" and "s_numCreated q2 = s_numCreated q1"
  shows "evolves q k q2"
  using assms(1)
proof (cases rule: evolves.cases)
  case ev_same
  then show ?thesis using assms(2,3) by (auto intro: evolves.ev_same)
next
  case (ev_delete q3 p)
  from evolves.ev_delete[OF ev_delete(1) trans[OF assms(2) ev_delete(2)] trans[OF assms(3) ev_delete(3)]]
  show ?thesis .
next
  case (ev_restart q3 p tm now)
  from evolves.ev_restart[OF ev_restart(1-4) trans[OF assms(2) ev_restart(5)] trans[OF assms(3) ev_restart(6)]]
  show ?thesis .
next
  case (ev_create k1 q3 expiry interval p cb)
  from evolves.ev_create[OF ev_create(2,3) trans[OF assms(2) ev_create(4)] trans[OF assms(3) ev_create(5)]]
  show ?thesis unfolding ev_create(1) .
qed

lemma evolves_trans: "evolves q1 k q2 \<Longrightarrow> evolves q j q1 \<Longrightarrow> evolves q (j + k) q2"
proof (induction rule: evolves.induct)
  case (ev_same q')
  from evolves_eq[OF ev_same(3,1,2)] show ?case by simp
next
  case (ev_delete k q2 q' p)
  from ev_delete.IH[OF ev_delete.prems] ev_delete.hyps(2,3) show ?case by (rule evolves.ev_delete)
next
  case (ev_restart k q2 p tm now q')
  from ev_restart.IH[OF ev_restart.prems] ev_restart.hyps(2-6) show ?case by (rule evolves.ev_restart)
next
  case (ev_create k q2 expiry interval q' p cb)
  from evolves.ev_create[OF ev_create.IH[OF ev_create.prems] ev_create.hyps(2-4)] show ?case by simp
qed

section \<open>Every operation evolves the queue\<close>

lemma insert_timer_same:
  "insert_timer me p q = Inr (b, q') \<Longrightarrow> tq_heap q' = tq_heap q \<and> s_numCreated q' = s_numCreated q"
  by (auto simp: insert_timer_def tq_assertInLoopThread_def rbind_eq_Inr_iff Let_def
      split: if_splits option.splits)

text \<open>What \<open>addTimerInLoop\<close> makes of the queue when it returns.\<close>

lemma addTimerInLoop_eq:
  assumes "addTimerInLoop me now p q = Inr q'"
  obtains tm q1 where "tq_heap q p = Some tm"
    "q1 = q\<lparr>tq_timers := insort (tm_expiration tm, p) (tq_timers q),
            tq_active := insort (p, tm_sequence tm) (tq_active q)\<rparr>"
    "q' = (if tq_timers q = [] \<or> tm_expiration tm < fst (hd (tq_timers q))
           then resetTimerfd now (tm_expiration tm) q1 else q1)"
proof -
  have "rbind (insert_timer me p q) (\<lambda>(b, q1). if b
      then (case tq_heap q1 p of None \<Rightarrow> Inl Undefined | Some tm \<Rightarrow> Inr (resetTimerfd now (tm_expiration tm) q1))
      else Inr q1) = Inr q'"
    using assms by (simp add: addTimerInLoop_def tq_assertInLoopThread_def split: if_splits)
  then obtain b q1 where ins: "insert_timer me p q = Inr (b, q1)"
    and rest: "(if b then (case tq_heap q1 p of None \<Rightarrow> Inl Undefined
                  | Some tm \<Rightarrow> Inr (resetTimerfd now (tm_expiration tm) q1)) else Inr q1) = Inr q'"
    by (fastforce simp: rbind_eq_Inr_iff)
  obtain tm where tm: "tq_heap q p = Some tm"
    "b = (tq_timers q = [] \<or> tm_expiration tm < fst (hd (tq_timers q)))"
    "q1 = q\<lparr>tq_timers := insort (tm_expiration tm, p) (tq_timers q),
            tq_active := insort (p, tm_sequence tm) (tq_active q)\<rparr>"
    using ins by (auto simp: insert_timer_def tq_assertInLoopThread_def rbind_eq_Inr_iff Let_def
        split: if_splits option.splits)
  have "tq_heap q1 p = Some tm" using tm(1,3) by simp
  then show ?thesis using that[OF tm(1,3)] rest tm(2) by (simp split: if_splits)
qed

lemma addTimerInLoop_same:
  assumes "addTimerInLoop me now p q = Inr q'"
  shows "tq_heap q' = tq_heap q \<and> s_numCreated q' = s_numCreated q"
  using assms by (rule addTimerInLoop_eq) (simp add: resetTimerfd_def)

lemma cancelInLoop_evolves:
  assumes "cancelInLoop me tid q = Inr q'"
  shows "evolves q 0 q'"
proof -
  have "tq_heap q' = tq_heap q \<and> s_numCreated q' = s_numCreated q
      \<or> tq_heap q' = (tq_heap q)(fst tid := None) \<and> s_numCreated q' = s_numCreated q"
    using assms by (auto simp: cancelInLoop_def tq_assertInLoopThread_def rbind_eq_Inr_iff delete_timer_def
        split: if_splits option.splits)
  then show ?thesis by (auto intro: ev_same ev_delete[OF evolves_refl])
qed

lemma addTimer_evolves:
  assumes "addTimer alloc me now cb expiry interval q = Inr (tid, q')" and "timer_legal expiry interval"
  shows "evolves q 1 q'"
proof -
  obtain p where p: "alloc (\<lambda>p. tq_heap q p \<noteq> None) = Some p"
    using assms(1) by (auto simp: addTimer_def split: option.splits)
  define q1 where "q1 = q\<lparr>s_numCreated := s_numCreated q + 1,
      tq_heap := (tq_heap q)(p \<mapsto> mk_timer cb expiry interval (s_numCreated q + 1))\<rparr>"
  have add: "addTimerInLoop me now p q1 = Inr q'"
    using assms(1) p by (auto simp: addTimer_def atomic_defs Let_def rbind_eq_Inr_iff q1_def)
  have "tq_heap q1 = (tq_heap q)(p \<mapsto> mk_timer cb expiry interval (s_numCreated q + 1))"
    "s_numCreated q1 = s_numCreated q + 1" by (simp_all add: q1_def)
  then have "evolves q (Suc 0) q1" using assms(2) by (intro ev_create[OF evolves_refl])
  then show ?thesis using addTimerInLoop_same[OF add] by (auto intro: evolves_eq)
qed

fun lawful_call :: "'cb timer_call \<Rightarrow> bool" where
  "lawful_call (CallAdd now cb expiry interval) = timer_legal expiry interval"
| "lawful_call (CallCancel tid) = True"

text \<open>How many timers a call creates, and the calls of a callback.\<close>

fun creates :: "'cb timer_call \<Rightarrow> nat" where
  "creates (CallAdd now cb expiry interval) = 1"
| "creates (CallCancel tid) = 0"

definition creates_all :: "'cb timer_call list \<Rightarrow> nat" where
  "creates_all calls = sum_list (map creates calls)"

lemma exec_call_evolves:
  assumes "exec_call alloc me call q = Inr q'" and "lawful_call call"
  shows "evolves q (creates call) q'"
  using assms by (cases call) (auto simp: rbind_eq_Inr_iff intro: addTimer_evolves[simplified] cancelInLoop_evolves)

lemma rfold_evolves:
  assumes "rfold f xs q = Inr q'" and "P q"
    and "\<And>x s t. x \<in> set xs \<Longrightarrow> P s \<Longrightarrow> f x s = Inr t \<Longrightarrow> P t \<and> evolves s (c x) t"
  shows "evolves q (sum_list (map c xs)) q'"
  using assms
proof (induction xs arbitrary: q)
  case (Cons x xs)
  from Cons.prems(1) obtain q1 where q1: "f x q = Inr q1" "rfold f xs q1 = Inr q'"
    by (auto simp: rbind_eq_Inr_iff)
  have "P q1 \<and> evolves q (c x) q1" using Cons.prems(2,3) q1(1) by auto
  moreover from this have "evolves q1 (sum_list (map c xs)) q'" using Cons.IH q1(2) Cons.prems(3) by auto
  ultimately show ?case using evolves_trans by fastforce
qed simp

lemma rfold_evolves_0:
  assumes "rfold f xs q = Inr q'" and "\<And>x s t. x \<in> set xs \<Longrightarrow> f x s = Inr t \<Longrightarrow> evolves s 0 t"
  shows "evolves q 0 q'"
  using rfold_evolves[OF assms(1), of "\<lambda>_. True" "\<lambda>_. 0"] assms(2) by simp

lemma run_timer_evolves:
  assumes run: "run_timer alloc script me it q = Inr q'" and tm: "tq_heap q (snd it) = Some tm"
    and sc: "\<forall>cb. \<forall>call \<in> set (script cb). lawful_call call"
  shows "evolves q (creates_all (script (tm_callback tm))) q'"
proof -
  have "rfold (exec_call alloc me) (script (tm_callback tm)) q = Inr q'"
    using run tm by (simp add: run_timer_def)
  from rfold_evolves[OF this, of "\<lambda>_. True" creates] show ?thesis
    using sc unfolding creates_all_def by (blast intro: exec_call_evolves)
qed

lemma getExpired_created:
  assumes "getExpired now (readTimerfd q) = Inr (expired, q')"
  shows "s_numCreated q' = s_numCreated q"
proof -
  obtain rest where run: "rfold erase_active expired ((readTimerfd q)\<lparr>tq_timers := rest\<rparr>) = Inr q'"
    using assms by (auto simp: getExpired_def Let_def rbind_eq_Inr_iff split: if_splits)
  show ?thesis
    by (rule rfold_invariant[OF run, where P = "\<lambda>s. s_numCreated s = s_numCreated q"])
       (auto simp: erase_active_def readTimerfd_def split: option.splits if_splits)
qed

lemma reset_one_evolves:
  assumes "reset_one me now it q = Inr q'" and "ts_valid now"
  shows "evolves q 0 q'"
proof -
  obtain tm where tm: "tq_heap q (snd it) = Some tm"
    using assms(1) by (auto simp: reset_one_def split: option.splits)
  show ?thesis
  proof (cases "tm_repeat tm \<and> (snd it, tm_sequence tm) \<notin> set (tq_canceling q)")
    case True
    let ?q = "q\<lparr>tq_heap := (tq_heap q)(snd it \<mapsto> restart now tm)\<rparr>"
    obtain b where "insert_timer me (snd it) ?q = Inr (b, q')"
      using assms(1) tm True by (auto simp: reset_one_def rbind_eq_Inr_iff)
    from insert_timer_same[OF this] show ?thesis
      using tm True assms(2) by (intro ev_restart[OF evolves_refl, where p = "snd it" and tm = tm and now = now]) simp_all
  next
    case False
    then have "q' = delete_timer (snd it) q" using assms(1) tm by (auto simp: reset_one_def)
    then show ?thesis by (intro ev_delete[OF evolves_refl]) (simp_all add: delete_timer_def)
  qed
qed

text \<open>How many timers the callbacks create that the expiry handler is about to run.\<close>

definition creates_expired :: "('cb \<Rightarrow> 'cb timer_call list) \<Rightarrow> timestamp \<Rightarrow> 'cb timer_queue \<Rightarrow> nat" where
  "creates_expired script now q =
    sum_list (map (\<lambda>e. creates_all (script (tm_callback (the (tq_heap q (snd e))))))
      (filter (\<lambda>e. fst e \<le> now) (tq_timers q)))"

lemma handleRead_evolves:
  assumes run: "tq_handleRead alloc script me now now' q = Inr q'" and now: "ts_valid now"
    and sc: "\<forall>cb. \<forall>call \<in> set (script cb). lawful_call call"
    and ok: "tq_ok Y q" and al: "alloc_ok alloc" and me: "me = tq_threadId q"
  shows "evolves q (creates_expired script now q) q'"
proof -
  let ?xs = "filter (\<lambda>e. fst e \<le> now) (tq_timers q)"
  let ?c = "\<lambda>e. creates_all (script (tm_callback (the (tq_heap q (snd e)))))"
  obtain q0 where q0: "getExpired now (readTimerfd q) = Inr (?xs, q0)" "tq_ok (map snd ?xs @ Y) q0"
    "tq_heap q0 = tq_heap q" "tq_threadId q0 = tq_threadId q"
    using getExpired_ok[of Y "readTimerfd q" now] ok by auto
  let ?q1 = "q0\<lparr>tq_calling := True, tq_canceling := []\<rparr>"
  from run obtain q2 where st: "rfold (run_timer alloc script me) ?xs ?q1 = Inr q2"
    "reset_timers me now now' ?xs (q2\<lparr>tq_calling := False\<rparr>) = Inr q'"
    using q0(1) me by (auto simp: tq_handleRead_def tq_assertInLoopThread_def rbind_eq_Inr_iff)
  have ok1: "tq_ok (map snd ?xs @ Y) ?q1" using q0(2) by simp
  have me1: "me = tq_threadId ?q1" using q0(4) me by simp
  have "evolves ?q1 (sum_list (map ?c ?xs)) q2"
  proof (rule rfold_evolves[OF st(1), where P = "calls_ok (map snd ?xs @ Y) ?q1"])
    show "calls_ok (map snd ?xs @ Y) ?q1 ?q1" using ok1 by (simp add: calls_ok_def)
    fix x s t
    assume x: "x \<in> set ?xs" and s: "calls_ok (map snd ?xs @ Y) ?q1 s" and r: "run_timer alloc script me x s = Inr t"
    have "calls_ok (map snd ?xs @ Y) ?q1 t"
      by (rule rpost_InrD[OF calls_ok_run_timer[OF s al me1 _ ok1] r]) (use x in auto)
    moreover have "tq_heap s (snd x) = tq_heap q (snd x)" using calls_ok_heap[OF s, of "snd x"] x q0(3) by auto
    moreover obtain tm where "tq_heap q (snd x) = Some tm" using tq_okD(5)[OF ok] x by force
    ultimately show "calls_ok (map snd ?xs @ Y) ?q1 t \<and> evolves s (?c x) t"
      using run_timer_evolves[OF r _ sc] by simp
  qed
  moreover have "evolves q 0 ?q1" by (rule ev_same) (simp_all add: q0(3) getExpired_created[OF q0(1)])
  ultimately have "evolves q (creates_expired script now q) q2"
    unfolding creates_expired_def using evolves_trans by fastforce
  then have e2: "evolves q (creates_expired script now q) (q2\<lparr>tq_calling := False\<rparr>)" by (rule evolves_eq) simp_all
  obtain q3 where q3: "rfold (reset_one me now) ?xs (q2\<lparr>tq_calling := False\<rparr>) = Inr q3"
    "tq_heap q' = tq_heap q3" "s_numCreated q' = s_numCreated q3"
    using st(2) by (auto simp: reset_timers_def rbind_eq_Inr_iff resetTimerfd_def split: if_splits)
  have "evolves (q2\<lparr>tq_calling := False\<rparr>) 0 q3"
    using q3(1) by (rule rfold_evolves_0) (rule reset_one_evolves[OF _ now])
  from evolves_eq[OF evolves_trans[OF this e2] q3(2,3)] show ?thesis by simp
qed

section \<open>Histories from one state to another\<close>

fun lawful_event :: "'cb timer_event \<Rightarrow> bool" where
  "lawful_event (AddFrom cb expiry interval) = timer_legal expiry interval"
| "lawful_event (InLoop call) = lawful_call call"
| "lawful_event (Expire now now') = ts_valid now"
| "lawful_event ev = True"

definition lawful_script :: "('cb \<Rightarrow> 'cb timer_call list) \<Rightarrow> bool" where
  "lawful_script script \<longleftrightarrow> (\<forall>cb. \<forall>call \<in> set (script cb). lawful_call call)"

text \<open>How many timers a step creates.\<close>

fun created_by :: "('cb \<Rightarrow> 'cb timer_call list) \<Rightarrow> 'cb timer_event \<Rightarrow> 'cb timer_loop \<Rightarrow> nat" where
  "created_by script (AddFrom cb expiry interval) L = 1"
| "created_by script (InLoop call) L = creates call"
| "created_by script (Expire now now') L = creates_expired script now (tl_queue L)"
| "created_by script ev L = 0"

text \<open>\<open>timer_path alloc script L k L'\<close>: steps lead from \<open>L\<close> to \<open>L'\<close>, which create \<open>k\<close> timers.\<close>

inductive timer_path ::
  "((ptr \<Rightarrow> bool) \<Rightarrow> ptr option) \<Rightarrow> ('cb \<Rightarrow> 'cb timer_call list) \<Rightarrow> 'cb timer_loop \<Rightarrow> nat \<Rightarrow>
   'cb timer_loop \<Rightarrow> bool"
  for alloc script L where
  path_here: "timer_path alloc script L 0 L"
| path_step: "timer_path alloc script L k L1 \<Longrightarrow> lawful_event ev \<Longrightarrow> tl_step alloc script ev L1 = Inr L2 \<Longrightarrow>
    timer_path alloc script L (k + created_by script ev L1) L2"

lemma timer_path_run: "timer_path alloc script L k L' \<Longrightarrow> timer_run alloc script L \<Longrightarrow> timer_run alloc script L'"
  by (induction rule: timer_path.induct) (auto intro: timer_run.step)

lemma on_queue_InrE:
  assumes "on_queue f L = Inr L'"
  obtains q where "f (tl_queue L) = Inr q" "L' = L\<lparr>tl_queue := q\<rparr>"
  using assms by (auto simp: on_queue_def rbind_eq_Inr_iff)

text \<open>What a step does to the queue: another thread creates a timer, or an operation of the loop runs.\<close>

lemma tl_step_evolves:
  assumes run: "tl_step alloc script ev L = Inr L'" and ev: "lawful_event ev" and sc: "lawful_script script"
    and ok: "tl_ok L" and al: "alloc_ok alloc"
  shows "evolves (tl_queue L) (created_by script ev L) (tl_queue L')"
proof (cases ev)
  case (AddFrom cb expiry interval)
  then obtain p where "addTimer_begin alloc cb expiry interval L = Inr (p, L')"
    using run by (auto simp: rbind_eq_Inr_iff)
  then obtain p where "tq_heap (tl_queue L') = (tq_heap (tl_queue L))(p \<mapsto>
      mk_timer cb expiry interval (s_numCreated (tl_queue L) + 1))"
    "s_numCreated (tl_queue L') = s_numCreated (tl_queue L) + 1"
    by (auto simp: addTimer_begin_def atomic_defs Let_def split: option.splits)
  then have "evolves (tl_queue L) (Suc 0) (tl_queue L')"
    using ev AddFrom by (intro ev_create[OF evolves_refl]) simp_all
  then show ?thesis using AddFrom by simp
next
  case (CancelFrom tid)
  then show ?thesis using run by (auto simp: tq_cancel_def)
next
  case (InLoop call)
  then obtain q where "exec_call alloc (tq_threadId (tl_queue L)) call (tl_queue L) = Inr q" "tl_queue L' = q"
    using run by (auto elim: on_queue_InrE)
  then show ?thesis using ev InLoop by (auto intro: exec_call_evolves)
next
  case (TaskAt now)
  show ?thesis
  proof (cases "tl_tasks L")
    case Nil
    then show ?thesis using run TaskAt by (simp add: run_timer_task_def)
  next
    case (Cons t ts)
    have "evolves (tl_queue L) 0 (tl_queue L')"
    proof (cases t)
      case (AddTask p)
      then obtain q where "addTimerInLoop (tq_threadId (tl_queue L)) now p (tl_queue L) = Inr q" "tl_queue L' = q"
        using run TaskAt Cons by (auto simp: run_timer_task_def elim: on_queue_InrE)
      then show ?thesis using addTimerInLoop_same by (blast intro: ev_same)
    next
      case (CancelTask tid)
      then obtain q where "cancelInLoop (tq_threadId (tl_queue L)) tid (tl_queue L) = Inr q" "tl_queue L' = q"
        using run TaskAt Cons by (auto simp: run_timer_task_def elim: on_queue_InrE)
      then show ?thesis by (auto intro: cancelInLoop_evolves)
    qed
    then show ?thesis using TaskAt by simp
  qed
next
  case Fire
  then have "evolves (tl_queue L) 0 (tl_queue L')"
    using run by (auto simp: timerfd_fires_def elim!: on_queue_InrE intro!: ev_same split: option.splits)
  then show ?thesis using Fire by simp
next
  case (Expire now now')
  then obtain q where "tq_handleRead alloc script (tq_threadId (tl_queue L)) now now' (tl_queue L) = Inr q"
    "tl_queue L' = q"
    using run by (auto elim: on_queue_InrE)
  then show ?thesis
    using handleRead_evolves[OF _ _ _ ok[unfolded tl_ok_def] al refl] ev Expire sc
    unfolding lawful_script_def by auto
qed

lemma timer_path_evolves:
  assumes "timer_path alloc script L k L'" and "lawful_script script" and "timer_run alloc script L"
    and "alloc_ok alloc"
  shows "evolves (tl_queue L) k (tl_queue L')"
  using assms(1)
proof (induction rule: timer_path.induct)
  case (path_step k L1 ev L2)
  have "tl_ok L1" using timer_run_ok[OF timer_path_run[OF path_step.hyps(1) assms(3)] assms(4)] .
  from tl_step_evolves[OF path_step.hyps(3,2) assms(2) this assms(4)] path_step.IH show ?case by (rule evolves_trans)
qed simp

section \<open>Ids\<close>

text \<open>
  When \<open>k\<close> timers were created meanwhile and the counter did not wrap around, a live timer is one
  from before, with its number, or has a greater number than any before.
\<close>

definition renumbered :: "nat \<Rightarrow> 'cb timer_queue \<Rightarrow> 'cb timer_queue \<Rightarrow> bool" where
  "renumbered k q q' \<longleftrightarrow> s_numCreated q' = s_numCreated q + of_nat k
     \<and> (unat (s_numCreated q) + k < 2 ^ 64 \<longrightarrow>
         (\<forall>p tm'. tq_heap q' p = Some tm' \<longrightarrow>
            (\<exists>tm. tq_heap q p = Some tm \<and> tm_sequence tm = tm_sequence tm')
            \<or> s_numCreated q < tm_sequence tm'))"

lemma restart_sequence [simp]: "tm_sequence (restart now tm) = tm_sequence tm"
  by (simp add: restart_def)

lemma evolves_renumbered: "evolves q k q' \<Longrightarrow> renumbered k q q'"
proof (induction rule: evolves.induct)
  case (ev_same q')
  then show ?case by (auto simp: renumbered_def)
next
  case (ev_delete k q1 q' p)
  then show ?case by (auto simp: renumbered_def split: if_splits)
next
  case (ev_restart k q1 p tm now q')
  then show ?case by (fastforce simp: renumbered_def split: if_splits)
next
  case (ev_create k q1 expiry interval q' p cb)
  have num: "s_numCreated q' = s_numCreated q + of_nat (Suc k)"
    using ev_create.IH ev_create.hyps(4) by (simp add: renumbered_def algebra_simps)
  have new: "s_numCreated q < s_numCreated q1 + 1" if "unat (s_numCreated q) + Suc k < 2 ^ 64"
  proof -
    have "unat (s_numCreated q + of_nat (Suc k)) = unat (s_numCreated q) + Suc k"
      using that by (simp only: unat_word_ariths unat_of_nat) simp
    then have "s_numCreated q < s_numCreated q'" by (simp only: word_less_nat_alt num)
    then show ?thesis by (simp only: ev_create.hyps(4))
  qed
  show ?case
    unfolding renumbered_def
  proof (intro conjI impI allI num)
    fix r tm' assume wrap: "unat (s_numCreated q) + Suc k < 2 ^ 64" and tm': "tq_heap q' r = Some tm'"
    show "(\<exists>tm. tq_heap q r = Some tm \<and> tm_sequence tm = tm_sequence tm') \<or> s_numCreated q < tm_sequence tm'"
    proof (cases "r = p")
      case True
      then show ?thesis using tm' ev_create.hyps(3) new[OF wrap] by (auto simp: mk_timer_def)
    next
      case False
      then have "tq_heap q1 r = Some tm'" using tm' ev_create.hyps(3) by simp
      then show ?thesis using ev_create.IH wrap by (simp add: renumbered_def)
    qed
  qed
qed

text \<open>
  C11. An id outlives its timer harmlessly. Take an id that was given out before, whose timer is gone,
  and any later state: unless the counter of timers has wrapped around in between, no live timer
  has that address and number, and cancelling the id deletes nothing, although the allocator may
  have given the address to another timer.
\<close>

theorem stale_id_harmless:
  assumes "timer_run alloc script L" and "timer_path alloc script L k L'"
    and "alloc_ok alloc" and "lawful_script script"
    and "unat (s_numCreated (tl_queue L)) + k < 2 ^ 64"
    and "sq \<le> s_numCreated (tl_queue L)"
    and "\<forall>tm. tq_heap (tl_queue L) p = Some tm \<longrightarrow> tm_sequence tm \<noteq> sq"
  shows "(\<forall>tm. tq_heap (tl_queue L') p = Some tm \<longrightarrow> tm_sequence tm \<noteq> sq)
    \<and> (\<exists>q. cancelInLoop (tq_threadId (tl_queue L')) (p, sq) (tl_queue L') = Inr q
         \<and> tq_heap q = tq_heap (tl_queue L') \<and> tq_timers q = tq_timers (tl_queue L'))"
proof -
  let ?q = "tl_queue L" and ?q' = "tl_queue L'"
  have k: "renumbered k ?q ?q'"
    by (rule evolves_renumbered[OF timer_path_evolves[OF assms(2,4,1,3)]])
  have ok: "tq_ok (added (tl_tasks L')) ?q'"
    using timer_run_ok[OF timer_path_run[OF assms(2,1)] assms(3)] by (simp add: tl_ok_def)
  have gone: "tm_sequence tm \<noteq> sq" if "tq_heap ?q' p = Some tm" for tm
    using k that assms(5-7) unfolding renumbered_def by (metis leD)
  then have "(p, sq) \<notin> set (tq_active ?q')" using tq_ok_activeD[OF ok, of p sq] by metis
  then show ?thesis
    using gone tq_ok_sizes[OF ok] by (simp add: cancelInLoop_def tq_assertInLoopThread_def sizes_agree_def)
qed

section \<open>The descriptor\<close>

text \<open>
  \<open>descriptor_set\<close>: the descriptor has run out, or was set for a time no later than the expiration
  of the first timer. \<open>timers_legal\<close>: the live timers mean points in time.
\<close>

definition descriptor_set :: "'cb timer_queue \<Rightarrow> bool" where
  "descriptor_set q \<longleftrightarrow> tq_timers q = [] \<or> tq_fired q
     \<or> (\<exists>s e. tq_timerfd q = Some (s, howMuchTimeFromNow s e) \<and> e \<le> fst (hd (tq_timers q)))"

definition timers_legal :: "'cb timer_queue \<Rightarrow> bool" where
  "timers_legal q \<longleftrightarrow> (\<forall>tm \<in> ran (tq_heap q).
     ts_valid (tm_expiration tm) \<and> (tm_repeat tm \<longrightarrow> 0 \<le> sec_micros (tm_interval tm)))"

lemma evolves_legal: "evolves q k q' \<Longrightarrow> timers_legal q \<Longrightarrow> timers_legal q'"
proof (induction rule: evolves.induct)
  case (ev_same q')
  then show ?case by (simp add: timers_legal_def)
next
  case (ev_delete k q1 q' p)
  have "ran (tq_heap q') \<subseteq> ran (tq_heap q1)" unfolding ev_delete.hyps(2) by (auto simp: ran_def)
  then show ?case using ev_delete.IH[OF ev_delete.prems] unfolding timers_legal_def by blast
next
  case (ev_restart k q1 p tm now q')
  have "\<forall>tm \<in> ran (tq_heap q1). ts_valid (tm_expiration tm) \<and> (tm_repeat tm \<longrightarrow> 0 \<le> sec_micros (tm_interval tm))"
    using ev_restart.IH[OF ev_restart.prems] by (simp add: timers_legal_def)
  moreover from bspec[OF this ranI[of "tq_heap q1" p tm, OF ev_restart.hyps(2)]]
  have "0 \<le> sec_micros (tm_interval tm)" using ev_restart.hyps(3) by simp
  then have "ts_valid (tm_expiration (restart now tm))" "tm_interval (restart now tm) = tm_interval tm"
    using ev_restart.hyps(3,4) by (simp_all add: restart_def addTime_def ts_valid_def)
  moreover have "ran (tq_heap q') \<subseteq> insert (restart now tm) (ran (tq_heap q1))"
    unfolding ev_restart.hyps(5) by (auto simp: ran_def)
  ultimately show ?case using \<open>0 \<le> sec_micros (tm_interval tm)\<close> unfolding timers_legal_def by auto
next
  case (ev_create k q1 expiry interval q' p cb)
  let ?tm = "mk_timer cb expiry interval (s_numCreated q1 + 1)"
  have "ran (tq_heap q') \<subseteq> insert ?tm (ran (tq_heap q1))" unfolding ev_create.hyps(3) by (auto simp: ran_def)
  moreover have "ts_valid (tm_expiration ?tm) \<and> (tm_repeat ?tm \<longrightarrow> 0 \<le> sec_micros (tm_interval ?tm))"
    using ev_create.hyps(2) by (simp add: timer_legal_def mk_timer_def)
  ultimately show ?case using ev_create.IH[OF ev_create.prems] unfolding timers_legal_def by blast
qed

lemma fst_hd_insort:
  fixes w :: "'a::linorder" and p :: "'b::linorder"
  shows "fst (hd (insort (w, p) (y # ys))) = (if w < fst y then w else fst y)"
  by (cases y) (auto simp: less_eq_prod_def)

lemma addTimerInLoop_descriptor:
  assumes "addTimerInLoop me now p q = Inr q'" and "descriptor_set q"
  shows "descriptor_set q'"
proof -
  obtain tm q1 where "tq_heap q p = Some tm" and q1: "q1 = q\<lparr>tq_timers := insort (tm_expiration tm, p) (tq_timers q),
            tq_active := insort (p, tm_sequence tm) (tq_active q)\<rparr>"
    and q': "q' = (if tq_timers q = [] \<or> tm_expiration tm < fst (hd (tq_timers q))
           then resetTimerfd now (tm_expiration tm) q1 else q1)"
    using assms(1) by (rule addTimerInLoop_eq)
  show ?thesis
  proof (cases "tq_timers q")
    case Nil
    then show ?thesis using q1 q' by (auto simp: descriptor_set_def resetTimerfd_def)
  next
    case (Cons y ys)
    then have "fst (hd (tq_timers q1)) = (if tm_expiration tm < fst y then tm_expiration tm else fst y)"
      unfolding q1 by (simp add: fst_hd_insort del: insort_key.simps)
    then show ?thesis
      using assms(2) Cons unfolding q' by (auto simp: descriptor_set_def resetTimerfd_def q1 simp del: insort_key.simps)
  qed
qed

lemma fst_hd_remove1:
  fixes xs :: "('a::linorder \<times> 'b::linorder) list"
  assumes "sorted xs" and "remove1 x xs \<noteq> []"
  shows "fst (hd xs) \<le> fst (hd (remove1 x xs))"
proof -
  obtain y ys where xs: "xs = y # ys" using assms(2) by (cases xs) auto
  have "hd (remove1 x xs) \<in> set xs" using hd_in_set[OF assms(2)] by (meson notin_set_remove1)
  then have "y \<le> hd (remove1 x xs)" using assms(1) xs by auto
  then show ?thesis by (auto simp: xs less_eq_prod_def)
qed

lemma cancelInLoop_descriptor:
  assumes run: "cancelInLoop me tid q = Inr q'" and "sorted (tq_timers q)" and set: "descriptor_set q"
  shows "descriptor_set q'"
proof -
  have "tq_timerfd q' = tq_timerfd q \<and> tq_fired q' = tq_fired q
      \<and> (tq_timers q' = tq_timers q
          \<or> tq_timers q' \<in> range (\<lambda>x. remove1 x (tq_timers q)))"
    using run by (auto simp: cancelInLoop_def tq_assertInLoopThread_def rbind_eq_Inr_iff delete_timer_def
        split: if_splits option.splits)
  moreover from this have "tq_timers q' = []
      \<or> tq_timers q \<noteq> [] \<and> fst (hd (tq_timers q)) \<le> fst (hd (tq_timers q'))"
    using fst_hd_remove1[OF assms(2)] by (cases "tq_timers q") fastforce+
  ultimately show ?thesis using set unfolding descriptor_set_def by (metis order_trans)
qed

lemma addTimer_descriptor:
  assumes "addTimer alloc me now cb expiry interval q = Inr (tid, q')" and "descriptor_set q"
  shows "descriptor_set q'"
proof -
  obtain p where p: "alloc (\<lambda>p. tq_heap q p \<noteq> None) = Some p"
    using assms(1) by (auto simp: addTimer_def split: option.splits)
  define q1 where "q1 = q\<lparr>s_numCreated := s_numCreated q + 1,
      tq_heap := (tq_heap q)(p \<mapsto> mk_timer cb expiry interval (s_numCreated q + 1))\<rparr>"
  have "addTimerInLoop me now p q1 = Inr q'"
    using assms(1) p by (auto simp: addTimer_def atomic_defs Let_def rbind_eq_Inr_iff q1_def)
  moreover have "descriptor_set q1" using assms(2) by (simp add: descriptor_set_def q1_def)
  ultimately show ?thesis by (rule addTimerInLoop_descriptor)
qed

lemma exec_call_descriptor:
  assumes "exec_call alloc me call q = Inr q'" and "sorted (tq_timers q)" and "descriptor_set q"
  shows "descriptor_set q'"
  using assms by (cases call) (auto simp: rbind_eq_Inr_iff intro: addTimer_descriptor cancelInLoop_descriptor)

text \<open>The expiry handler sets it for the first timer, whose expiration is a point in time.\<close>

lemma armed_descriptor:
  assumes "timerfd_armed now q" and "tq_ok X q" and "timers_legal q"
  shows "descriptor_set q"
proof (cases "tq_timers q")
  case (Cons e es)
  then have "e \<in> set (tq_timers q)" by simp
  then obtain tm where "tq_heap q (snd e) = Some tm" "tm_expiration tm = fst e"
    using tq_okD(4)[OF assms(2), of "fst e" "snd e"] by auto
  then have "ts_valid (fst e)" using assms(3) by (metis ranI timers_legal_def)
  then show ?thesis using assms(1) Cons by (auto simp: timerfd_armed_def descriptor_set_def)
qed (simp add: descriptor_set_def)

lemma tl_step_descriptor:
  assumes run: "tl_step alloc script ev L = Inr L'" and ok: "tl_ok L" and al: "alloc_ok alloc"
    and set: "descriptor_set (tl_queue L)" and legal: "timers_legal (tl_queue L')"
  shows "descriptor_set (tl_queue L')"
proof -
  have q: "tq_ok (added (tl_tasks L)) (tl_queue L)" using ok by (simp add: tl_ok_def)
  note sorted = tq_okD(1)[OF q]
  show ?thesis
  proof (cases ev)
    case (AddFrom cb expiry interval)
    then show ?thesis
      using run set by (auto simp: addTimer_begin_def atomic_defs descriptor_set_def rbind_eq_Inr_iff Let_def
          split: option.splits)
  next
    case (CancelFrom tid)
    then show ?thesis using run set by (auto simp: tq_cancel_def)
  next
    case (InLoop call)
    then show ?thesis using run set sorted by (auto elim!: on_queue_InrE intro: exec_call_descriptor)
  next
    case (TaskAt now)
    then show ?thesis
      using run set sorted
      by (auto simp: run_timer_task_def elim!: on_queue_InrE split: list.splits timer_task.splits
          intro: addTimerInLoop_descriptor cancelInLoop_descriptor)
  next
    case Fire
    then show ?thesis
      using run set by (auto simp: timerfd_fires_def descriptor_set_def elim!: on_queue_InrE split: option.splits)
  next
    case (Expire now now')
    then obtain q' where h: "tq_handleRead alloc script (tq_threadId (tl_queue L)) now now' (tl_queue L) = Inr q'"
      and q': "tl_queue L' = q'"
      using run by (auto elim: on_queue_InrE)
    from rpost_InrD[OF tq_handleRead_ok[OF q al refl] h] show ?thesis
      using legal unfolding q' by (auto intro: armed_descriptor)
  qed
qed

lemma timer_path_descriptor:
  assumes "timer_path alloc script L k L'" and "timer_run alloc script L" and "alloc_ok alloc"
    and "lawful_script script" and "descriptor_set (tl_queue L)" and "timers_legal (tl_queue L)"
  shows "descriptor_set (tl_queue L')"
  using assms(1)
proof (induction rule: timer_path.induct)
  case path_here
  show ?case by (rule assms(5))
next
  case (path_step k L1 ev L2)
  from timer_path.path_step[OF path_step.hyps] have "timers_legal (tl_queue L2)"
    by (rule evolves_legal[OF timer_path_evolves[OF _ assms(4,2,3)] assms(6)])
  with path_step.hyps(3) timer_run_ok[OF timer_path_run[OF path_step.hyps(1) assms(2)] assms(3)] assms(3) path_step.IH
  show ?case by (rule tl_step_descriptor)
qed

text \<open>
  C10. No timer is forgotten. In every history of a timer queue, with timers added and cancelled from
  any thread and from callbacks, for every timer in the set: the descriptor is readable, so that the
  expiry handler is about to run, or it is set, and will be readable no later than the timer expires
  or 100 microseconds after it was set (times in nanoseconds).
\<close>

theorem no_timer_forgotten:
  assumes "timer_path alloc script (new_timer_loop threadId n) k L" and "alloc_ok alloc" and "lawful_script script"
    and "(w, p) \<in> set (tq_timers (tl_queue L))"
  shows "tq_fired (tl_queue L)
    \<or> (\<exists>s sec nsec. tq_timerfd (tl_queue L) = Some (s, sec, nsec)
         \<and> 1000 * microSecondsSinceEpoch s + sec * 10 ^ 9 + nsec
             \<le> 1000 * max (microSecondsSinceEpoch w) (microSecondsSinceEpoch s + 100))"
proof -
  let ?us = microSecondsSinceEpoch and ?q = "tl_queue L"
  have set: "descriptor_set ?q"
    by (rule timer_path_descriptor[OF assms(1) timer_run.created assms(2,3)])
       (simp_all add: descriptor_set_def timers_legal_def new_timer_loop_def new_timer_queue_def)
  have "tl_ok L" using timer_run_ok[OF timer_path_run[OF assms(1) timer_run.created] assms(2)] .
  then have "sorted (tq_timers ?q)" unfolding tl_ok_def by (rule tq_okD(1))
  then have "hd (tq_timers ?q) \<le> (w, p)" using assms(4) by (cases "tq_timers ?q") auto
  then have first: "fst (hd (tq_timers ?q)) \<le> w" by (auto simp: less_eq_prod_def)
  show ?thesis
  proof (cases "tq_fired ?q")
    case False
    then obtain s e where e: "tq_timerfd ?q = Some (s, howMuchTimeFromNow s e)" "e \<le> fst (hd (tq_timers ?q))"
      using set assms(4) by (auto simp: descriptor_set_def)
    obtain sec nsec where h: "howMuchTimeFromNow s e = (sec, nsec)" by fastforce
    have "?us e \<le> ?us w" using e(2) first by (auto simp: less_eq_timestamp_def ts_less_eq_def)
    then have "1000 * ?us s + sec * 10 ^ 9 + nsec \<le> 1000 * max (?us w) (?us s + 100)"
      using howMuchTimeFromNow_exact[of e s] unfolding h by (simp add: max_def split: if_splits)
    then show ?thesis using e(1) h by auto
  qed simp
qed

section \<open>An example\<close>

fun created_along :: "((ptr \<Rightarrow> bool) \<Rightarrow> ptr option) \<Rightarrow> ('cb \<Rightarrow> 'cb timer_call list) \<Rightarrow> 'cb timer_event list \<Rightarrow>
    'cb timer_loop \<Rightarrow> nat" where
  "created_along alloc script [] L = 0"
| "created_along alloc script (ev # evs) L = created_by script ev L +
     (case tl_step alloc script ev L of Inl e \<Rightarrow> 0 | Inr L' \<Rightarrow> created_along alloc script evs L')"

lemma timer_path_steps:
  assumes "timer_path alloc script L j L1" and "rfold (tl_step alloc script) evs L1 = Inr L2"
    and "\<forall>ev \<in> set evs. lawful_event ev"
  shows "timer_path alloc script L (j + created_along alloc script evs L1) L2"
  using assms
proof (induction evs arbitrary: j L1)
  case (Cons ev evs)
  from Cons.prems(2) obtain L3 where st: "tl_step alloc script ev L1 = Inr L3"
    "rfold (tl_step alloc script) evs L3 = Inr L2" by (auto simp: rbind_eq_Inr_iff)
  from timer_path.path_step[OF Cons.prems(1) _ st(1)] Cons.prems(3)
  have "timer_path alloc script L (j + created_by script ev L1) L3" by simp
  from Cons.IH[OF this st(2)] Cons.prems(3) st(1) show ?case by (simp add: add.assoc)
qed simp

text \<open>A timer is added by another thread and filed; it expires; a new one takes its address.\<close>

definition example_events :: "string timer_event list" where
  "example_events =
    [AddFrom ''once'' (Timestamp 1000) (Seconds False 0), TaskAt (Timestamp 905),
     Fire, Expire (Timestamp 1010) (Timestamp 1015),
     AddFrom ''again'' (Timestamp 3000) (Seconds False 0), TaskAt (Timestamp 1030)]"

definition example_loop :: "string timer_event list \<Rightarrow> string timer_loop" where
  "example_loop evs = (case rfold (tl_step bump_alloc (\<lambda>_. [])) evs (new_timer_loop 7 0) of
     Inr L \<Rightarrow> L | Inl _ \<Rightarrow> new_timer_loop 7 0)"

lemmas example_simps = creates_expired_def creates_all_def addTimer_begin_def bump_alloc_def new_timer_loop_def new_timer_queue_def
  atomic_defs mk_timer_def run_timer_task_def on_queue_def addTimerInLoop_def insert_timer_def
  tq_assertInLoopThread_def sizes_agree_def resetTimerfd_def readTimerfd_def timerfd_fires_def
  tq_handleRead_def getExpired_def erase_active_def run_timer_def reset_timers_def reset_one_def
  delete_timer_def UINTPTR_MAX_def less_prod_def' howMuchTimeFromNow_def kMicroSecondsPerSecond_def
  ts_valid_def ts_invalid_def

lemma example_path: "timer_path bump_alloc (\<lambda>_. []) (new_timer_loop 7 0) 1 (example_loop (take 2 example_events))"
    "timer_path bump_alloc (\<lambda>_. []) (new_timer_loop 7 0) 1 (example_loop (take 4 example_events))"
    "timer_path bump_alloc (\<lambda>_. []) (example_loop (take 4 example_events)) 1 (example_loop example_events)"
  using timer_path_steps[OF timer_path.path_here, of bump_alloc "\<lambda>_. []" "take 2 example_events" "new_timer_loop 7 0"]
    timer_path_steps[OF timer_path.path_here, of bump_alloc "\<lambda>_. []" "take 4 example_events" "new_timer_loop 7 0"]
    timer_path_steps[OF timer_path.path_here, of bump_alloc "\<lambda>_. []" "drop 4 example_events" "example_loop (take 4 example_events)"]
  by (simp_all add: example_loop_def example_events_def example_simps timer_legal_def)

lemma example_states: "tq_timers (tl_queue (example_loop (take 2 example_events))) = [(Timestamp 1000, 256)]"
  "\<not> tq_fired (tl_queue (example_loop (take 2 example_events)))"
  "s_numCreated (tl_queue (example_loop (take 4 example_events))) = 1"
  "tq_heap (tl_queue (example_loop (take 4 example_events))) 256 = None"
  "s_numCreated (tl_queue (example_loop example_events)) = 2"
  "tq_threadId (tl_queue (example_loop example_events)) = 7"
  "tq_timers (tl_queue (example_loop example_events)) = [(Timestamp 3000, 256)]"
  by (simp_all add: example_loop_def example_events_def example_simps)

lemma no_timer_forgotten_witness:
  "tq_timers (tl_queue (example_loop (take 2 example_events))) = [(Timestamp 1000, 256)]
     \<and> (\<exists>s sec nsec. tq_timerfd (tl_queue (example_loop (take 2 example_events))) = Some (s, sec, nsec)
          \<and> 1000 * microSecondsSinceEpoch s + sec * 10 ^ 9 + nsec
              \<le> 1000 * max 1000 (microSecondsSinceEpoch s + 100))"
  using no_timer_forgotten[OF example_path(1) bump_alloc_ok, of "Timestamp 1000" 256] example_states(1,2)
  by (simp add: lawful_script_def)

text \<open>The second timer has the address of the first; the id of the first does not cancel it.\<close>

lemma stale_id_harmless_witness:
  "\<exists>q. cancelInLoop 7 (256, 1) (tl_queue (example_loop example_events)) = Inr q
     \<and> tq_timers q = [(Timestamp 3000, 256)]"
  using stale_id_harmless[OF timer_path_run[OF example_path(2) timer_run.created] example_path(3) bump_alloc_ok, of 1 256]
  by (auto simp: lawful_script_def example_states)

end
