(* ===== verification/Exceptions.thy ===== *)
theory Exceptions
  imports Threads ProcessInfo
begin

text \<open>
  Exceptions (src/zing/base/Exception.h and Exception.cpp) and where they are caught: in
  \<open>ThreadData::runInThread\<close> (Thread.cpp) and \<open>ThreadPool::runInThread\<close> (ThreadPool.cpp). A function
  that a thread runs is given by what it wrote to the standard error and how it ended.
\<close>

section \<open>Exception\<close>

record exception_obj =
  ex_message :: string
  ex_stack :: string

text \<open>\<open>symbols\<close>: what \<open>backtrace_symbols\<close> gives at that point.\<close>

definition new_Exception :: "string list option \<Rightarrow> string \<Rightarrow> exception_obj" where
  "new_Exception symbols msg = \<lparr>ex_message = msg, ex_stack = stackTrace None symbols\<rparr>"

text \<open>What \<open>c_str\<close> of a string means to its reader.\<close>

definition c_text :: "string \<Rightarrow> string" where
  "c_text s = takeWhile (\<lambda>c. c \<noteq> CHR 0x00) s"

definition ex_what :: "exception_obj \<Rightarrow> string" where
  "ex_what e = c_text (ex_message e)"

definition ex_stackTrace :: "exception_obj \<Rightarrow> string" where
  "ex_stackTrace e = c_text (ex_stack e)"

section \<open>The handlers\<close>

text \<open>An \<open>Exception\<close>, another \<open>std::exception\<close> with its \<open>what()\<close>, anything else.\<close>

datatype thrown = ThrowException exception_obj | ThrowStd string | ThrowOther

datatype ending = Returns | Aborts | Rethrows thrown

text \<open>The thread's name afterwards, the text on the standard error, and the ending.\<close>

definition thread_catch :: "string \<Rightarrow> thrown \<Rightarrow> string \<times> string \<times> ending" where
  "thread_catch name ex =
     (case ex of
        ThrowException e \<Rightarrow>
          (''crashed'',
           ''exception caught in Thread '' @ c_text name @ [CHR 0x0A]
           @ ''reason: '' @ ex_what e @ [CHR 0x0A]
           @ ''stack trace: '' @ ex_stackTrace e @ [CHR 0x0A], Aborts)
      | ThrowStd what \<Rightarrow>
          (''crashed'',
           ''exception caught in Thread '' @ c_text name @ [CHR 0x0A]
           @ ''reason: '' @ what @ [CHR 0x0A], Aborts)
      | ThrowOther \<Rightarrow>
          (''crashed'', ''unknown exception caught in Thread '' @ c_text name @ [CHR 0x0A], Rethrows ex))"

definition pool_catch :: "string \<Rightarrow> thrown \<Rightarrow> string \<times> ending" where
  "pool_catch name ex =
     (case ex of
        ThrowException e \<Rightarrow>
          (''exception caught in ThreadPool '' @ c_text name @ [CHR 0x0A]
           @ ''reason: '' @ ex_what e @ [CHR 0x0A]
           @ ''stack trace: '' @ ex_stackTrace e @ [CHR 0x0A], Aborts)
      | ThrowStd what \<Rightarrow>
          (''exception caught in ThreadPool '' @ c_text name @ [CHR 0x0A]
           @ ''reason: '' @ what @ [CHR 0x0A], Aborts)
      | ThrowOther \<Rightarrow>
          (''unknown exception caught in ThreadPool '' @ c_text name @ [CHR 0x0A], Rethrows ex))"

text \<open>\<open>runInThread\<close> of a thread, from the \<open>try\<close> on; \<open>func\<close> is what the function did.\<close>

definition td_runInThread :: "string \<Rightarrow> string \<times> ending \<Rightarrow> string \<times> string \<times> ending" where
  "td_runInThread name func =
     (let t_threadName = (if name = [] then ''zingThread'' else name); (err, how) = func
      in case how of
           Returns \<Rightarrow> (''finished'', err, Returns)
         | Aborts \<Rightarrow> (t_threadName, err, Aborts)
         | Rethrows ex \<Rightarrow> (let (nm, err', how') = thread_catch name ex in (nm, err @ err', how')))"

text \<open>An exception that leaves \<open>startThread\<close> ends the process, as \<open>abort\<close> does.\<close>

datatype thread_exit = ThreadReturns | ProcessEnds

definition startThread :: "string \<Rightarrow> string \<times> ending \<Rightarrow> string \<times> string \<times> thread_exit" where
  "startThread name func =
     (let (nm, err, how) = td_runInThread name func
      in (nm, err, if how = Returns then ThreadReturns else ProcessEnds))"

text \<open>
  \<open>runInThread\<close> of a pool; \<open>outcomes\<close> is what the initial callback and the tasks do that would be run
  until \<open>running_\<close> is false: return, or throw.
\<close>

fun first_throw :: "thrown option list \<Rightarrow> thrown option" where
  "first_throw [] = None"
| "first_throw (None # os) = first_throw os"
| "first_throw (Some ex # os) = Some ex"

definition pool_runInThread :: "string \<Rightarrow> thrown option list \<Rightarrow> string \<times> ending" where
  "pool_runInThread name outcomes =
     (case first_throw outcomes of None \<Rightarrow> ([], Returns) | Some ex \<Rightarrow> pool_catch name ex)"

text \<open>The threads of a pool are named by \<open>start\<close>.\<close>

definition worker_name :: "string \<Rightarrow> nat \<Rightarrow> string" where
  "worker_name name i = name @ snprintf_to 32 (int_dec (int i + 1))"

definition pool_worker :: "string \<Rightarrow> nat \<Rightarrow> thrown option list \<Rightarrow> string \<times> string \<times> thread_exit" where
  "pool_worker name i outcomes = startThread (worker_name name i) (pool_runInThread name outcomes)"

section \<open>What is reported\<close>

text \<open>The stack of an exception: a line for each frame but the first, as the symbols have it.\<close>

lemma exception_stack:
  "ex_stack (new_Exception (Some (f # frames)) msg) = concat (map (\<lambda>s. s @ [CHR 0x0A]) frames)"
proof -
  have "stack_line None = (\<lambda>s. s @ [CHR 0x0A])" by (rule ext) (simp add: stack_line_def)
  then show ?thesis by (simp add: new_Exception_def stackTrace_def)
qed

lemma first_throw_None: "first_throw os = None \<longleftrightarrow> set os \<subseteq> {None}"
  by (induction os rule: first_throw.induct) auto

lemma first_throw_split: "set os \<subseteq> {None} \<Longrightarrow> first_throw (os @ Some ex # rest) = Some ex"
  by (induction os rule: first_throw.induct) auto

lemma worker_name_not_empty [simp]: "worker_name name i \<noteq> []"
  by (simp add: worker_name_def snprintf_to_def int_dec_def)

lemma startThread_caught: "snd (snd (startThread name (err, Rethrows ex))) = ProcessEnds"
  by (simp add: startThread_def td_runInThread_def thread_catch_def split: thrown.split)

text \<open>
  Exception.cpp, ThreadPool.cpp, Thread.cpp: a worker of a pool returns exactly when none of its tasks
  throws, and then prints nothing. Otherwise the process ends with the first task that throws, and no
  later one runs. For an exception with a message the pool has reported it, and the handlers of the
  thread see nothing of it; any other is reported by both.
\<close>

theorem worker_reports:
  assumes "set before \<subseteq> {None}"
  shows "pool_worker name i before = (''finished'', [], ThreadReturns)"
    and "pool_worker name i (before @ Some (ThrowException e) # rest) =
      (worker_name name i,
       ''exception caught in ThreadPool '' @ c_text name @ [CHR 0x0A] @ ''reason: '' @ ex_what e @ [CHR 0x0A]
       @ ''stack trace: '' @ ex_stackTrace e @ [CHR 0x0A], ProcessEnds)"
    and "pool_worker name i (before @ Some (ThrowStd what) # rest) =
      (worker_name name i,
       ''exception caught in ThreadPool '' @ c_text name @ [CHR 0x0A] @ ''reason: '' @ what @ [CHR 0x0A], ProcessEnds)"
    and "pool_worker name i (before @ Some ThrowOther # rest) =
      (''crashed'',
       ''unknown exception caught in ThreadPool '' @ c_text name @ [CHR 0x0A]
       @ ''unknown exception caught in Thread '' @ c_text (worker_name name i) @ [CHR 0x0A], ProcessEnds)"
proof -
  note defs = pool_worker_def startThread_def td_runInThread_def pool_runInThread_def pool_catch_def
    thread_catch_def first_throw_split[OF assms]
  have none: "first_throw before = None" using assms by (simp add: first_throw_None)
  show "pool_worker name i before = (''finished'', [], ThreadReturns)" by (simp add: defs none)
  show "pool_worker name i (before @ Some (ThrowException e) # rest) =
      (worker_name name i,
       ''exception caught in ThreadPool '' @ c_text name @ [CHR 0x0A] @ ''reason: '' @ ex_what e @ [CHR 0x0A]
       @ ''stack trace: '' @ ex_stackTrace e @ [CHR 0x0A], ProcessEnds)" by (simp add: defs)
  show "pool_worker name i (before @ Some (ThrowStd what) # rest) =
      (worker_name name i,
       ''exception caught in ThreadPool '' @ c_text name @ [CHR 0x0A] @ ''reason: '' @ what @ [CHR 0x0A], ProcessEnds)"
    by (simp add: defs)
  show "pool_worker name i (before @ Some ThrowOther # rest) =
      (''crashed'',
       ''unknown exception caught in ThreadPool '' @ c_text name @ [CHR 0x0A]
       @ ''unknown exception caught in Thread '' @ c_text (worker_name name i) @ [CHR 0x0A], ProcessEnds)"
    by (simp add: defs)
qed

text \<open>The states of a thread (Threads.thy) know only whether its function returned.\<close>

definition outcome_of :: "thread_exit \<Rightarrow> th_outcome" where
  "outcome_of x = (case x of ThreadReturns \<Rightarrow> FuncReturns | ProcessEnds \<Rightarrow> FuncThrows)"

lemma worker_thread_step:
  assumes "th_child s = CRun" and "pool_worker name i os = (nm, err, x)"
  shows "th_runInThread k (outcome_of x) s =
    (if set os \<subseteq> {None} then Inr (s\<lparr>th_ran := True, th_childName := nm, th_child := CEnded\<rparr>) else Inl Fatal)"
proof (cases "set os \<subseteq> {None}")
  case True
  then show ?thesis using worker_reports(1)[of os name i] assms
    by (auto simp: th_runInThread_def outcome_of_def)
next
  case False
  then obtain ex where "first_throw os = Some ex" using first_throw_None by (cases "first_throw os") auto
  then have "x = ProcessEnds"
    using assms(2) by (auto simp: pool_worker_def startThread_def td_runInThread_def pool_runInThread_def
        pool_catch_def thread_catch_def split: thrown.splits)
  then show ?thesis using assms(1) False by (simp add: th_runInThread_def outcome_of_def)
qed

end
