(* ===== verification/Descriptors.thy ===== *)
theory Descriptors
  imports Zing_Prelude "HOL-Library.Word"
begin

text \<open>
  The creation of descriptors: \<open>setNonBlockAndCloseOnExec\<close> and the variant of
  \<open>createNonblockingOrDie\<close> for \<open>VALGRIND\<close>, which uses it (src/zing/net/SocketsOps.cpp; the other
  variant, which asks \<open>socket\<close> for both flags, is in InetAddress.thy), \<open>createEventfd\<close> (EventLoop.cpp) and \<open>createTimerfd\<close>
  (TimerQueue.cpp). What the system calls answer is an argument; the flags of an open descriptor are
  those that \<open>fcntl\<close> reads and writes.
\<close>

unbundle bit_operations_syntax

section \<open>Flags\<close>

record fd_flags =
  fl_status :: "32 word"
  fl_descriptor :: "32 word"

type_synonym open_files = "int \<Rightarrow> fd_flags option"

text \<open>The values of Linux. \<open>F_SETFL\<close> changes the flags of \<open>settable\<close> only, \<open>F_SETFD\<close> only \<open>FD_CLOEXEC\<close>.\<close>

definition O_NONBLOCK :: "32 word" where "O_NONBLOCK = 0x800"
definition O_APPEND :: "32 word" where "O_APPEND = 0x400"
definition O_ASYNC :: "32 word" where "O_ASYNC = 0x2000"
definition O_DIRECT :: "32 word" where "O_DIRECT = 0x4000"
definition O_NOATIME :: "32 word" where "O_NOATIME = 0x40000"
definition FD_CLOEXEC :: "32 word" where "FD_CLOEXEC = 1"

definition settable :: "32 word" where
  "settable = O_NONBLOCK OR O_APPEND OR O_ASYNC OR O_DIRECT OR O_NOATIME"

definition replace_bits :: "32 word \<Rightarrow> 32 word \<Rightarrow> 32 word \<Rightarrow> 32 word" where
  "replace_bits m new old = (old AND NOT m) OR (new AND m)"

definition fcntl_getfl :: "int \<Rightarrow> open_files \<Rightarrow> 32 word" where
  "fcntl_getfl fd k = (case k fd of None \<Rightarrow> -1 | Some f \<Rightarrow> fl_status f)"

definition fcntl_setfl :: "int \<Rightarrow> 32 word \<Rightarrow> open_files \<Rightarrow> open_files" where
  "fcntl_setfl fd flags k =
     (case k fd of None \<Rightarrow> k
      | Some f \<Rightarrow> k(fd \<mapsto> f\<lparr>fl_status := replace_bits settable flags (fl_status f)\<rparr>))"

definition fcntl_getfd :: "int \<Rightarrow> open_files \<Rightarrow> 32 word" where
  "fcntl_getfd fd k = (case k fd of None \<Rightarrow> -1 | Some f \<Rightarrow> fl_descriptor f)"

definition fcntl_setfd :: "int \<Rightarrow> 32 word \<Rightarrow> open_files \<Rightarrow> open_files" where
  "fcntl_setfd fd flags k =
     (case k fd of None \<Rightarrow> k
      | Some f \<Rightarrow> k(fd \<mapsto> f\<lparr>fl_descriptor := replace_bits FD_CLOEXEC flags (fl_descriptor f)\<rparr>))"

section \<open>The operations\<close>

text \<open>The results of setting are ignored.\<close>

definition setNonBlockAndCloseOnExec :: "int \<Rightarrow> open_files \<Rightarrow> open_files" where
  "setNonBlockAndCloseOnExec sockfd k =
     (let flags = fcntl_getfl sockfd k;
          flags = flags OR O_NONBLOCK;
          k = fcntl_setfl sockfd flags k;
          flags = fcntl_getfd sockfd k;
          flags = flags OR FD_CLOEXEC
      in fcntl_setfd sockfd flags k)"

text \<open>
  \<open>answer\<close>: what \<open>socket\<close> returned, with the flags of the new descriptor when there is one; a failure
  is logged as fatal. \<open>createEventfd\<close> and \<open>createTimerfd\<close> ask for both flags at once.
\<close>

definition createNonblocking_valgrind :: "int \<times> fd_flags \<Rightarrow> open_files \<Rightarrow> (int \<times> open_files) result" where
  "createNonblocking_valgrind answer k =
     (let (sockfd, f) = answer
      in if sockfd < 0 then Inl Fatal
         else Inr (sockfd, setNonBlockAndCloseOnExec sockfd (k(sockfd \<mapsto> f))))"

definition createEventfd :: "int \<Rightarrow> int result" where
  "createEventfd evtfd = (if evtfd < 0 then Inl Fatal else Inr evtfd)"

definition createTimerfd :: "int \<Rightarrow> int result" where
  "createTimerfd timerfd = (if timerfd < 0 then Inl Fatal else Inr timerfd)"

section \<open>What holds\<close>

lemma replace_bits_or: "x AND NOT m = 0 \<Longrightarrow> replace_bits m (old OR x) old = old OR x"
  unfolding replace_bits_def
  by (rule bit_word_eqI) (metis (no_types, lifting) bit_and_iff bit_or_iff bit_not_iff bit_0_eq bot_apply bot_bool_def
      possible_bit_word)

text \<open>
  SocketsOps.cpp: the two flags are set and all others are as before; no other descriptor is touched.
  A second call changes nothing, and on a descriptor that is not open nothing happens.
\<close>

lemma setNonBlock_exact:
  "setNonBlockAndCloseOnExec fd k =
     (case k fd of None \<Rightarrow> k
      | Some f \<Rightarrow> k(fd \<mapsto> \<lparr>fl_status = fl_status f OR O_NONBLOCK, fl_descriptor = fl_descriptor f OR FD_CLOEXEC\<rparr>))"
proof (cases "k fd")
  case None
  then show ?thesis
    by (simp add: setNonBlockAndCloseOnExec_def fcntl_setfl_def fcntl_setfd_def Let_def)
next
  case (Some f)
  have "O_NONBLOCK AND NOT settable = 0" "FD_CLOEXEC AND NOT FD_CLOEXEC = 0"
    by (simp_all add: settable_def O_NONBLOCK_def O_APPEND_def O_ASYNC_def O_DIRECT_def O_NOATIME_def)
  then show ?thesis using Some
    by (cases f) (simp add: setNonBlockAndCloseOnExec_def fcntl_getfl_def fcntl_setfl_def fcntl_getfd_def fcntl_setfd_def
        replace_bits_or Let_def)
qed

lemma setNonBlock_idem:
  "setNonBlockAndCloseOnExec fd (setNonBlockAndCloseOnExec fd k) = setNonBlockAndCloseOnExec fd k"
  by (cases "k fd") (simp_all add: setNonBlock_exact or.assoc)

lemma or_and_self: "(x OR y) AND y = (y :: 32 word)"
  by (rule bit_word_eqI) (simp add: bit_and_iff bit_or_iff)

lemma createNonblocking_flags:
  assumes "createNonblocking_valgrind (fd, f) k = Inr (sockfd, k')"
  shows "sockfd = fd \<and> 0 \<le> fd \<and> (\<forall>g. k' fd = Some g \<longrightarrow>
      fl_status g AND O_NONBLOCK = O_NONBLOCK \<and> fl_descriptor g AND FD_CLOEXEC = FD_CLOEXEC) \<and> k' fd \<noteq> None
    \<and> (\<forall>e. e \<noteq> fd \<longrightarrow> k' e = k e)"
  using assms
  by (auto simp: createNonblocking_valgrind_def setNonBlock_exact or_and_self split: if_splits)

end
