(* ===== verification/Spec2Isabelle.thy ===== *)
theory Spec2Isabelle
  imports EventLoop LoopThreads TcpServer TimeZone LogStream ThreadPool StringPiece
    LogFile InetAddress Logging ProcessInfo Singletons TimestampText
    EchoMain TimerHistory Exceptions Descriptors
begin

text \<open>
  zing is a C++ network library in the style of muduo: one event loop per thread, non-blocking
  sockets, and callbacks. This development models its sources under src/zing/base and src/zing/net
  and the echo example, and proves what makes each part correct.

  \<^bold>\<open>How the program works.\<close> An \<open>EventLoop\<close> repeats: ask the poller which descriptors are ready, run
  the handler of each ready \<open>Channel\<close>, run the functors that any thread has queued. An eventfd wakes
  it up when a functor is queued; a timerfd, itself watched through a channel, runs expired timers. A
  \<open>TcpServer\<close> accepts connections through its \<open>Acceptor\<close> in its own loop and gives each
  \<open>TcpConnection\<close> to a loop of an \<open>EventLoopThreadPool\<close>; the connection reads into one \<open>Buffer\<close> and
  sends from another. The base library has threads and locks, queues and a thread pool, times and time
  zones, and logging: a \<open>Logger\<close> formats one line into a \<open>LogStream\<close> and hands it to an output
  function, which may be that of a \<open>LogFile\<close>.

  \<^bold>\<open>Conventions.\<close> A class is a record; a method is a function from the state to the state. Each
  assertion, abort, exception and read of something that does not exist is a value of type
  \<open>error\<close> (Zing_Prelude.thy), sequenced by \<open>rbind\<close> and \<open>rfold\<close>; \<open>rpost E P r\<close> says that \<open>r\<close> is an error
  of the set \<open>E\<close> or a value with \<open>P\<close>. Assertions are enabled, as in a debug build. Pointers are
  addresses into a heap that is a partial map, so a use after deletion is the error \<open>Undefined\<close>.
  \<open>size_t\<close> is a natural number with \<open>sz_add\<close> and \<open>sz_sub\<close> modulo \<open>2^64\<close>; counters, network integers
  and masks are words of their width; times and \<open>int\<close> values are unbounded integers except where
  the code casts. Division is \<open>sdiv\<close> and \<open>smod\<close>, which truncate as in C++. What the kernel and the
  C library answer is an argument of the definition that uses the answer; what the code relies on
  is a named hypothesis (\<open>write_ok\<close>, \<open>readv_ok\<close>, \<open>alloc_ok\<close>, \<open>revents_ok\<close>, \<dots>). Code that runs in
  several threads is a set of steps between the points where another thread can interfere; the
  theorems hold for every interleaving of the steps.

  \<^bold>\<open>Theories and sources, net.\<close>
  \<^item> Endian: \<open>Endian.h\<close>. The byte images of words and the six conversions, for both byte orders.
  \<^item> Buffer: \<open>Buffer.h\<close>, \<open>Buffer.cpp\<close>. A vector with two indices. It implements the FIFO of bytes of the
    locale \<open>byte_fifo\<close>; integers are read back; \<open>readFd\<close> appends what \<open>readv\<close> delivered.
  \<^item> Channel: \<open>Channel.h\<close>, \<open>Channel.cpp\<close>. Masks, tying, the order in which events reach callbacks.
  \<^item> Poller: \<open>Poller.h\<close>, \<open>Poller.cpp\<close>. The heap of channels, and the locale \<open>poller_contract\<close>: after any
    lawful requests the poller watches exactly the masks that were asked for.
  \<^item> EPollPoller, PollPoller: the files of these names and \<open>DefaultPoller.cpp\<close>. Both implement the
    contract (for epoll under the locale \<open>epoll_env\<close>, what \<open>epoll_ctl\<close> does) and report what is ready.
  \<^item> TimerQueue: \<open>Timer.h\<close>, \<open>Timer.cpp\<close>, \<open>TimerId.h\<close>, \<open>TimerQueue.h\<close>, \<open>TimerQueue.cpp\<close>. The two sets, the expiry handler and
    the calls that callbacks make of it. TimerThreads: the same queue with callers in other threads;
    TimerHistory: what its whole histories keep (the descriptor is set early enough, ids do not revive).
  \<^item> EventLoop: \<open>EventLoop.h\<close>, \<open>EventLoop.cpp\<close>. The loop with other threads interleaved: no lost
    wake-up, order of functors, channels removed during dispatch. Its facts on channels are proved
    for any poller of the contract.
  \<^item> TcpConnection, ConnectionProps: \<open>TcpConnection.h\<close>, \<open>TcpConnection.cpp\<close>. The state machine, the output path,
    closing; user callbacks are lists of calls. The first has the model and the invariant, the second
    the properties, and the failures when the surroundings break the rules.
  \<^item> EchoServer: src/examples/echo/echo.cpp and the default callbacks of \<open>TcpConnection.cpp\<close>. What a
    program of the locale \<open>answering\<close> sends back; the echo program returns every byte. EchoMain:
    src/examples/echo/main.cpp, the server that it starts, and the lines it logs.
  \<^item> LoopThreads: \<open>EventLoopThread.cpp\<close>, \<open>EventLoopThreadPool.cpp\<close>. Start, end, choice of loops.
  \<^item> TcpServer: \<open>Acceptor.cpp\<close>, \<open>TcpServer.cpp\<close>. The map of connections over all loops of the pool.
  \<^item> InetAddress: \<open>InetAddress.h\<close>, \<open>InetAddress.cpp\<close>, \<open>SocketsOps.cpp\<close>, \<open>Socket.h\<close>, \<open>Socket.cpp\<close>. Addresses
    and their texts, and what the code makes of the answers of the system calls. Descriptors: how
    sockets, eventfd and timerfd are created, and their flags.

  \<^bold>\<open>Theories and sources, base.\<close>
  \<^item> Text, Doubles: the parts of \<open>snprintf\<close> and of \<open>double\<close> that the code uses.
  \<^item> Timestamp, TimestampText: \<open>Timestamp.h\<close>, \<open>Timestamp.cpp\<close>, and \<open>Atomic.h\<close>.
  \<^item> Date, TimeZone: the files of these names. Julian day numbers, TZif files, the search for the
    local time, and the conversions to and from local time.
  \<^item> LogStream, Logging, FileUtil, LogFile: the files of these names. Whole items or nothing in a
    stream; the parts of a line; the lines of all files of a log. LogProgram: loggers of several
    threads whose output goes to a log file; what is flushed before a fatal statement aborts.
  \<^item> Queues: \<open>BlockingQueue.h\<close>, \<open>BoundedBlockingQueue.h\<close>, \<open>CountDownLatch.cpp\<close>, \<open>Condition.h\<close>.
    ThreadPool: \<open>ThreadPool.cpp\<close>. Threads: \<open>Mutex.h\<close>, \<open>Thread.cpp\<close>, \<open>CurrentThread.cpp\<close>. Workers and
    clients are lists of program points; a critical section is one step.
  \<^item> StringPiece: \<open>StringPiece.h\<close>. ProcessInfo: \<open>ProcessInfo.cpp\<close> and the printed stack of
    \<open>CurrentThread.cpp\<close>. Singletons: \<open>Singleton.h\<close>, \<open>ThreadLocal.h\<close>, \<open>ThreadLocalSingleton.h\<close>, \<open>WeakCallback.h\<close>.
    Exceptions: \<open>Exception.h\<close>, \<open>Exception.cpp\<close>, and the handlers in \<open>Thread.cpp\<close> and \<open>ThreadPool.cpp\<close>.

  \<^bold>\<open>Bounds and loops.\<close> There is no fuel. Loops over data are structural or have a measure (the digits
  of \<open>convert\<close>, the binary search, the reads of \<open>readToString\<close>); the event loop, the workers and the
  threads are step relations. The loop of \<open>AppendFile::append\<close>, which depends on what \<open>fwrite\<close>
  answers, takes the list of answers and gives \<open>None\<close> when they do not end it: \<open>append_returns\<close>
  shows when it ends and \<open>append_spins\<close> when it does not. Memory is finite: a vector holds at most
  \<open>max_vec\<close> bytes and throws \<open>LengthError\<close> beyond, and \<open>new\<close> may fail with \<open>BadAlloc\<close>; the theorems
  allow these two errors where they say so.

  \<^bold>\<open>Where the code fails.\<close> Some theorems show that it does: a connection destroyed while it is
  closing (\<open>destroy_while_closing_fails\<close>), reading restarted after the close
  (\<open>restart_after_close_fails\<close>), \<open>shutdown\<close> of another thread during a close (ConnectionProps.thy),
  a connection that outlives its server (TcpServer.thy),
  \<open>quit\<close> before \<open>loop\<close> (\<open>quit_before_loop_lost\<close>, and in LoopThreads.thy a destructor that hangs), a timer whose number is read
  too late (\<open>timer_id_read_late\<close>), a channel that cannot return to the poll poller
  (\<open>poll_removed_channel_dead\<close>), tasks dropped by \<open>stop\<close> (\<open>stop_drops_tasks\<close>), a malformed zone file
  taken for a zone (\<open>bad_file_counts_as_valid\<close>), a log file beyond its size
  (LogFile.thy), a line joined to the next (\<open>full_line_loses_newline\<close>), an old zone in
  cached times (\<open>stale_zone\<close>), a bad address taken for any (\<open>bad_address_is_any\<close>), \<open>resolve\<close> on an IPv6
  address (\<open>resolve_ipv6_lost\<close>), a count of threads that a name can fool (\<open>numThreads_fooled\<close>), objects of
  running threads that a \<open>ThreadLocal\<close> leaves behind (\<open>thread_local_leaks\<close>).

  \<^bold>\<open>Not modelled.\<close>
  \<^item> \<open>Types.h\<close>, \<open>copyable.h\<close>, \<open>noncopyable.h\<close>, \<open>Callbacks.h\<close>: casts, function types and base classes,
    glue without behaviour of its own.
  \<^item> Calls passed on unchanged (\<open>read\<close>, \<open>write\<close>, \<open>close\<close>, \<open>getpid\<close>, socket options of a connection).
  \<^item> The log lines of the components (those of the echo program are modelled), the printing of active channels, and
    memory addresses and capacities (\<open>internalCapacity\<close>).
  \<^item> \<open>waitForSeconds\<close>, which nothing calls; the tests.
  \<^item> IPv6 text, the text of \<open>%.12g\<close> and of \<open>strerror\<close>, \<open>gethostbyname\<close>: arguments, as they belong to the
    C library.
  \<^item> Memory orders: atomic operations and critical sections are single steps.
\<close>

end
